(* ===== verification/Prelude.thy ===== *)
theory Prelude
  imports Main "HOL-Library.Word" "HOL-Library.While_Combinator"
begin

text \<open>
  The shared vocabulary of the development: the machine integers of
  \<^verbatim>\<open>kernel/types.h\<close>, the outcome of running a piece of kernel code, the
  combinators with which the C statements are written, the generic loop
  laws, and the lemmas on lists, functions and words that several components
  use.

  A kernel function is a state transformer that also receives the list of what
  the rest of the machine (other harts, other processes, the devices) does each
  time the function gives up control: every \<^verbatim>\<open>swtch\<close> and every turn of a spin
  loop takes the next entry of that list.  A run that needs an entry when none
  is left is \<open>Blocked\<close> in the state it had reached.  A C \<^verbatim>\<open>panic\<close> is the outcome
  \<open>Panic\<close> with its message, and a loop that never ends is \<open>Diverges\<close>.
\<close>

unbundle bit_operations_syntax

section \<open>Machine integers\<close>

type_synonym uchar = "8 word"
type_synonym ushort = "16 word"
type_synonym uint = "32 word"
type_synonym uint64 = "64 word"

section \<open>Outcomes and the statements of the kernel\<close>

datatype ('s, 'a) outcome =
    Ok 'a 's "('s \<Rightarrow> 's) list"
  | Panic string
  | Blocked 's
  | Diverges

type_synonym ('s, 'a) kern = "'s \<Rightarrow> ('s \<Rightarrow> 's) list \<Rightarrow> ('s, 'a) outcome"

definition ret :: "'a \<Rightarrow> ('s, 'a) kern" where
  "ret x = (\<lambda>s e. Ok x s e)"

definition bind :: "('s, 'a) kern \<Rightarrow> ('a \<Rightarrow> ('s, 'b) kern) \<Rightarrow> ('s, 'b) kern" where
  "bind m k = (\<lambda>s e. case m s e of
       Ok x s' e' \<Rightarrow> k x s' e'
     | Panic msg \<Rightarrow> Panic msg
     | Blocked s' \<Rightarrow> Blocked s'
     | Diverges \<Rightarrow> Diverges)"

definition seq :: "('s, unit) kern \<Rightarrow> ('s, 'b) kern \<Rightarrow> ('s, 'b) kern" where
  "seq m k = bind m (\<lambda>_. k)"

definition panic :: "string \<Rightarrow> ('s, 'a) kern" where
  "panic msg = (\<lambda>s e. Panic msg)"

definition gets :: "('s \<Rightarrow> 'a) \<Rightarrow> ('s, 'a) kern" where
  "gets f = (\<lambda>s e. Ok (f s) s e)"

definition modify :: "('s \<Rightarrow> 's) \<Rightarrow> ('s, unit) kern" where
  "modify f = (\<lambda>s e. Ok () (f s) e)"

definition whenM :: "bool \<Rightarrow> ('s, unit) kern \<Rightarrow> ('s, unit) kern" where
  "whenM b m = (if b then m else ret ())"

text \<open>The rest of the machine runs until control comes back.\<close>

definition interfere :: "('s, unit) kern" where
  "interfere = (\<lambda>s e. case e of [] \<Rightarrow> Blocked s | f # e' \<Rightarrow> Ok () (f s) e')"

section \<open>Loops\<close>

text \<open>
  \<open>whileM b c x\<close> is \<^verbatim>\<open>while(b) c\<close> with the loop variables \<open>x\<close>; it is defined for
  every loop, and a loop that does not end is \<open>Diverges\<close>.  \<open>for_each\<close> and
  \<open>for_ret\<close> are the loops over a table; the second one leaves the loop, as
  \<^verbatim>\<open>return\<close> and \<^verbatim>\<open>break\<close> do, when the body gives \<open>Some\<close> result.
\<close>

definition whileM :: "('x \<Rightarrow> 's \<Rightarrow> bool) \<Rightarrow> ('x \<Rightarrow> ('s, 'x) kern) \<Rightarrow> 'x \<Rightarrow> ('s, 'x) kern" where
  "whileM b c x = (\<lambda>s e.
     case while_option
            (\<lambda>r. case r of Ok y t u \<Rightarrow> b y t | _ \<Rightarrow> False)
            (\<lambda>r. case r of Ok y t u \<Rightarrow> c y t u | _ \<Rightarrow> r)
            (Ok x s e)
     of None \<Rightarrow> Diverges | Some r \<Rightarrow> r)"

primrec for_each :: "'x list \<Rightarrow> ('x \<Rightarrow> ('s, unit) kern) \<Rightarrow> ('s, unit) kern" where
  "for_each [] f = ret ()"
| "for_each (x # xs) f = seq (f x) (for_each xs f)"

primrec for_ret :: "'x list \<Rightarrow> ('x \<Rightarrow> ('s, 'r option) kern) \<Rightarrow> ('s, 'r option) kern" where
  "for_ret [] f = ret None"
| "for_ret (x # xs) f =
     bind (f x) (\<lambda>r. case r of None \<Rightarrow> for_ret xs f | Some y \<Rightarrow> ret (Some y))"

section \<open>Running a statement\<close>

lemma ret_run [simp]: "ret x s e = Ok x s e"
  by (simp add: ret_def)

lemma gets_run [simp]: "gets f s e = Ok (f s) s e"
  by (simp add: gets_def)

lemma modify_run [simp]: "modify f s e = Ok () (f s) e"
  by (simp add: modify_def)

lemma panic_run [simp]: "panic msg s e = Panic msg"
  by (simp add: panic_def)

lemma interfere_run [simp]:
  "interfere s [] = Blocked s"
  "interfere s (f # e) = Ok () (f s) e"
  by (simp_all add: interfere_def)

lemma bind_run:
  "bind m k s e = (case m s e of
       Ok x s' e' \<Rightarrow> k x s' e'
     | Panic msg \<Rightarrow> Panic msg
     | Blocked s' \<Rightarrow> Blocked s'
     | Diverges \<Rightarrow> Diverges)"
  by (simp add: bind_def)

lemma bind_Ok [simp]: "m s e = Ok x s' e' \<Longrightarrow> bind m k s e = k x s' e'"
  by (simp add: bind_def)

lemma bind_Panic [simp]: "m s e = Panic msg \<Longrightarrow> bind m k s e = Panic msg"
  by (simp add: bind_def)

lemma bind_Blocked [simp]: "m s e = Blocked t \<Longrightarrow> bind m k s e = Blocked t"
  by (simp add: bind_def)

lemma bind_eq_Ok:
  "bind m k s e = Ok y t u \<longleftrightarrow> (\<exists>x s' e'. m s e = Ok x s' e' \<and> k x s' e' = Ok y t u)"
  by (auto simp: bind_def split: outcome.splits)

lemma seq_Ok [simp]: "m s e = Ok x s' e' \<Longrightarrow> seq m k s e = k s' e'"
  by (simp add: seq_def)

lemma seq_Panic [simp]: "m s e = Panic msg \<Longrightarrow> seq m k s e = Panic msg"
  by (simp add: seq_def)

lemma seq_Blocked [simp]: "m s e = Blocked t \<Longrightarrow> seq m k s e = Blocked t"
  by (simp add: seq_def)

lemma seq_run:
  "seq m k s e = (case m s e of
       Ok x s' e' \<Rightarrow> k s' e'
     | Panic msg \<Rightarrow> Panic msg
     | Blocked s' \<Rightarrow> Blocked s'
     | Diverges \<Rightarrow> Diverges)"
  by (simp add: seq_def bind_def)

lemma bind_assoc: "bind (bind m k) h = bind m (\<lambda>x. bind (k x) h)"
  by (rule ext, rule ext) (simp add: bind_def split: outcome.splits)

lemma whenM_run [simp]:
  "whenM True m = m"
  "whenM False m = ret ()"
  by (simp_all add: whenM_def)

lemma whileM_unfold:
  "whileM b c x s e = (if b x s then bind (c x) (whileM b c) s e else Ok x s e)"
proof -
  let ?B = "\<lambda>r. case r of Ok y t u \<Rightarrow> b y t | _ \<Rightarrow> False"
  let ?C = "\<lambda>r. case r of Ok y t u \<Rightarrow> c y t u | _ \<Rightarrow> r"
  have stop: "while_option ?B ?C r = Some r" if "\<not> ?B r" for r
    using that by (subst while_option_unfold) simp
  show ?thesis
  proof (cases "b x s")
    case True
    then have "while_option ?B ?C (Ok x s e) = while_option ?B ?C (c x s e)"
      by (subst while_option_unfold) simp
    then show ?thesis
      using True stop [of "c x s e"]
      by (cases "c x s e") (simp_all add: whileM_def bind_def)
  next
    case False
    then show ?thesis by (simp add: whileM_def stop)
  qed
qed

lemma whileM_stop: "\<not> b x s \<Longrightarrow> whileM b c x s e = Ok x s e"
  by (simp add: whileM_unfold)

lemma whileM_step:
  "b x s \<Longrightarrow> c x s e = Ok x' s' e' \<Longrightarrow> whileM b c x s e = whileM b c x' s' e'"
  by (subst whileM_unfold) simp

section \<open>Total correctness\<close>

text \<open>
  \<open>returns m s e Q\<close>: run from \<open>s\<close>, \<open>m\<close> returns (no panic, no endless wait, no
  endless loop) and its value, state and remaining interference satisfy \<open>Q\<close>.
\<close>

definition returns ::
  "('s, 'a) kern \<Rightarrow> 's \<Rightarrow> ('s \<Rightarrow> 's) list \<Rightarrow> ('a \<Rightarrow> 's \<Rightarrow> ('s \<Rightarrow> 's) list \<Rightarrow> bool) \<Rightarrow> bool" where
  "returns m s e Q \<longleftrightarrow> (case m s e of Ok x s' e' \<Rightarrow> Q x s' e' | _ \<Rightarrow> False)"

lemma returnsI: "m s e = Ok x s' e' \<Longrightarrow> Q x s' e' \<Longrightarrow> returns m s e Q"
  by (simp add: returns_def)

lemma returnsE:
  assumes "returns m s e Q"
  obtains x s' e' where "m s e = Ok x s' e'" and "Q x s' e'"
  using assms by (auto simp: returns_def split: outcome.splits)

lemma returns_iff: "returns m s e Q \<longleftrightarrow> (\<exists>x s' e'. m s e = Ok x s' e' \<and> Q x s' e')"
  by (auto simp: returns_def split: outcome.splits)

lemma returns_mono:
  "returns m s e Q \<Longrightarrow> (\<And>x t u. Q x t u \<Longrightarrow> R x t u) \<Longrightarrow> returns m s e R"
  by (auto simp: returns_iff)

lemma returns_bind [simp]:
  "returns (bind m k) s e Q \<longleftrightarrow> returns m s e (\<lambda>x t u. returns (k x) t u Q)"
  by (auto simp: returns_def bind_def split: outcome.splits)

lemma returns_seq [simp]:
  "returns (seq m k) s e Q \<longleftrightarrow> returns m s e (\<lambda>_ t u. returns k t u Q)"
  by (simp add: seq_def)

lemma returns_ret [simp]: "returns (ret x) s e Q \<longleftrightarrow> Q x s e"
  by (simp add: returns_def)

lemma returns_Ok [simp]: "returns (Ok x) s e Q \<longleftrightarrow> Q x s e"
  by (simp add: returns_def)

lemma returns_gets [simp]: "returns (gets f) s e Q \<longleftrightarrow> Q (f s) s e"
  by (simp add: returns_def)

lemma returns_modify [simp]: "returns (modify f) s e Q \<longleftrightarrow> Q () (f s) e"
  by (simp add: returns_def)

lemma returns_panic [simp]: "\<not> returns (panic msg) s e Q"
  by (simp add: returns_def)

lemma returns_if [simp]:
  "returns (if b then m else k) s e Q \<longleftrightarrow> (if b then returns m s e Q else returns k s e Q)"
  by simp

lemma returns_while:
  fixes m :: "'x \<Rightarrow> 's \<Rightarrow> ('s \<Rightarrow> 's) list \<Rightarrow> nat"
  assumes init: "I x s e"
    and step: "\<And>x s e. I x s e \<Longrightarrow> b x s \<Longrightarrow>
      returns (c x) s e (\<lambda>x' s' e'. I x' s' e' \<and> m x' s' e' < m x s e)"
    and final: "\<And>x s e. I x s e \<Longrightarrow> \<not> b x s \<Longrightarrow> Q x s e"
  shows "returns (whileM b c x) s e Q"
  using init
proof (induction "m x s e" arbitrary: x s e rule: less_induct)
  case less
  show ?case
  proof (cases "b x s")
    case False
    with less.prems show ?thesis by (simp add: returns_def whileM_stop final)
  next
    case True
    with less.prems obtain x' s' e' where run: "c x s e = Ok x' s' e'"
      and I: "I x' s' e'" and less': "m x' s' e' < m x s e"
      using step [of x s e] by (auto elim: returnsE)
    from less.hyps [OF less' I] show ?thesis
      by (simp add: returns_def whileM_step [of b x s c e, OF True run])
  qed
qed

lemma whileM_forever:
  assumes "I x s e"
    and step: "\<And>x s e. I x s e \<Longrightarrow> b x s \<and> returns (c x) s e I"
  shows "whileM b c x s e = Diverges"
proof -
  let ?B = "\<lambda>r. case r of Ok y t u \<Rightarrow> b y t | _ \<Rightarrow> False"
  let ?C = "\<lambda>r. case r of Ok y t u \<Rightarrow> c y t u | _ \<Rightarrow> r"
  let ?I = "\<lambda>r. case r of Ok y t u \<Rightarrow> I y t u | _ \<Rightarrow> False"
  have keep: "?I (?C r) \<and> ?B r" if "?I r" for r
  proof (cases r)
    case (Ok y t u)
    with that step [of y t u] show ?thesis by (auto simp: returns_def split: outcome.splits)
  qed (use that in simp_all)
  have "while_option ?B ?C (Ok x s e) = None"
  proof (rule ccontr)
    assume "while_option ?B ?C (Ok x s e) \<noteq> None"
    then obtain r where r: "while_option ?B ?C (Ok x s e) = Some r" by auto
    have "?I r" by (rule while_option_rule [OF _ r]) (use keep assms(1) in auto)
    with keep while_option_stop [OF r] show False by blast
  qed
  then show ?thesis by (simp add: whileM_def)
qed

lemma for_each_append: "for_each (xs @ ys) f = seq (for_each xs f) (for_each ys f)"
  by (induction xs) (auto simp: seq_def bind_def ret_def intro!: ext split: outcome.splits)

lemma for_ret_append_None:
  assumes "for_ret xs f s e = Ok None t u"
  shows "for_ret (xs @ ys) f s e = for_ret ys f t u"
  using assms
  by (induction xs arbitrary: s e) (auto simp: bind_run split: outcome.splits option.splits)

lemma for_ret_run_None:
  assumes "\<And>x s. x \<in> set xs \<Longrightarrow> P s \<Longrightarrow> f x s e = Ok None (g x s) e \<and> P (g x s)"
    and "P s"
  shows "for_ret xs f s e = Ok None (fold g xs s) e \<and> P (fold g xs s)"
  using assms
proof (induction xs arbitrary: s)
  case (Cons x xs)
  have run: "f x s e = Ok None (g x s) e" and P: "P (g x s)"
    using Cons.prems(1) [of x s] Cons.prems(2) by auto
  from Cons.IH [OF Cons.prems(1) P] run show ?case by simp
qed simp

lemma for_each_run:
  assumes "\<And>x s. x \<in> set xs \<Longrightarrow> P s \<Longrightarrow> f x s e = Ok () (g x s) e \<and> P (g x s)"
    and "P s"
  shows "for_each xs f s e = Ok () (fold g xs s) e \<and> P (fold g xs s)"
  using assms
proof (induction xs arbitrary: s)
  case Nil
  then show ?case by simp
next
  case (Cons x xs)
  have run: "f x s e = Ok () (g x s) e" and P: "P (g x s)"
    using Cons.prems(1) [of x s] Cons.prems(2) by auto
  from Cons.IH [OF Cons.prems(1) P] run show ?case by simp
qed

lemma for_ret_skip: "(\<And>x. x \<in> set xs \<Longrightarrow> f x s e = Ok None s e) \<Longrightarrow> for_ret xs f s e = Ok None s e"
  by (induction xs) simp_all

lemma for_each_skip: "(\<And>x. x \<in> set xs \<Longrightarrow> f x s e = Ok () s e) \<Longrightarrow> for_each xs f s e = Ok () s e"
  by (induction xs) simp_all

lemma for_ret_first:
  assumes "i < n" "\<And>j. j < i \<Longrightarrow> f j s e = Ok None s e" "f i s e = Ok (Some r) t u"
  shows "for_ret [0..<n] f s e = Ok (Some r) t u"
proof -
  have "for_ret [0..<i] f s e = Ok None s e" using assms(2) by (intro for_ret_skip) simp
  moreover have "[0..<n] = [0..<i] @ i # [Suc i..<n]"
    using upt_add_eq_append [of 0 i "n - i"] assms(1) by (simp add: upt_conv_Cons)
  ultimately show ?thesis using for_ret_append_None [of "[0..<i]" f s e s e "i # [Suc i..<n]"] assms(3) by simp
qed

section \<open>Lists\<close>

lemma upt_split3: "i < n \<Longrightarrow> [0..<n] = [0..<i] @ i # [Suc i..<n]"
  using upt_add_eq_append [of 0 i "n - i"] by (simp add: upt_conv_Cons)

end
