(* ===== verification/Machine.thy ===== *)
theory Machine
  imports Prelude
begin

text \<open>
  The state every part of the kernel shares: the harts with their interrupt
  enable bit and \<^verbatim>\<open>struct cpu\<close>, the process table, the spin locks and the sleep
  locks (\<^verbatim>\<open>kernel/param.h\<close>, \<^verbatim>\<open>kernel/proc.h\<close>, \<^verbatim>\<open>kernel/spinlock.h\<close>,
  \<^verbatim>\<open>kernel/sleeplock.h\<close> and the inline functions of \<^verbatim>\<open>kernel/riscv.h\<close> the locks
  use).  Arrays of the C program are functions from the index, read only at the
  indices the code reads.  A pointer to a table entry is its index, a null
  pointer is \<open>None\<close>.  The records of the other components extend \<open>mach\<close>.
\<close>

section \<open>Parameters\<close>

definition NPROC :: nat where "NPROC = 64"
definition NCPU :: nat where "NCPU = 8"
definition NOFILE :: nat where "NOFILE = 16"
definition NFILE :: nat where "NFILE = 100"
definition NINODE :: nat where "NINODE = 50"
definition NDEV :: nat where "NDEV = 10"
definition ROOTDEV :: uint where "ROOTDEV = 1"
definition MAXARG :: nat where "MAXARG = 32"
definition MAXOPBLOCKS :: nat where "MAXOPBLOCKS = 10"
definition LOGSIZE :: nat where "LOGSIZE = MAXOPBLOCKS * 3"
definition NBUF :: nat where "NBUF = MAXOPBLOCKS * 3"
definition FSSIZE :: nat where "FSSIZE = 2000"
definition MAXPATH :: nat where "MAXPATH = 128"

lemmas param_defs = NPROC_def NCPU_def NOFILE_def NFILE_def NINODE_def NDEV_def
  MAXARG_def MAXOPBLOCKS_def LOGSIZE_def NBUF_def FSSIZE_def MAXPATH_def

section \<open>Locks, channels, processes\<close>

text \<open>
  The locks of the kernel, named by the object they are a field of, and the
  addresses that \<^verbatim>\<open>sleep\<close> and \<^verbatim>\<open>wakeup\<close> use as channels.
\<close>

datatype sleeplock_id = SL_buf nat | SL_inode nat

datatype lockid =
    L_kmem | L_pid | L_wait | L_proc nat | L_sleep sleeplock_id | L_bcache | L_log
  | L_itable | L_ftable | L_pipe uint64 | L_cons | L_uart | L_pr | L_vdisk | L_ticks

datatype chan =
    Ch_null | Ch_proc nat | Ch_ticks | Ch_log | Ch_sleep sleeplock_id
  | Ch_pipe_nread uint64 | Ch_pipe_nwrite uint64 | Ch_cons_r | Ch_uart_tx_r
  | Ch_disk_free | Ch_buf nat

record spinlock =
  locked :: bool
  lk_name :: string
  lk_cpu :: "nat option"

record sleeplock =
  sl_locked :: bool
  sl_name :: string
  sl_pid :: int

record kcontext =
  ctx_ra :: uint64
  ctx_sp :: uint64
  ctx_s :: "nat \<Rightarrow> uint64"

datatype procstate = UNUSED | USED | SLEEPING | RUNNABLE | RUNNING | ZOMBIE

record proc =
  pstate :: procstate
  chan :: chan
  pkilled :: bool
  xstate :: int
  pid :: int
  parent :: "nat option"
  kstack :: uint64
  sz :: uint64
  pagetable :: uint64
  trapframe :: uint64
  ctx :: kcontext
  ofile :: "nat \<Rightarrow> nat option"
  cwd :: "nat option"
  pname :: string

record cpu =
  cpu_proc :: "nat option"
  noff :: int
  intena :: bool

record mach =
  hart :: nat
  sstatus :: "nat \<Rightarrow> uint64"
  cpus :: "nat \<Rightarrow> cpu"
  procs :: "nat \<Rightarrow> proc"
  initproc :: "nat option"
  nextpid :: int
  locks :: "lockid \<Rightarrow> spinlock"
  sleeplocks :: "sleeplock_id \<Rightarrow> sleeplock"

text \<open>The memory image the kernel starts with: the C objects are zero except where initialised.\<close>

definition zero_context :: kcontext where
  "zero_context = \<lparr>ctx_ra = 0, ctx_sp = 0, ctx_s = (\<lambda>_. 0)\<rparr>"

definition zero_proc :: proc where
  "zero_proc = \<lparr>pstate = UNUSED, chan = Ch_null, pkilled = False, xstate = 0, pid = 0, parent = None,
     kstack = 0, sz = 0, pagetable = 0, trapframe = 0, ctx = zero_context, ofile = (\<lambda>_. None),
     cwd = None, pname = []\<rparr>"

definition boot_mach :: mach where
  "boot_mach = \<lparr>hart = 0, sstatus = (\<lambda>_. 0),
     cpus = (\<lambda>_. \<lparr>cpu_proc = None, noff = 0, intena = False\<rparr>),
     procs = (\<lambda>_. zero_proc), initproc = None, nextpid = 1,
     locks = (\<lambda>_. \<lparr>locked = False, lk_name = [], lk_cpu = None\<rparr>),
     sleeplocks = (\<lambda>_. \<lparr>sl_locked = False, sl_name = [], sl_pid = 0\<rparr>)\<rparr>"

section \<open>Registers and small accessors\<close>

definition SSTATUS_SPP :: uint64 where "SSTATUS_SPP = push_bit 8 1"
definition SSTATUS_SPIE :: uint64 where "SSTATUS_SPIE = push_bit 5 1"
definition SSTATUS_SIE :: uint64 where "SSTATUS_SIE = push_bit 1 1"

text \<open>\<open>cpuid()\<close> reads \<^verbatim>\<open>tp\<close>; \<open>mycpu()\<close> is the entry of \<^verbatim>\<open>cpus\<close> it indexes.\<close>

definition cpuid :: "'m mach_scheme \<Rightarrow> nat" where
  "cpuid s = hart s"

definition mycpu :: "'m mach_scheme \<Rightarrow> cpu" where
  "mycpu s = cpus s (cpuid s)"

definition set_mycpu :: "(cpu \<Rightarrow> cpu) \<Rightarrow> 'm mach_scheme \<Rightarrow> 'm mach_scheme" where
  "set_mycpu f s = s\<lparr>cpus := (cpus s)(cpuid s := f (mycpu s))\<rparr>"

definition set_lock :: "lockid \<Rightarrow> (spinlock \<Rightarrow> spinlock) \<Rightarrow> 'm mach_scheme \<Rightarrow> 'm mach_scheme" where
  "set_lock lk f s = s\<lparr>locks := (locks s)(lk := f (locks s lk))\<rparr>"

definition set_sleeplock ::
  "sleeplock_id \<Rightarrow> (sleeplock \<Rightarrow> sleeplock) \<Rightarrow> 'm mach_scheme \<Rightarrow> 'm mach_scheme" where
  "set_sleeplock lk f s = s\<lparr>sleeplocks := (sleeplocks s)(lk := f (sleeplocks s lk))\<rparr>"

definition set_proc :: "nat \<Rightarrow> (proc \<Rightarrow> proc) \<Rightarrow> 'm mach_scheme \<Rightarrow> 'm mach_scheme" where
  "set_proc p f s = s\<lparr>procs := (procs s)(p := f (procs s p))\<rparr>"

text \<open>The three inline functions on the interrupt enable bit of \<^verbatim>\<open>sstatus\<close>.\<close>

definition intr_get :: "'m mach_scheme \<Rightarrow> bool" where
  "intr_get s = (sstatus s (hart s) AND SSTATUS_SIE \<noteq> 0)"

definition intr_on :: "('m mach_scheme, unit) kern" where
  "intr_on = modify (\<lambda>s. s\<lparr>sstatus := (sstatus s)(hart s := sstatus s (hart s) OR SSTATUS_SIE)\<rparr>)"

definition intr_off :: "('m mach_scheme, unit) kern" where
  "intr_off = modify (\<lambda>s. s\<lparr>sstatus := (sstatus s)(hart s := sstatus s (hart s) AND NOT SSTATUS_SIE)\<rparr>)"

lemma SSTATUS_SIE_bit: "SSTATUS_SIE = 2"
  by (simp add: SSTATUS_SIE_def)

lemma and_bit_1_iff: "(x::uint64) AND 2 \<noteq> 0 \<longleftrightarrow> bit x 1"
  using and_exp_eq_0_iff_not_bit [of x 1] by simp

lemma intr_get_bit: "intr_get s \<longleftrightarrow> bit (sstatus s (hart s)) 1"
  by (simp add: intr_get_def SSTATUS_SIE_bit and_bit_1_iff)

end
