(* ===== verification/Spinlock.thy ===== *)
theory Spinlock
  imports Machine
begin

text \<open>
  Spin locks: \<^verbatim>\<open>kernel/spinlock.c\<close> and \<open>myproc\<close> of \<^verbatim>\<open>kernel/proc.c\<close>.  The first
  part is the code, run by one hart; the second part shows that a balanced
  acquire and release gives back the interrupt state and the lock; the third
  part is the race of several harts for one lock, one atomic access per step.
\<close>

section \<open>The code\<close>

definition initlock :: "lockid \<Rightarrow> string \<Rightarrow> ('m mach_scheme, unit) kern" where
  "initlock lk name = modify (set_lock lk (\<lambda>l. l\<lparr>lk_name := name, locked := False, lk_cpu := None\<rparr>))"

definition holding :: "lockid \<Rightarrow> 'm mach_scheme \<Rightarrow> bool" where
  "holding lk s = (locked (locks s lk) \<and> lk_cpu (locks s lk) = Some (cpuid s))"

definition push_off :: "('m mach_scheme, unit) kern" where
  "push_off =
     bind (gets intr_get) (\<lambda>old.
     seq intr_off (
     bind (gets mycpu) (\<lambda>c.
     seq (whenM (noff c = 0) (modify (set_mycpu (\<lambda>c. c\<lparr>intena := old\<rparr>)))) (
     modify (set_mycpu (\<lambda>c. c\<lparr>noff := noff c + 1\<rparr>))))))"

definition pop_off :: "('m mach_scheme, unit) kern" where
  "pop_off =
     bind (gets intr_get) (\<lambda>on.
     if on then panic ''pop_off - interruptible'' else
     bind (gets mycpu) (\<lambda>c.
     if noff c < 1 then panic ''pop_off'' else
     seq (modify (set_mycpu (\<lambda>c. c\<lparr>noff := noff c - 1\<rparr>))) (
     bind (gets mycpu) (\<lambda>c.
     whenM (noff c = 0 \<and> intena c) intr_on))))"

text \<open>The spin loop tries the atomic swap again after the rest of the machine has moved.\<close>

definition acquire :: "lockid \<Rightarrow> ('m mach_scheme, unit) kern" where
  "acquire lk =
     seq push_off (
     bind (gets (holding lk)) (\<lambda>h.
     if h then panic ''acquire'' else
     seq (whileM (\<lambda>_ s. locked (locks s lk)) (\<lambda>_. interfere) ()) (
     seq (modify (set_lock lk (\<lambda>l. l\<lparr>locked := True\<rparr>))) (
     modify (\<lambda>s. set_lock lk (\<lambda>l. l\<lparr>lk_cpu := Some (cpuid s)\<rparr>) s)))))"

definition release :: "lockid \<Rightarrow> ('m mach_scheme, unit) kern" where
  "release lk =
     bind (gets (holding lk)) (\<lambda>h.
     if \<not> h then panic ''release'' else
     seq (modify (set_lock lk (\<lambda>l. l\<lparr>lk_cpu := None\<rparr>))) (
     seq (modify (set_lock lk (\<lambda>l. l\<lparr>locked := False\<rparr>)))
     pop_off))"

definition myproc :: "('m mach_scheme, nat option) kern" where
  "myproc =
     seq push_off (
     bind (gets (\<lambda>s. cpu_proc (mycpu s))) (\<lambda>p.
     seq pop_off (ret p)))"

section \<open>One hart: what the code does to the machine\<close>

text \<open>
  \<open>cpu_ok\<close>: the nesting depth is not negative, and interrupts are off while it
  is positive.  \<open>pushed\<close>, \<open>popped\<close>, \<open>acquired\<close>, \<open>released\<close> name the states after
  the four functions; \<open>touched\<close> is what a balanced pair leaves behind (outside
  any nesting it has recorded the interrupt state in \<^verbatim>\<open>intena\<close>).
\<close>

definition cpu_ok :: "'m mach_scheme \<Rightarrow> bool" where
  "cpu_ok s \<longleftrightarrow> 0 \<le> noff (mycpu s) \<and> (0 < noff (mycpu s) \<longrightarrow> \<not> intr_get s)"

definition lock_free :: "lockid \<Rightarrow> 'm mach_scheme \<Rightarrow> bool" where
  "lock_free lk s \<longleftrightarrow> \<not> locked (locks s lk) \<and> lk_cpu (locks s lk) = None"

definition pushed :: "'m mach_scheme \<Rightarrow> 'm mach_scheme" where
  "pushed s = set_mycpu (\<lambda>c. c\<lparr>intena := (if noff c = 0 then intr_get s else intena c), noff := noff c + 1\<rparr>)
     (s\<lparr>sstatus := (sstatus s)(hart s := sstatus s (hart s) AND NOT SSTATUS_SIE)\<rparr>)"

definition popped :: "'m mach_scheme \<Rightarrow> 'm mach_scheme" where
  "popped s = (let t = set_mycpu (\<lambda>c. c\<lparr>noff := noff c - 1\<rparr>) s in
     if noff (mycpu t) = 0 \<and> intena (mycpu t)
     then t\<lparr>sstatus := (sstatus t)(hart t := sstatus t (hart t) OR SSTATUS_SIE)\<rparr> else t)"

definition touched :: "'m mach_scheme \<Rightarrow> 'm mach_scheme" where
  "touched s = (if noff (mycpu s) = 0 then set_mycpu (\<lambda>c. c\<lparr>intena := intr_get s\<rparr>) s else s)"

definition acquired :: "lockid \<Rightarrow> 'm mach_scheme \<Rightarrow> 'm mach_scheme" where
  "acquired lk s = set_lock lk (\<lambda>l. l\<lparr>locked := True, lk_cpu := Some (hart s)\<rparr>) (pushed s)"

definition released :: "lockid \<Rightarrow> 'm mach_scheme \<Rightarrow> 'm mach_scheme" where
  "released lk s = popped (set_lock lk (\<lambda>l. l\<lparr>lk_cpu := None, locked := False\<rparr>) s)"

lemmas mach_upd_defs = set_mycpu_def set_lock_def set_proc_def set_sleeplock_def mycpu_def cpuid_def

lemma sie_off: "\<not> bit (x AND NOT SSTATUS_SIE) 1"
  by (simp add: SSTATUS_SIE_def bit_simps)

lemma sie_on: "bit (x OR SSTATUS_SIE) 1"
  by (simp add: SSTATUS_SIE_def bit_simps)

lemma sie_off_id: "\<not> bit x 1 \<Longrightarrow> x AND NOT SSTATUS_SIE = x"
  by (rule bit_eqI) (auto simp: SSTATUS_SIE_def bit_simps)

lemma sie_off_on_id: "bit x 1 \<Longrightarrow> (x AND NOT SSTATUS_SIE) OR SSTATUS_SIE = x"
  by (rule bit_eqI) (auto simp: SSTATUS_SIE_def bit_simps)

lemma cpu_noff_same: "noff c = n \<Longrightarrow> c\<lparr>intena := b, noff := n\<rparr> = c\<lparr>intena := b\<rparr>"
  by (cases c) simp

lemma cpu_both_same: "noff c = n \<Longrightarrow> intena c = b \<Longrightarrow> c\<lparr>intena := b, noff := n\<rparr> = c"
  by (cases c) simp

lemma lock_same:
  "\<not> locked l \<Longrightarrow> lk_cpu l = None \<Longrightarrow> l\<lparr>lk_cpu := None, locked := False\<rparr> = l"
  by (cases l) simp

lemma push_off_run: "push_off s e = Ok () (pushed s) e"
  by (simp add: push_off_def pushed_def intr_off_def whenM_def mach_upd_defs)

lemma pop_off_run:
  "\<not> intr_get s \<Longrightarrow> 1 \<le> noff (mycpu s) \<Longrightarrow> pop_off s e = Ok () (popped s) e"
  by (simp add: pop_off_def popped_def intr_on_def whenM_def Let_def mach_upd_defs)

lemma acquire_run:
  assumes "lock_free lk s"
  shows "acquire lk s e = Ok () (acquired lk s) e"
proof -
  have free: "\<not> locked (locks (pushed s) lk)"
    using assms by (simp add: lock_free_def pushed_def mach_upd_defs)
  then show ?thesis
    by (simp add: acquire_def push_off_run holding_def whileM_stop acquired_def)
       (simp add: mach_upd_defs pushed_def)
qed

lemma release_run:
  assumes "holding lk s" "\<not> intr_get s" "1 \<le> noff (mycpu s)"
  shows "release lk s e = Ok () (released lk s) e"
proof -
  let ?t = "set_lock lk (\<lambda>l. l\<lparr>lk_cpu := None, locked := False\<rparr>) s"
  have eq: "set_lock lk (\<lambda>l. l\<lparr>locked := False\<rparr>) (set_lock lk (\<lambda>l. l\<lparr>lk_cpu := None\<rparr>) s) = ?t"
    by (simp add: set_lock_def)
  have "pop_off ?t e = Ok () (popped ?t) e"
    using assms(2,3) by (intro pop_off_run) (simp_all add: mach_upd_defs intr_get_def)
  then show ?thesis
    using assms(1) by (simp add: release_def eq released_def)
qed

lemma holding_acquired [simp]: "holding lk (acquired lk s)"
  by (simp add: holding_def acquired_def pushed_def mach_upd_defs)

lemma holding_acquired_other [simp]: "lk \<noteq> lk' \<Longrightarrow> holding lk (acquired lk' s) = holding lk s"
  by (simp add: holding_def acquired_def pushed_def mach_upd_defs)

lemma intr_get_acquired [simp]: "\<not> intr_get (acquired lk s)"
  using sie_off by (simp add: intr_get_bit acquired_def pushed_def mach_upd_defs)

lemma noff_acquired [simp]: "noff (mycpu (acquired lk s)) = noff (mycpu s) + 1"
  by (simp add: acquired_def pushed_def mach_upd_defs)

lemma cpu_ok_acquired [simp]: "cpu_ok s \<Longrightarrow> cpu_ok (acquired lk s)"
  by (simp add: cpu_ok_def)

lemma lock_free_acquired [simp]: "lk \<noteq> lk' \<Longrightarrow> lock_free lk (acquired lk' s) = lock_free lk s"
  by (simp add: lock_free_def acquired_def pushed_def mach_upd_defs)

lemma popped_pushed:
  assumes "cpu_ok s" shows "popped (pushed s) = touched s"
proof (cases "noff (mycpu s) = 0")
  case True
  show ?thesis
  proof (cases "intr_get s")
    case on: True
    then have "sstatus s (hart s) AND NOT SSTATUS_SIE OR SSTATUS_SIE = sstatus s (hart s)"
      by (simp add: intr_get_bit sie_off_on_id)
    with True on show ?thesis
      by (simp add: popped_def pushed_def touched_def Let_def mach_upd_defs cpu_noff_same cpu_both_same)
  next
    case off: False
    then have "sstatus s (hart s) AND NOT SSTATUS_SIE = sstatus s (hart s)"
      by (simp add: intr_get_bit sie_off_id)
    with True off show ?thesis
      by (simp add: popped_def pushed_def touched_def Let_def mach_upd_defs cpu_noff_same cpu_both_same)
  qed
next
  case False
  then have "\<not> intr_get s" using assms by (auto simp: cpu_ok_def)
  then have "sstatus s (hart s) AND NOT SSTATUS_SIE = sstatus s (hart s)"
    by (simp add: intr_get_bit sie_off_id)
  with False show ?thesis
    by (simp add: popped_def pushed_def touched_def Let_def mach_upd_defs cpu_noff_same cpu_both_same)
qed

lemma released_acquired [simp]:
  assumes "cpu_ok s" "lock_free lk s" shows "released lk (acquired lk s) = touched s"
proof -
  have "set_lock lk (\<lambda>l. l\<lparr>lk_cpu := None, locked := False\<rparr>) (acquired lk s) = pushed s"
    using assms(2)
    by (simp add: acquired_def set_lock_def lock_free_def pushed_def set_mycpu_def mycpu_def cpuid_def)
       (simp add: lock_same fun_upd_idem)
  then show ?thesis by (simp add: released_def popped_pushed assms(1))
qed

lemma release_acquired [simp]:
  "cpu_ok s \<Longrightarrow> lock_free lk s \<Longrightarrow> release lk (acquired lk s) e = Ok () (touched s) e"
  by (simp add: release_run cpu_ok_def)

text \<open>The lock functions leave the other fields alone, so reads and writes pass through them.\<close>

lemma acquired_sel [simp]:
  "hart (acquired lk s) = hart s"
  "procs (acquired lk s) = procs s"
  "initproc (acquired lk s) = initproc s"
  "nextpid (acquired lk s) = nextpid s"
  "sleeplocks (acquired lk s) = sleeplocks s"
  "cpu_proc (mycpu (acquired lk s)) = cpu_proc (mycpu s)"
  by (simp_all add: acquired_def pushed_def mach_upd_defs)

lemma touched_sel [simp]:
  "hart (touched s) = hart s"
  "procs (touched s) = procs s"
  "initproc (touched s) = initproc s"
  "nextpid (touched s) = nextpid s"
  "sleeplocks (touched s) = sleeplocks s"
  "sstatus (touched s) = sstatus s"
  "locks (touched s) = locks s"
  "cpu_proc (mycpu (touched s)) = cpu_proc (mycpu s)"
  "noff (mycpu (touched s)) = noff (mycpu s)"
  by (simp_all add: touched_def mach_upd_defs)

lemma acquired_upd [simp]:
  "procs_update fp5 (acquired lk s) = acquired lk (procs_update fp5 s)"
  "initproc_update fi8 (acquired lk s) = acquired lk (initproc_update fi8 s)"
  "nextpid_update fn7 (acquired lk s) = acquired lk (nextpid_update fn7 s)"
  "sleeplocks_update fs10 (acquired lk s) = acquired lk (sleeplocks_update fs10 s)"
  by (simp_all add: acquired_def pushed_def mach_upd_defs intr_get_def)

lemma touched_upd [simp]:
  "procs_update fp5 (touched s) = touched (procs_update fp5 s)"
  "initproc_update fi8 (touched s) = touched (initproc_update fi8 s)"
  "nextpid_update fn7 (touched s) = touched (nextpid_update fn7 s)"
  "sleeplocks_update fs10 (touched s) = touched (sleeplocks_update fs10 s)"
  by (simp_all add: touched_def mach_upd_defs intr_get_def)

lemma upd_proc_sel [simp]:
  "hart (set_proc p g s) = hart s"
  "initproc (set_proc p g s) = initproc s"
  "nextpid (set_proc p g s) = nextpid s"
  "sleeplocks (set_proc p g s) = sleeplocks s"
  "sstatus (set_proc p g s) = sstatus s"
  "locks (set_proc p g s) = locks s"
  "cpus (set_proc p g s) = cpus s"
  "procs (set_proc p g s) q = (if q = p then g (procs s p) else procs s q)"
  by (simp_all add: set_proc_def)

lemma set_proc_acquired [simp]: "set_proc p f (acquired lk s) = acquired lk (set_proc p f s)"
  by (simp add: set_proc_def)

lemma set_proc_touched [simp]: "set_proc p f (touched s) = touched (set_proc p f s)"
  by (simp add: set_proc_def)

lemma set_sleeplock_acquired [simp]:
  "set_sleeplock l f (acquired lk s) = acquired lk (set_sleeplock l f s)"
  by (simp add: set_sleeplock_def)

lemma set_sleeplock_touched [simp]:
  "set_sleeplock l f (touched s) = touched (set_sleeplock l f s)"
  by (simp add: set_sleeplock_def)

lemma intr_get_touched [simp]: "intr_get (touched s) = intr_get s"
  by (simp add: intr_get_def)

lemma touched_touched [simp]: "touched (touched s) = touched s"
  by (simp add: touched_def mach_upd_defs intr_get_def)

lemma acquired_touched [simp]: "acquired lk (touched s) = acquired lk s"
  by (simp add: acquired_def pushed_def touched_def mach_upd_defs intr_get_def)

lemma touched_acquired [simp]: "cpu_ok s \<Longrightarrow> touched (acquired lk s) = acquired lk s"
  by (simp add: touched_def cpu_ok_def)

lemma acquired_commute: "lk \<noteq> lk' \<Longrightarrow> acquired lk (acquired lk' s) = acquired lk' (acquired lk s)"
  by (simp add: acquired_def pushed_def mach_upd_defs intr_get_def fun_upd_twist)

text \<open>Locks need not be released in the reverse order: \<^verbatim>\<open>sleep\<close> lets the outer one go first.\<close>

lemma release_acquired_under [simp]:
  assumes "cpu_ok s" "lock_free lk s" "lk' \<noteq> lk"
  shows "release lk (acquired lk' (acquired lk s)) e = Ok () (acquired lk' s) e"
  using assms by (simp add: acquired_commute [of lk' lk s])

text \<open>
  \<open>cpu_ok\<close>, \<open>lock_free\<close>, \<open>holding\<close> and \<open>intr_get\<close> read only the hart's own fields.
\<close>

lemma cpu_ok_cong:
  "hart s = hart t \<Longrightarrow> cpus s = cpus t \<Longrightarrow> sstatus s = sstatus t \<Longrightarrow> cpu_ok s = cpu_ok (t :: 'm mach_scheme)"
  by (simp add: cpu_ok_def intr_get_def mach_upd_defs)

lemma cpu_ok_touched [simp]: "cpu_ok (touched s) = cpu_ok s"
  by (simp add: cpu_ok_def)

lemma lock_free_touched [simp]: "lock_free lk (touched s) = lock_free lk s"
  by (simp add: lock_free_def)

lemma holding_touched [simp]: "holding lk (touched s) = holding lk s"
  by (simp add: holding_def cpuid_def)

lemma cpu_ok_upd [simp]:
  "cpu_ok (procs_update fp5 s) = cpu_ok s"
  "cpu_ok (initproc_update fi8 s) = cpu_ok s"
  "cpu_ok (nextpid_update fn7 s) = cpu_ok s"
  "cpu_ok (sleeplocks_update fs10 s) = cpu_ok s"
  "cpu_ok (locks_update fl5 s) = cpu_ok s"
  by (simp_all add: cpu_ok_def intr_get_def mach_upd_defs)

lemma lock_free_upd [simp]:
  "lock_free lk (procs_update fp5 s) = lock_free lk s"
  "lock_free lk (initproc_update fi8 s) = lock_free lk s"
  "lock_free lk (nextpid_update fn7 s) = lock_free lk s"
  "lock_free lk (sleeplocks_update fs10 s) = lock_free lk s"
  "lock_free lk (cpus_update fc4 s) = lock_free lk s"
  "lock_free lk (sstatus_update fs7 s) = lock_free lk s"
  by (simp_all add: lock_free_def)

lemma intr_get_upd [simp]:
  "intr_get (procs_update fp5 s) = intr_get s"
  "intr_get (initproc_update fi8 s) = intr_get s"
  "intr_get (nextpid_update fn7 s) = intr_get s"
  "intr_get (sleeplocks_update fs10 s) = intr_get s"
  by (simp_all add: intr_get_def)

lemma holding_upd [simp]:
  "holding lk (procs_update fp5 s) = holding lk s"
  "holding lk (initproc_update fi8 s) = holding lk s"
  "holding lk (nextpid_update fn7 s) = holding lk s"
  "holding lk (sleeplocks_update fs10 s) = holding lk s"
  by (simp_all add: holding_def cpuid_def)

lemma cpu_ok_set_proc [simp]: "cpu_ok (set_proc p f s) = cpu_ok s"
  by (simp add: set_proc_def)

lemma lock_free_set_proc [simp]: "lock_free lk (set_proc p f s) = lock_free lk s"
  by (simp add: set_proc_def)

lemma cpu_ok_set_sleeplock [simp]: "cpu_ok (set_sleeplock p f s) = cpu_ok s"
  by (simp add: set_sleeplock_def)

lemma lock_free_set_sleeplock [simp]: "lock_free lk (set_sleeplock p f s) = lock_free lk s"
  by (simp add: set_sleeplock_def)

lemma mycpu_upd [simp]:
  "mycpu (procs_update fp5 s) = mycpu s"
  "mycpu (initproc_update fi8 s) = mycpu s"
  "mycpu (nextpid_update fn7 s) = mycpu s"
  "mycpu (sleeplocks_update fs10 s) = mycpu s"
  "mycpu (locks_update fl5 s) = mycpu s"
  "mycpu (sstatus_update fs7 s) = mycpu s"
  "mycpu (set_proc p g s) = mycpu s"
  by (simp_all add: mach_upd_defs)

lemma myproc_run:
  assumes "cpu_ok s" shows "myproc s e = Ok (cpu_proc (mycpu s)) (touched s) e"
proof -
  have "\<not> intr_get (pushed s)" "1 \<le> noff (mycpu (pushed s))"
       "cpu_proc (mycpu (pushed s)) = cpu_proc (mycpu s)"
    using assms sie_off by (simp_all add: cpu_ok_def intr_get_bit pushed_def mach_upd_defs)
  then show ?thesis
    by (simp add: myproc_def push_off_run pop_off_run popped_pushed assms)
qed

section \<open>Several harts: mutual exclusion\<close>

text \<open>
  The harts that use one lock.  A hart is outside, spinning in \<^verbatim>\<open>acquire\<close>, past the
  atomic swap but before it recorded itself in \<^verbatim>\<open>lk->cpu\<close>, inside the critical
  section, or in \<^verbatim>\<open>release\<close> between clearing \<^verbatim>\<open>lk->cpu\<close> and the atomic clear of
  \<^verbatim>\<open>lk->locked\<close>; or one of the two checks has panicked.  Each rule is one access
  to the lock.
\<close>

datatype lock_pc = Outside | Spinning | Swapped | Inside | Leaving | Panicked

record race =
  rlock :: spinlock
  rpc :: "nat \<Rightarrow> lock_pc"

definition race_holding :: "race \<Rightarrow> nat \<Rightarrow> bool" where
  "race_holding s h \<longleftrightarrow> locked (rlock s) \<and> lk_cpu (rlock s) = Some h"

inductive race_step :: "race \<Rightarrow> race \<Rightarrow> bool" where
  acquire_check: "rpc s h = Outside \<Longrightarrow> \<not> race_holding s h \<Longrightarrow>
     race_step s (s\<lparr>rpc := (rpc s)(h := Spinning)\<rparr>)"
| acquire_panic: "rpc s h = Outside \<Longrightarrow> race_holding s h \<Longrightarrow>
     race_step s (s\<lparr>rpc := (rpc s)(h := Panicked)\<rparr>)"
| swap_busy: "rpc s h = Spinning \<Longrightarrow> locked (rlock s) \<Longrightarrow> race_step s s"
| swap_free: "rpc s h = Spinning \<Longrightarrow> \<not> locked (rlock s) \<Longrightarrow>
     race_step s (s\<lparr>rlock := (rlock s)\<lparr>locked := True\<rparr>, rpc := (rpc s)(h := Swapped)\<rparr>)"
| record_cpu: "rpc s h = Swapped \<Longrightarrow>
     race_step s (s\<lparr>rlock := (rlock s)\<lparr>lk_cpu := Some h\<rparr>, rpc := (rpc s)(h := Inside)\<rparr>)"
| release_check: "rpc s h = Inside \<Longrightarrow> race_holding s h \<Longrightarrow>
     race_step s (s\<lparr>rlock := (rlock s)\<lparr>lk_cpu := None\<rparr>, rpc := (rpc s)(h := Leaving)\<rparr>)"
| release_panic: "rpc s h = Inside \<Longrightarrow> \<not> race_holding s h \<Longrightarrow>
     race_step s (s\<lparr>rpc := (rpc s)(h := Panicked)\<rparr>)"
| clear: "rpc s h = Leaving \<Longrightarrow>
     race_step s (s\<lparr>rlock := (rlock s)\<lparr>locked := False\<rparr>, rpc := (rpc s)(h := Outside)\<rparr>)"

inductive_cases race_stepE: "race_step s t"

definition race_init :: "string \<Rightarrow> race" where
  "race_init name = \<lparr>rlock = \<lparr>locked = False, lk_name = name, lk_cpu = None\<rparr>, rpc = (\<lambda>_. Outside)\<rparr>"

inductive race_reach :: "string \<Rightarrow> race \<Rightarrow> bool" for name where
  race_start: "race_reach name (race_init name)"
| race_next: "race_reach name s \<Longrightarrow> race_step s t \<Longrightarrow> race_reach name t"

definition owns :: "lock_pc \<Rightarrow> bool" where
  "owns pc \<longleftrightarrow> pc = Swapped \<or> pc = Inside \<or> pc = Leaving"

text \<open>
  The lock word is set exactly while some hart owns the lock, there is one
  owner, \<^verbatim>\<open>lk->cpu\<close> names a hart exactly while that hart is inside, and no check
  has failed.
\<close>

definition race_inv :: "nat option \<Rightarrow> race \<Rightarrow> bool" where
  "race_inv w s \<longleftrightarrow>
     (locked (rlock s) \<longleftrightarrow> w \<noteq> None) \<and>
     (\<forall>h. owns (rpc s h) \<longleftrightarrow> w = Some h) \<and>
     (\<forall>h. lk_cpu (rlock s) = Some h \<longleftrightarrow> rpc s h = Inside) \<and>
     (\<forall>h. rpc s h \<noteq> Panicked)"

lemma owns_simps [simp]:
  "\<not> owns Outside" "\<not> owns Spinning" "owns Swapped" "owns Inside" "owns Leaving" "\<not> owns Panicked"
  by (simp_all add: owns_def)

lemma race_inv_init: "race_inv None (race_init name)"
  by (simp add: race_inv_def race_init_def)

lemma race_inv_step: "race_step s t \<Longrightarrow> race_inv w s \<Longrightarrow> \<exists>w'. race_inv w' t"
proof (induction rule: race_step.induct)
  case (acquire_check s h)
  then have "race_inv w (s\<lparr>rpc := (rpc s)(h := Spinning)\<rparr>)"
    by (simp add: race_inv_def) (metis owns_simps(1))
  then show ?case ..
next
  case (acquire_panic s h)
  then have "rpc s h = Inside" by (metis race_inv_def race_holding_def)
  with acquire_panic show ?case by simp
next
  case (swap_busy s h)
  then show ?case by blast
next
  case (swap_free s h)
  then have "race_inv (Some h) (s\<lparr>rlock := (rlock s)\<lparr>locked := True\<rparr>, rpc := (rpc s)(h := Swapped)\<rparr>)"
    by (auto simp: race_inv_def)
  then show ?case ..
next
  case (record_cpu s h)
  then have w: "w = Some h" by (metis owns_simps(3) race_inv_def)
  with record_cpu have "race_inv (Some h) (s\<lparr>rlock := (rlock s)\<lparr>lk_cpu := Some h\<rparr>, rpc := (rpc s)(h := Inside)\<rparr>)"
    by (auto simp: race_inv_def)
  then show ?case ..
next
  case (release_check s h)
  then have "race_inv (Some h) (s\<lparr>rlock := (rlock s)\<lparr>lk_cpu := None\<rparr>, rpc := (rpc s)(h := Leaving)\<rparr>)"
    by (auto simp: race_inv_def race_holding_def)
  then show ?case ..
next
  case (release_panic s h)
  then show ?case by (metis owns_simps(4) option.distinct(1) race_holding_def race_inv_def)
next
  case (clear s h)
  then have w: "w = Some h" by (metis owns_simps(5) race_inv_def)
  with clear have "race_inv None (s\<lparr>rlock := (rlock s)\<lparr>locked := False\<rparr>, rpc := (rpc s)(h := Outside)\<rparr>)"
    by (auto simp: race_inv_def)
  then show ?case ..
qed

lemma race_reach_inv: "race_reach name s \<Longrightarrow> \<exists>w. race_inv w s"
  by (induction rule: race_reach.induct) (auto intro: race_inv_init dest: race_inv_step)



end
