(* ===== verification/Sched.thy ===== *)
theory Sched
  imports Spinlock
begin

text \<open>
  The scheduling part of \<^verbatim>\<open>kernel/proc.c\<close>: \<open>sched\<close>, \<open>yield\<close>, \<open>sleep\<close>, \<open>wakeup\<close>,
  \<open>kill\<close>, \<open>setkilled\<close>, \<open>killed\<close> and \<open>scheduler\<close>.  \<^verbatim>\<open>swtch\<close> hands the hart to another
  kernel thread; what the machine does until the thread is switched to again
  is the next entry of the interference list.  The last part is the race
  between a sleeping process and the one that wakes it, one access per step.
\<close>

section \<open>The code\<close>

definition swtch :: "('m mach_scheme, unit) kern" where
  "swtch = interfere"

text \<open>\<open>myproc()\<close> where the code dereferences the result.\<close>

definition curproc :: "('m mach_scheme, nat) kern" where
  "curproc = bind myproc (\<lambda>p. case p of None \<Rightarrow> panic ''null pointer'' | Some p \<Rightarrow> ret p)"

definition sched :: "('m mach_scheme, unit) kern" where
  "sched =
     bind curproc (\<lambda>p.
     bind (gets (holding (L_proc p))) (\<lambda>h. if \<not> h then panic ''sched p->lock'' else
     bind (gets mycpu) (\<lambda>c. if noff c \<noteq> 1 then panic ''sched locks'' else
     bind (gets (\<lambda>s. pstate (procs s p))) (\<lambda>st. if st = RUNNING then panic ''sched running'' else
     bind (gets intr_get) (\<lambda>i. if i then panic ''sched interruptible'' else
     bind (gets (\<lambda>s. intena (mycpu s))) (\<lambda>ie.
     seq swtch (
     modify (set_mycpu (\<lambda>c. c\<lparr>intena := ie\<rparr>)))))))))"

definition yield :: "('m mach_scheme, unit) kern" where
  "yield =
     bind curproc (\<lambda>p.
     seq (acquire (L_proc p)) (
     seq (modify (set_proc p (\<lambda>q. q\<lparr>pstate := RUNNABLE\<rparr>))) (
     seq sched (
     release (L_proc p)))))"

definition sleep :: "chan \<Rightarrow> lockid \<Rightarrow> ('m mach_scheme, unit) kern" where
  "sleep ch lk =
     bind curproc (\<lambda>p.
     seq (acquire (L_proc p)) (
     seq (release lk) (
     seq (modify (set_proc p (\<lambda>q. q\<lparr>chan := ch\<rparr>))) (
     seq (modify (set_proc p (\<lambda>q. q\<lparr>pstate := SLEEPING\<rparr>))) (
     seq sched (
     seq (modify (set_proc p (\<lambda>q. q\<lparr>chan := Ch_null\<rparr>))) (
     seq (release (L_proc p)) (
     acquire lk))))))))"

definition wakeup_one :: "chan \<Rightarrow> nat \<Rightarrow> ('m mach_scheme, unit) kern" where
  "wakeup_one ch p =
     bind myproc (\<lambda>me.
     whenM (Some p \<noteq> me) (
       seq (acquire (L_proc p)) (
       bind (gets (\<lambda>s. procs s p)) (\<lambda>q.
       seq (whenM (pstate q = SLEEPING \<and> chan q = ch) (modify (set_proc p (\<lambda>q. q\<lparr>pstate := RUNNABLE\<rparr>)))) (
       release (L_proc p))))))"

definition wakeup :: "chan \<Rightarrow> ('m mach_scheme, unit) kern" where
  "wakeup ch = for_each [0..<NPROC] (wakeup_one ch)"

definition kill_one :: "int \<Rightarrow> nat \<Rightarrow> ('m mach_scheme, int option) kern" where
  "kill_one n p =
     seq (acquire (L_proc p)) (
     bind (gets (\<lambda>s. procs s p)) (\<lambda>q.
     if pid q = n then
       seq (modify (set_proc p (\<lambda>q. q\<lparr>pkilled := True\<rparr>))) (
       seq (whenM (pstate q = SLEEPING) (modify (set_proc p (\<lambda>q. q\<lparr>pstate := RUNNABLE\<rparr>)))) (
       seq (release (L_proc p)) (
       ret (Some 0))))
     else seq (release (L_proc p)) (ret None)))"

definition kill :: "int \<Rightarrow> ('m mach_scheme, int) kern" where
  "kill n = bind (for_ret [0..<NPROC] (kill_one n)) (\<lambda>r. ret (case r of Some v \<Rightarrow> v | None \<Rightarrow> -1))"

definition setkilled :: "nat \<Rightarrow> ('m mach_scheme, unit) kern" where
  "setkilled p =
     seq (acquire (L_proc p)) (
     seq (modify (set_proc p (\<lambda>q. q\<lparr>pkilled := True\<rparr>))) (
     release (L_proc p)))"

definition killed :: "nat \<Rightarrow> ('m mach_scheme, bool) kern" where
  "killed p =
     seq (acquire (L_proc p)) (
     bind (gets (\<lambda>s. pkilled (procs s p))) (\<lambda>k.
     seq (release (L_proc p)) (
     ret k)))"

definition run_proc :: "nat \<Rightarrow> ('m mach_scheme, unit) kern" where
  "run_proc p =
     seq (acquire (L_proc p)) (
     bind (gets (\<lambda>s. pstate (procs s p))) (\<lambda>st.
     seq (whenM (st = RUNNABLE) (
       seq (modify (set_proc p (\<lambda>q. q\<lparr>pstate := RUNNING\<rparr>))) (
       seq (modify (set_mycpu (\<lambda>c. c\<lparr>cpu_proc := Some p\<rparr>))) (
       seq swtch (
       modify (set_mycpu (\<lambda>c. c\<lparr>cpu_proc := None\<rparr>))))))) (
     release (L_proc p))))"

definition scheduler :: "('m mach_scheme, unit) kern" where
  "scheduler =
     seq (modify (set_mycpu (\<lambda>c. c\<lparr>cpu_proc := None\<rparr>))) (
     whileM (\<lambda>_ _. True) (\<lambda>_. seq intr_on (for_each [0..<NPROC] run_proc)) ())"

section \<open>One run of each function\<close>

lemma curproc_run [simp]:
  "cpu_ok s \<Longrightarrow> cpu_proc (mycpu s) = Some p \<Longrightarrow> curproc s e = Ok p (touched s) e"
  by (simp add: curproc_def myproc_run)

definition proc_locks_free :: "'m mach_scheme \<Rightarrow> bool" where
  "proc_locks_free s \<longleftrightarrow> (\<forall>p < NPROC. lock_free (L_proc p) s)"

lemma proc_locks_freeD [simp]: "proc_locks_free s \<Longrightarrow> p < NPROC \<Longrightarrow> lock_free (L_proc p) s"
  by (simp add: proc_locks_free_def)

lemma proc_locks_free_simps [simp]:
  "proc_locks_free (touched s) = proc_locks_free s"
  "proc_locks_free (set_proc q f s) = proc_locks_free s"
  "proc_locks_free (procs_update fp5 s) = proc_locks_free s"
  "proc_locks_free (sleeplocks_update fs10 s) = proc_locks_free s"
  by (auto simp: proc_locks_free_def)

lemma proc_locks_free_acquired [simp]:
  "\<forall>p. lk \<noteq> L_proc p \<Longrightarrow> proc_locks_free (acquired lk s) = proc_locks_free s"
  using lock_free_acquired by (metis proc_locks_free_def)

text \<open>\<open>woken ch me\<close>: what \<^verbatim>\<open>wakeup(ch)\<close> does to the process table, run by the process \<open>me\<close>.\<close>

definition woken_proc :: "chan \<Rightarrow> proc \<Rightarrow> proc" where
  "woken_proc ch q = (if pstate q = SLEEPING \<and> chan q = ch then q\<lparr>pstate := RUNNABLE\<rparr> else q)"

definition woken :: "chan \<Rightarrow> nat option \<Rightarrow> (nat \<Rightarrow> proc) \<Rightarrow> nat \<Rightarrow> proc" where
  "woken ch me ps = (\<lambda>p. if p < NPROC \<and> Some p \<noteq> me then woken_proc ch (ps p) else ps p)"

lemma procs_set_proc: "procs_update (\<lambda>_. (procs s)(p := f (procs s p))) s = set_proc p f s"
  by (simp add: set_proc_def)

lemma set_proc_same: "f (procs s p) = procs s p \<Longrightarrow> set_proc p f s = s"
  by (simp add: set_proc_def fun_upd_idem)

lemma wakeup_one_run:
  assumes "cpu_ok s" "lock_free (L_proc p) s"
  shows "wakeup_one ch p s e =
    Ok () (touched (if Some p = cpu_proc (mycpu s) then s else set_proc p (woken_proc ch) s)) e"
  using assms
  by (auto simp: wakeup_one_def myproc_run whenM_def acquire_run woken_proc_def set_proc_def fun_upd_idem)

lemma fold_wakeup_state:
  "fold (\<lambda>p s. touched (if Some p = cpu_proc (mycpu s) then s else set_proc p (woken_proc ch) s)) [0..<n] s =
   (if n = 0 then s else
     touched (s\<lparr>procs := (\<lambda>p. if p < n \<and> Some p \<noteq> cpu_proc (mycpu s) then woken_proc ch (procs s p) else procs s p)\<rparr>))"
proof (induction n)
  case (Suc n)
  show ?case
    by (simp add: Suc) (auto simp: set_proc_def less_Suc_eq intro!: arg_cong [where f = touched] mach.equality)
qed simp

lemma wakeup_run:
  assumes "cpu_ok s" "proc_locks_free s"
  shows "wakeup ch s e = Ok () (touched (s\<lparr>procs := woken ch (cpu_proc (mycpu s)) (procs s)\<rparr>)) e"
proof -
  have "wakeup ch s e = Ok () (fold (\<lambda>p s. touched (if Some p = cpu_proc (mycpu s) then s
      else set_proc p (woken_proc ch) s)) [0..<NPROC] s) e"
    unfolding wakeup_def
    by (rule for_each_run [where P = "\<lambda>s. cpu_ok s \<and> proc_locks_free s", THEN conjunct1])
       (use assms in \<open>auto simp: wakeup_one_run\<close>)
  then show ?thesis
    by (simp only: fold_wakeup_state) (simp add: NPROC_def woken_def)
qed

text \<open>
  \<open>asleep\<close>: the state in which \<^verbatim>\<open>sleep\<close> calls \<^verbatim>\<open>swtch\<close>.  \<open>resumed\<close>: what the rest of the
  machine owes the process when it is switched to again: it runs on some hart
  as the current process, with its own lock, and only that one, taken by the
  scheduler, and with the interrupt state its thread had.
\<close>

definition asleep :: "chan \<Rightarrow> nat \<Rightarrow> 'm mach_scheme \<Rightarrow> 'm mach_scheme" where
  "asleep ch p s = set_proc p (\<lambda>q. q\<lparr>chan := ch, pstate := SLEEPING\<rparr>) s"

definition resumed :: "nat \<Rightarrow> bool \<Rightarrow> 'm mach_scheme \<Rightarrow> bool" where
  "resumed p i s \<longleftrightarrow> cpu_ok s \<and> noff (mycpu s) = 0 \<and> lock_free (L_proc p) s \<and>
     cpu_proc (mycpu s) = Some p \<and> intr_get s = i"

lemma intena_acquired: "noff (mycpu s) = 0 \<Longrightarrow> intena (mycpu (acquired lk s)) = intr_get s"
  by (simp add: acquired_def pushed_def mach_upd_defs)

lemma set_mycpu_same: "f (mycpu s) = mycpu s \<Longrightarrow> set_mycpu f s = s"
  by (simp add: mach_upd_defs fun_upd_idem)

lemma cpu_intena_same: "intena c = i \<Longrightarrow> c\<lparr>intena := i\<rparr> = c"
  by (cases c) simp

lemma set_intena_acquired:
  "noff (mycpu s) = 0 \<Longrightarrow> set_mycpu (\<lambda>c. c\<lparr>intena := intr_get s\<rparr>) (acquired lk s) = acquired lk s"
  by (rule set_mycpu_same, drule intena_acquired [of s lk]) (simp add: cpu_intena_same)

lemma sched_blocks:
  assumes "cpu_ok s" "noff (mycpu s) = 0" "lock_free (L_proc p) s" "cpu_proc (mycpu s) = Some p"
    and "pstate (procs s p) \<noteq> RUNNING"
  shows "sched (acquired (L_proc p) s) [] = Blocked (acquired (L_proc p) s)"
  using assms by (simp add: sched_def swtch_def)

lemma sched_run:
  assumes "cpu_ok s" "noff (mycpu s) = 0" "lock_free (L_proc p) s" "cpu_proc (mycpu s) = Some p"
    and "pstate (procs s p) \<noteq> RUNNING"
    and "f (acquired (L_proc p) s) = acquired (L_proc p) s'" "resumed p (intr_get s) s'"
  shows "sched (acquired (L_proc p) s) (f # e) = Ok () (acquired (L_proc p) s') e"
proof -
  have "set_mycpu (\<lambda>c. c\<lparr>intena := intr_get s\<rparr>) (acquired (L_proc p) s') = acquired (L_proc p) s'"
    using assms(7) set_intena_acquired [of s' "L_proc p"] by (simp add: resumed_def)
  then show ?thesis
    using assms by (simp add: sched_def swtch_def intena_acquired)
qed

lemma asleep_simps [simp]:
  "cpu_ok (asleep ch p s) = cpu_ok s"
  "mycpu (asleep ch p s) = mycpu s"
  "lock_free lk (asleep ch p s) = lock_free lk s"
  "intr_get (asleep ch p s) = intr_get s"
  "pstate (procs (asleep ch p s) p) = SLEEPING"
  "chan (procs (asleep ch p s) p) = ch"
  by (simp_all add: asleep_def intr_get_def)

lemma sleep_to_sched:
  assumes "cpu_ok s" "cpu_proc (mycpu s) = Some p" "lock_free (L_proc p) s" "lock_free lk s" "lk \<noteq> L_proc p"
  shows "sleep ch lk (acquired lk s) e =
    seq sched (
     seq (modify (set_proc p (\<lambda>q. q\<lparr>chan := Ch_null\<rparr>))) (
     seq (release (L_proc p)) (
     acquire lk))) (acquired (L_proc p) (asleep ch p s)) e"
proof -
  have "acquire (L_proc p) (acquired lk s) e = Ok () (acquired (L_proc p) (acquired lk s)) e"
    using assms by (intro acquire_run) simp
  then show ?thesis
    using assms by (simp add: sleep_def) (simp add: asleep_def set_proc_def)
qed

lemma sleep_blocks:
  assumes "cpu_ok s" "noff (mycpu s) = 0" "cpu_proc (mycpu s) = Some p"
    "lock_free (L_proc p) s" "lock_free lk s" "lk \<noteq> L_proc p"
  shows "sleep ch lk (acquired lk s) [] = Blocked (acquired (L_proc p) (asleep ch p s))"
  using assms sched_blocks [of "asleep ch p s" p] by (simp add: sleep_to_sched)

lemma sleep_run:
  assumes "cpu_ok s" "noff (mycpu s) = 0" "cpu_proc (mycpu s) = Some p"
    "lock_free (L_proc p) s" "lock_free lk s" "lk \<noteq> L_proc p"
    and "f (acquired (L_proc p) (asleep ch p s)) = acquired (L_proc p) s'"
    and "resumed p (intr_get s) s'" "lock_free lk s'"
  shows "sleep ch lk (acquired lk s) (f # e) =
    Ok () (acquired lk (set_proc p (\<lambda>q. q\<lparr>chan := Ch_null\<rparr>) s')) e"
proof -
  have "sched (acquired (L_proc p) (asleep ch p s)) (f # e) = Ok () (acquired (L_proc p) s') e"
    using assms by (intro sched_run) simp_all
  then show ?thesis
    using assms by (simp add: sleep_to_sched resumed_def acquire_run)
qed

lemma killed_run [simp]:
  "cpu_ok s \<Longrightarrow> lock_free (L_proc p) s \<Longrightarrow> killed p s e = Ok (pkilled (procs s p)) (touched s) e"
  by (simp add: killed_def acquire_run)

lemma setkilled_run [simp]:
  "cpu_ok s \<Longrightarrow> lock_free (L_proc p) s \<Longrightarrow>
   setkilled p s e = Ok () (touched (set_proc p (\<lambda>q. q\<lparr>pkilled := True\<rparr>) s)) e"
  by (simp add: setkilled_def acquire_run)

text \<open>\<open>run_proc\<close> passes over a process that is not \<^verbatim>\<open>RUNNABLE\<close> and switches to one that is.\<close>

definition idle :: "'m mach_scheme \<Rightarrow> 'm mach_scheme" where
  "idle s = (let t = set_mycpu (\<lambda>c. c\<lparr>cpu_proc := None\<rparr>) s in
     t\<lparr>sstatus := (sstatus t)(hart t := sstatus t (hart t) OR SSTATUS_SIE)\<rparr>)"

lemma idle_simps [simp]:
  "procs (idle s) = procs s"
  "hart (idle s) = hart s"
  "noff (mycpu (idle s)) = noff (mycpu s)"
  "lock_free lk (idle s) = lock_free lk s"
  "noff (mycpu s) = 0 \<Longrightarrow> cpu_ok (idle s)"
  by (simp_all add: idle_def Let_def mach_upd_defs lock_free_def cpu_ok_def intr_get_def)

lemma run_proc_skip:
  assumes "cpu_ok s" "lock_free (L_proc p) s" "pstate (procs s p) \<noteq> RUNNABLE"
  shows "run_proc p s e = Ok () (touched s) e"
  using assms by (simp add: run_proc_def acquire_run)

lemma run_proc_block:
  assumes "cpu_ok s" "lock_free (L_proc p) s" "pstate (procs s p) = RUNNABLE"
  shows "run_proc p s [] = Blocked (set_mycpu (\<lambda>c. c\<lparr>cpu_proc := Some p\<rparr>)
    (acquired (L_proc p) (set_proc p (\<lambda>q. q\<lparr>pstate := RUNNING\<rparr>) s)))"
  using assms by (simp add: run_proc_def acquire_run swtch_def)

lemma scan_skip:
  assumes "cpu_ok s" "\<forall>p \<in> set ps. lock_free (L_proc p) s \<and> pstate (procs s p) \<noteq> RUNNABLE"
  shows "for_each ps run_proc s e = Ok () (if ps = [] then s else touched s) e"
  using assms by (induction ps arbitrary: s) (auto simp: run_proc_skip)

lemma intr_on_idle:
  "intr_on (set_mycpu (\<lambda>c. c\<lparr>cpu_proc := None\<rparr>) s) e = Ok () (idle s) e"
  by (simp add: intr_on_def idle_def Let_def)

lemma for_each_Blocked: "for_each xs f s e = Blocked t \<Longrightarrow> for_each (xs @ ys) f s e = Blocked t"
  by (simp add: for_each_append)

text \<open>
  A hart in \<^verbatim>\<open>scheduler\<close>, with no lock held on entry, gives the CPU to the first
  \<^verbatim>\<open>RUNNABLE\<close> process of the table: it switches away with that process
  \<^verbatim>\<open>RUNNING\<close> and current, holding exactly its lock with interrupts off, the
  state \<^verbatim>\<open>sched\<close> demands of the process on the way back, and no other process changed.
\<close>

theorem scheduler_dispatch:
  assumes "noff (mycpu s) = 0" "proc_locks_free s" "p < NPROC"
    and "pstate (procs s p) = RUNNABLE" "\<forall>q < p. pstate (procs s q) \<noteq> RUNNABLE"
  shows "\<exists>t. scheduler s [] = Blocked t \<and> pstate (procs t p) = RUNNING \<and>
     cpu_proc (mycpu t) = Some p \<and> holding (L_proc p) t \<and> noff (mycpu t) = 1 \<and> \<not> intr_get t \<and>
     (\<forall>q. q \<noteq> p \<longrightarrow> procs t q = procs s q)"
proof -
  let ?i = "if [0..<p] = [] then idle s else touched (idle s)"
  let ?t = "set_mycpu (\<lambda>c. c\<lparr>cpu_proc := Some p\<rparr>)
    (acquired (L_proc p) (set_proc p (\<lambda>q. q\<lparr>pstate := RUNNING\<rparr>) (idle s)))"
  have "for_each [0..<p] run_proc (idle s) [] = Ok () ?i []"
    using assms by (intro scan_skip) auto
  moreover have "run_proc p ?i [] = Blocked ?t"
    using assms run_proc_block [of ?i p] by auto
  ultimately have "for_each [0..<NPROC] run_proc (idle s) [] = Blocked ?t"
    using assms(3) by (simp add: upt_split3 for_each_append)
  then have "scheduler s [] = Blocked ?t"
    by (simp add: scheduler_def) (subst whileM_unfold, simp add: intr_on_idle)
  moreover have "holding (L_proc p) ?t" "\<not> intr_get ?t"
    using sie_off
    by (simp_all add: holding_def intr_get_bit acquired_def pushed_def mach_upd_defs)
  moreover have "noff (mycpu ?t) = 1" "cpu_proc (mycpu ?t) = Some p"
    using assms(1) by (simp_all add: acquired_def pushed_def mach_upd_defs idle_def Let_def)
  moreover have "procs ?t = procs (set_proc p (\<lambda>q. q\<lparr>pstate := RUNNING\<rparr>) s)"
    by (simp add: mach_upd_defs acquired_def pushed_def idle_def Let_def)
  ultimately show ?thesis by auto
qed

text \<open>
  With nothing to run the scheduler keeps looking, and never panics or
  leaves its loop.
\<close>

theorem scheduler_idles:
  assumes "noff (mycpu s) = 0" "proc_locks_free s" "\<forall>p < NPROC. pstate (procs s p) \<noteq> RUNNABLE"
  shows "scheduler s e = Diverges"
proof -
  let ?I = "\<lambda>(_::unit) s e. noff (mycpu s) = 0 \<and> proc_locks_free s \<and> (\<forall>p < NPROC. pstate (procs s p) \<noteq> RUNNABLE)"
  let ?on = "\<lambda>s. s\<lparr>sstatus := (sstatus s)(hart s := sstatus s (hart s) OR SSTATUS_SIE)\<rparr>"
  have "returns (seq intr_on (for_each [0..<NPROC] run_proc)) s e ?I" if "?I () s e" for s e
  proof -
    have "for_each [0..<NPROC] run_proc (?on s) e = Ok () (touched (?on s)) e"
      using that by (subst scan_skip) (auto simp: cpu_ok_def NPROC_def)
    then show ?thesis
      using that by (auto simp: intr_on_def returns_def proc_locks_free_def)
  qed
  then have "whileM (\<lambda>_ _. True) (\<lambda>_. seq intr_on (for_each [0..<NPROC] run_proc)) ()
     (set_mycpu (\<lambda>c. c\<lparr>cpu_proc := None\<rparr>) s) e = Diverges"
    by (intro whileM_forever [where I = ?I])
       (use assms in \<open>auto simp: mach_upd_defs proc_locks_free_def lock_free_def\<close>)
  then show ?thesis by (simp add: scheduler_def)
qed

definition killed_proc :: "proc \<Rightarrow> proc" where
  "killed_proc q = (if pstate q = SLEEPING then q\<lparr>pkilled := True, pstate := RUNNABLE\<rparr> else q\<lparr>pkilled := True\<rparr>)"

lemma kill_one_run:
  assumes "cpu_ok s" "lock_free (L_proc p) s"
  shows "kill_one n p s e =
    (if pid (procs s p) = n
     then Ok (Some 0) (touched (set_proc p killed_proc s)) e
     else Ok None (touched s) e)"
  using assms by (simp add: kill_one_def acquire_run whenM_def) (simp add: set_proc_def killed_proc_def)

lemma kill_scan:
  assumes "cpu_ok s" "\<forall>p \<in> set ps. lock_free (L_proc p) s \<and> pid (procs s p) \<noteq> n"
  shows "for_ret ps (kill_one n) s e = Ok None (if ps = [] then s else touched s) e"
  using assms by (induction ps arbitrary: s) (auto simp: kill_one_run)

text \<open>
  \<^verbatim>\<open>kill(n)\<close> marks the first process with that pid as killed and makes it
  \<^verbatim>\<open>RUNNABLE\<close> if it sleeps, changes nothing else and returns 0.
\<close>

theorem kill_found:
  assumes "cpu_ok s" "proc_locks_free s" "p < NPROC" "pid (procs s p) = n" "\<forall>q < p. pid (procs s q) \<noteq> n"
  shows "kill n s e = Ok 0 (touched (set_proc p killed_proc s)) e"
proof -
  have "for_ret [0..<p] (kill_one n) s e = Ok None (if [0..<p] = [] then s else touched s) e"
    using assms by (intro kill_scan) auto
  then have "for_ret [0..<NPROC] (kill_one n) s e =
      for_ret (p # [Suc p..<NPROC]) (kill_one n) (if [0..<p] = [] then s else touched s) e"
    using assms(3) by (simp only: upt_split3 for_ret_append_None)
  then show ?thesis
    using assms kill_one_run [of "touched s" p n e] kill_one_run [of s p n e]
    by (cases "p = 0") (simp_all add: kill_def bind_run)
qed

theorem kill_missing:
  assumes "cpu_ok s" "proc_locks_free s" "\<forall>p < NPROC. pid (procs s p) \<noteq> n"
  shows "kill n s e = Ok (-1) (touched s) e"
  using assms by (simp add: kill_def kill_scan NPROC_def)

section \<open>Sleeping and waking\<close>

text \<open>
  One process that waits for a condition and one that makes it true, as two
  harts run them.  The sleeper has the lock \<^verbatim>\<open>lk\<close>, tests the condition and calls
  \<^verbatim>\<open>sleep(chan, lk)\<close> until it holds; the waker takes \<^verbatim>\<open>lk\<close>, makes the condition
  true, calls \<^verbatim>\<open>wakeup(chan)\<close> and releases \<^verbatim>\<open>lk\<close>, as \<^verbatim>\<open>releasesleep\<close> does.  Every
  rule is one access to a lock or to a field of the sleeper's \<^verbatim>\<open>struct proc\<close>;
  \<open>schedule\<close> is the turn of \<^verbatim>\<open>scheduler\<close> that finds the process runnable, \<open>killer\<close> is
  \<^verbatim>\<open>kill\<close> waking it for another reason.
\<close>

datatype side = Sleeper | Waker

datatype sleeper_pc =
    S_check | S_acquire_p | S_release_lk | S_chan | S_state | S_swtch | S_off
  | S_back | S_release_p | S_acquire_lk | S_done

datatype waker_pc = W_acquire_lk | W_set | W_acquire_p | W_look | W_release_p | W_release_lk | W_done

record nap =
  nap_lk :: "side option"
  nap_plock :: "side option"
  nap_cond :: bool
  nap_state :: procstate
  nap_chan :: bool
  spc :: sleeper_pc
  wpc :: waker_pc

inductive nap_step :: "nap \<Rightarrow> nap \<Rightarrow> bool" where
  check_true: "spc s = S_check \<Longrightarrow> nap_cond s \<Longrightarrow> nap_step s (s\<lparr>spc := S_done\<rparr>)"
| check_false: "spc s = S_check \<Longrightarrow> \<not> nap_cond s \<Longrightarrow> nap_step s (s\<lparr>spc := S_acquire_p\<rparr>)"
| acquire_p: "spc s = S_acquire_p \<Longrightarrow> nap_plock s = None \<Longrightarrow>
    nap_step s (s\<lparr>nap_plock := Some Sleeper, spc := S_release_lk\<rparr>)"
| release_lk: "spc s = S_release_lk \<Longrightarrow> nap_step s (s\<lparr>nap_lk := None, spc := S_chan\<rparr>)"
| set_chan: "spc s = S_chan \<Longrightarrow> nap_step s (s\<lparr>nap_chan := True, spc := S_state\<rparr>)"
| set_state: "spc s = S_state \<Longrightarrow> nap_step s (s\<lparr>nap_state := SLEEPING, spc := S_swtch\<rparr>)"
| switch_off: "spc s = S_swtch \<Longrightarrow> nap_step s (s\<lparr>nap_plock := None, spc := S_off\<rparr>)"
| schedule: "spc s = S_off \<Longrightarrow> nap_plock s = None \<Longrightarrow> nap_state s = RUNNABLE \<Longrightarrow>
    nap_step s (s\<lparr>nap_plock := Some Sleeper, nap_state := RUNNING, spc := S_back\<rparr>)"
| clear_chan: "spc s = S_back \<Longrightarrow> nap_step s (s\<lparr>nap_chan := False, spc := S_release_p\<rparr>)"
| release_p: "spc s = S_release_p \<Longrightarrow> nap_step s (s\<lparr>nap_plock := None, spc := S_acquire_lk\<rparr>)"
| acquire_lk: "spc s = S_acquire_lk \<Longrightarrow> nap_lk s = None \<Longrightarrow>
    nap_step s (s\<lparr>nap_lk := Some Sleeper, spc := S_check\<rparr>)"
| killer: "nap_plock s = None \<Longrightarrow> nap_state s = SLEEPING \<Longrightarrow> nap_step s (s\<lparr>nap_state := RUNNABLE\<rparr>)"
| w_acquire_lk: "wpc s = W_acquire_lk \<Longrightarrow> nap_lk s = None \<Longrightarrow>
    nap_step s (s\<lparr>nap_lk := Some Waker, wpc := W_set\<rparr>)"
| w_set: "wpc s = W_set \<Longrightarrow> nap_step s (s\<lparr>nap_cond := True, wpc := W_acquire_p\<rparr>)"
| w_acquire_p: "wpc s = W_acquire_p \<Longrightarrow> nap_plock s = None \<Longrightarrow>
    nap_step s (s\<lparr>nap_plock := Some Waker, wpc := W_look\<rparr>)"
| w_look: "wpc s = W_look \<Longrightarrow>
    nap_step s (s\<lparr>nap_state := (if nap_state s = SLEEPING \<and> nap_chan s then RUNNABLE else nap_state s),
                  wpc := W_release_p\<rparr>)"
| w_release_p: "wpc s = W_release_p \<Longrightarrow> nap_step s (s\<lparr>nap_plock := None, wpc := W_release_lk\<rparr>)"
| w_release_lk: "wpc s = W_release_lk \<Longrightarrow> nap_step s (s\<lparr>nap_lk := None, wpc := W_done\<rparr>)"

inductive_cases nap_stepE: "nap_step s t"

definition nap_init :: nap where
  "nap_init = \<lparr>nap_lk = Some Sleeper, nap_plock = None, nap_cond = False, nap_state = RUNNING,
     nap_chan = False, spc = S_check, wpc = W_acquire_lk\<rparr>"

inductive nap_reach :: "nap \<Rightarrow> bool" where
  nap_start: "nap_reach nap_init"
| nap_next: "nap_reach s \<Longrightarrow> nap_step s t \<Longrightarrow> nap_reach t"

text \<open>
  Who holds which lock where, and the point of the invariant: once the sleeper
  has given up \<^verbatim>\<open>lk\<close> to sleep, the waker has not yet looked at it.
\<close>

definition s_lk :: "sleeper_pc \<Rightarrow> bool" where
  "s_lk pc \<longleftrightarrow> pc \<in> {S_check, S_acquire_p, S_release_lk, S_done}"

definition s_plock :: "sleeper_pc \<Rightarrow> bool" where
  "s_plock pc \<longleftrightarrow> pc \<in> {S_release_lk, S_chan, S_state, S_swtch, S_back, S_release_p}"

definition w_lk :: "waker_pc \<Rightarrow> bool" where
  "w_lk pc \<longleftrightarrow> pc \<in> {W_set, W_acquire_p, W_look, W_release_p, W_release_lk}"

definition w_plock :: "waker_pc \<Rightarrow> bool" where
  "w_plock pc \<longleftrightarrow> pc \<in> {W_look, W_release_p}"

definition owner :: "bool \<Rightarrow> bool \<Rightarrow> side option" where
  "owner a b = (if a then Some Sleeper else if b then Some Waker else None)"

lemma owner_None [simp]: "owner a b = None \<longleftrightarrow> \<not> a \<and> \<not> b"
  by (simp add: owner_def)

definition nap_inv :: "nap \<Rightarrow> bool" where
  "nap_inv s \<longleftrightarrow>
     nap_lk s = owner (s_lk (spc s)) (w_lk (wpc s)) \<and> \<not> (s_lk (spc s) \<and> w_lk (wpc s)) \<and>
     nap_plock s = owner (s_plock (spc s)) (w_plock (wpc s)) \<and> \<not> (s_plock (spc s) \<and> w_plock (wpc s)) \<and>
     (nap_cond s \<longleftrightarrow> wpc s \<noteq> W_acquire_lk \<and> wpc s \<noteq> W_set) \<and>
     (spc s = S_acquire_p \<or> spc s = S_release_lk \<longrightarrow> \<not> nap_cond s) \<and>
     (spc s = S_state \<or> spc s = S_swtch \<or> spc s = S_off \<longrightarrow> nap_chan s) \<and>
     (spc s = S_swtch \<longrightarrow> nap_state s = SLEEPING) \<and>
     (spc s = S_off \<longrightarrow> nap_state s = SLEEPING \<or> nap_state s = RUNNABLE) \<and>
     (spc s = S_chan \<or> spc s = S_state \<or> spc s = S_swtch \<or> spc s = S_off \<and> nap_state s = SLEEPING \<longrightarrow>
        wpc s = W_acquire_lk \<or> wpc s = W_set \<or> wpc s = W_acquire_p \<or> wpc s = W_look)"

lemmas nap_owner_defs = s_lk_def s_plock_def w_lk_def w_plock_def

lemma nap_inv_init: "nap_inv nap_init"
  by (simp add: nap_inv_def nap_init_def nap_owner_defs owner_def)

lemma nap_inv_step: "nap_step s t \<Longrightarrow> nap_inv s \<Longrightarrow> nap_inv t"
proof (induction rule: nap_step.induct)
  case (check_true s)
  then show ?case by (cases "wpc s") (simp_all add: nap_inv_def nap_owner_defs owner_def)
next
  case (check_false s)
  then show ?case by (cases "wpc s") (simp_all add: nap_inv_def nap_owner_defs owner_def)
next
  case (acquire_p s)
  then show ?case by (cases "wpc s") (simp_all add: nap_inv_def nap_owner_defs owner_def)
next
  case (release_lk s)
  then show ?case by (cases "wpc s") (simp_all add: nap_inv_def nap_owner_defs owner_def)
next
  case (set_chan s)
  then show ?case by (cases "wpc s") (simp_all add: nap_inv_def nap_owner_defs owner_def)
next
  case (set_state s)
  then show ?case by (cases "wpc s") (simp_all add: nap_inv_def nap_owner_defs owner_def)
next
  case (switch_off s)
  then show ?case by (cases "wpc s") (simp_all add: nap_inv_def nap_owner_defs owner_def)
next
  case (schedule s)
  then show ?case by (cases "wpc s") (simp_all add: nap_inv_def nap_owner_defs owner_def)
next
  case (clear_chan s)
  then show ?case by (cases "wpc s") (simp_all add: nap_inv_def nap_owner_defs owner_def)
next
  case (release_p s)
  then show ?case by (cases "wpc s") (simp_all add: nap_inv_def nap_owner_defs owner_def)
next
  case (acquire_lk s)
  then show ?case by (cases "wpc s") (simp_all add: nap_inv_def nap_owner_defs owner_def)
next
  case (killer s)
  then show ?case by (cases "spc s"; cases "wpc s") (simp_all add: nap_inv_def nap_owner_defs owner_def)
next
  case (w_acquire_lk s)
  then show ?case by (cases "spc s") (auto simp: nap_inv_def nap_owner_defs owner_def)
next
  case (w_set s)
  then show ?case by (cases "spc s") (auto simp: nap_inv_def nap_owner_defs owner_def)
next
  case (w_acquire_p s)
  then show ?case by (cases "spc s") (auto simp: nap_inv_def nap_owner_defs owner_def)
next
  case (w_look s)
  then show ?case by (cases "spc s") (auto simp: nap_inv_def nap_owner_defs owner_def)
next
  case (w_release_p s)
  then show ?case by (cases "spc s") (auto simp: nap_inv_def nap_owner_defs owner_def)
next
  case (w_release_lk s)
  then show ?case by (cases "spc s") (auto simp: nap_inv_def nap_owner_defs owner_def)
qed

lemma nap_reach_inv: "nap_reach s \<Longrightarrow> nap_inv s"
  by (induction rule: nap_reach.induct) (auto intro: nap_inv_init nap_inv_step)

text \<open>With the waker done, the sleeper has at most five steps to go and the next one is enabled.\<close>

fun steps_left :: "sleeper_pc \<Rightarrow> nat" where
  "steps_left S_done = 0"
| "steps_left S_check = 1"
| "steps_left S_acquire_lk = 2"
| "steps_left S_release_p = 3"
| "steps_left S_back = 4"
| "steps_left _ = 5"

lemma nap_progress:
  assumes "nap_inv s" "wpc s = W_done" "spc s \<noteq> S_done"
  shows "\<exists>t. nap_step s t \<and> wpc t = W_done \<and> steps_left (spc t) < steps_left (spc s)"
proof (cases "spc s")
  case S_check
  then have "nap_step s (s\<lparr>spc := S_done\<rparr>)"
    using assms by (intro nap_step.check_true) (simp_all add: nap_inv_def nap_owner_defs)
  then show ?thesis by (intro exI conjI) (assumption, simp_all add: S_check assms)
next
  case S_off
  then have "nap_step s (s\<lparr>nap_plock := Some Sleeper, nap_state := RUNNING, spc := S_back\<rparr>)"
    using assms by (intro nap_step.schedule) (auto simp: nap_inv_def nap_owner_defs)
  then show ?thesis by (intro exI conjI) (assumption, simp_all add: S_off assms)
next
  case S_back
  then have "nap_step s (s\<lparr>nap_chan := False, spc := S_release_p\<rparr>)"
    using assms by (intro nap_step.clear_chan) (simp_all add: nap_inv_def nap_owner_defs)
  then show ?thesis by (intro exI conjI) (assumption, simp_all add: S_back assms)
next
  case S_release_p
  then have "nap_step s (s\<lparr>nap_plock := None, spc := S_acquire_lk\<rparr>)"
    using assms by (intro nap_step.release_p) (simp_all add: nap_inv_def nap_owner_defs)
  then show ?thesis by (intro exI conjI) (assumption, simp_all add: S_release_p assms)
next
  case S_acquire_lk
  then have "nap_step s (s\<lparr>nap_lk := Some Sleeper, spc := S_check\<rparr>)"
    using assms by (intro nap_step.acquire_lk) (simp_all add: nap_inv_def nap_owner_defs)
  then show ?thesis by (intro exI conjI) (assumption, simp_all add: S_acquire_lk assms)
qed (use assms in \<open>simp_all add: nap_inv_def\<close>)

lemma nap_finishes:
  assumes "nap_inv s" "wpc s = W_done"
  shows "\<exists>t. nap_step\<^sup>*\<^sup>* s t \<and> spc t = S_done \<and> nap_inv t \<and> wpc t = W_done"
  using assms
proof (induction "steps_left (spc s)" arbitrary: s rule: less_induct)
  case less
  show ?case
  proof (cases "spc s = S_done")
    case True
    then show ?thesis using less.prems by blast
  next
    case False
    then obtain t where t: "nap_step s t" "wpc t = W_done" "steps_left (spc t) < steps_left (spc s)"
      using nap_progress less.prems by blast
    then obtain u where "nap_step\<^sup>*\<^sup>* t u" "spc u = S_done" "nap_inv u" "wpc u = W_done"
      using less.hyps nap_inv_step less.prems by blast
    then show ?thesis using t(1) by (meson converse_rtranclp_into_rtranclp)
  qed
qed

text \<open>
  C14: no wakeup is lost.  In every interleaving, once the waker has returned from
  \<^verbatim>\<open>wakeup\<close> the process is not left \<^verbatim>\<open>SLEEPING\<close>: if it is switched off it is
  \<^verbatim>\<open>RUNNABLE\<close>, and it can run to the end of its loop, where it holds \<^verbatim>\<open>lk\<close> and the
  condition is true.
\<close>

theorem no_lost_wakeup:
  assumes "nap_reach s" "wpc s = W_done"
  shows "(spc s = S_off \<longrightarrow> nap_state s = RUNNABLE) \<and>
    (\<exists>t. nap_step\<^sup>*\<^sup>* s t \<and> spc t = S_done \<and> nap_lk t = Some Sleeper \<and> nap_cond t)"
proof -
  have inv: "nap_inv s" using nap_reach_inv assms(1) .
  then obtain t where "nap_step\<^sup>*\<^sup>* s t" "spc t = S_done" "nap_inv t" "wpc t = W_done"
    using nap_finishes assms(2) by blast
  moreover then have "nap_lk t = Some Sleeper" "nap_cond t"
    by (simp_all add: nap_inv_def nap_owner_defs owner_def)
  moreover have "nap_state s = RUNNABLE" if "spc s = S_off"
    using inv that assms(2) by (simp add: nap_inv_def) blast
  ultimately show ?thesis by blast
qed

text \<open>The run in which the process is asleep before the waker takes the lock.\<close>

definition nap_asleep :: nap where
  "nap_asleep = \<lparr>nap_lk = None, nap_plock = None, nap_cond = False, nap_state = SLEEPING,
     nap_chan = True, spc = S_off, wpc = W_acquire_lk\<rparr>"

lemma nap_asleep_reach: "nap_reach nap_asleep"
proof -
  have "nap_step\<^sup>*\<^sup>* nap_init nap_asleep"
    unfolding nap_init_def nap_asleep_def
    by (rule converse_rtranclp_into_rtranclp, rule nap_step.check_false, simp, simp, simp,
        rule converse_rtranclp_into_rtranclp, rule nap_step.acquire_p, simp, simp, simp,
        rule converse_rtranclp_into_rtranclp, rule nap_step.release_lk, simp, simp,
        rule converse_rtranclp_into_rtranclp, rule nap_step.set_chan, simp, simp,
        rule converse_rtranclp_into_rtranclp, rule nap_step.set_state, simp, simp,
        rule converse_rtranclp_into_rtranclp, rule nap_step.switch_off, simp, simp)
  then show ?thesis
    by (induction rule: rtranclp_induct) (auto intro: nap_reach.intros)
qed

theorem no_lost_wakeup_witness:
  "\<exists>s. nap_reach s \<and> wpc s = W_done \<and> spc s = S_off \<and> nap_state s = RUNNABLE"
proof -
  let ?s = "nap_asleep\<lparr>nap_lk := Some Waker, nap_cond := True, nap_plock := Some Waker, nap_state := RUNNABLE,
    nap_plock := None, nap_lk := None, wpc := W_done\<rparr>"
  have "nap_step\<^sup>*\<^sup>* nap_asleep ?s"
    unfolding nap_asleep_def
    by (rule converse_rtranclp_into_rtranclp, rule nap_step.w_acquire_lk, simp, simp, simp,
        rule converse_rtranclp_into_rtranclp, rule nap_step.w_set, simp, simp,
        rule converse_rtranclp_into_rtranclp, rule nap_step.w_acquire_p, simp, simp, simp,
        rule converse_rtranclp_into_rtranclp, rule nap_step.w_look, simp, simp,
        rule converse_rtranclp_into_rtranclp, rule nap_step.w_release_p, simp, simp,
        rule converse_rtranclp_into_rtranclp, rule nap_step.w_release_lk, simp, simp)
  then have reach: "nap_reach ?s"
    by (induction rule: rtranclp_induct) (auto intro: nap_reach.intros nap_asleep_reach)
  then show ?thesis
    using no_lost_wakeup [of ?s] by (intro exI [of _ ?s]) (simp add: nap_asleep_def)
qed

end
