(* ===== verification/Sleeplock.thy ===== *)
theory Sleeplock
  imports Sched
begin

text \<open>
  Sleep locks: \<^verbatim>\<open>kernel/sleeplock.c\<close>.  A sleep lock is protected by its own spin
  lock \<^verbatim>\<open>lk->lk\<close>, which is free whenever no hart is inside one of these functions.
\<close>

definition initsleeplock :: "sleeplock_id \<Rightarrow> string \<Rightarrow> ('m mach_scheme, unit) kern" where
  "initsleeplock l name =
     seq (initlock (L_sleep l) ''sleep lock'') (
     seq (modify (set_sleeplock l (\<lambda>k. k\<lparr>sl_name := name\<rparr>))) (
     seq (modify (set_sleeplock l (\<lambda>k. k\<lparr>sl_locked := False\<rparr>))) (
     modify (set_sleeplock l (\<lambda>k. k\<lparr>sl_pid := 0\<rparr>)))))"

definition acquiresleep :: "sleeplock_id \<Rightarrow> ('m mach_scheme, unit) kern" where
  "acquiresleep l =
     seq (acquire (L_sleep l)) (
     bind (whileM (\<lambda>_ s. sl_locked (sleeplocks s l)) (\<lambda>_. sleep (Ch_sleep l) (L_sleep l)) ()) (\<lambda>_.
     seq (modify (set_sleeplock l (\<lambda>k. k\<lparr>sl_locked := True\<rparr>))) (
     bind curproc (\<lambda>p.
     bind (gets (\<lambda>s. pid (procs s p))) (\<lambda>n.
     seq (modify (set_sleeplock l (\<lambda>k. k\<lparr>sl_pid := n\<rparr>))) (
     release (L_sleep l)))))))"

definition releasesleep :: "sleeplock_id \<Rightarrow> ('m mach_scheme, unit) kern" where
  "releasesleep l =
     seq (acquire (L_sleep l)) (
     seq (modify (set_sleeplock l (\<lambda>k. k\<lparr>sl_locked := False\<rparr>))) (
     seq (modify (set_sleeplock l (\<lambda>k. k\<lparr>sl_pid := 0\<rparr>))) (
     seq (wakeup (Ch_sleep l)) (
     release (L_sleep l)))))"

text \<open>\<^verbatim>\<open>lk->locked && (lk->pid == myproc()->pid)\<close>: the second operand runs only if the first holds.\<close>

definition holdingsleep :: "sleeplock_id \<Rightarrow> ('m mach_scheme, bool) kern" where
  "holdingsleep l =
     seq (acquire (L_sleep l)) (
     bind (gets (\<lambda>s. sleeplocks s l)) (\<lambda>k.
     bind (if sl_locked k
           then bind curproc (\<lambda>p. gets (\<lambda>s. sl_pid k = pid (procs s p)))
           else ret False) (\<lambda>r.
     seq (release (L_sleep l)) (
     ret r))))"

section \<open>What the functions do\<close>

text \<open>\<open>running p s\<close>: the state of a process in the kernel that holds no spin lock.\<close>

definition running :: "nat \<Rightarrow> 'm mach_scheme \<Rightarrow> bool" where
  "running p s \<longleftrightarrow> cpu_ok s \<and> noff (mycpu s) = 0 \<and> cpu_proc (mycpu s) = Some p \<and> p < NPROC \<and> proc_locks_free s"

lemma runningD:
  "running p s \<Longrightarrow> cpu_ok s"
  "running p s \<Longrightarrow> noff (mycpu s) = 0"
  "running p s \<Longrightarrow> cpu_proc (mycpu s) = Some p"
  "running p s \<Longrightarrow> lock_free (L_proc p) s"
  "running p s \<Longrightarrow> proc_locks_free s"
  by (simp_all add: running_def)

lemma running_simps [simp]:
  "running p (touched s) = running p s"
  "running p (procs_update fp5 s) = running p s"
  "running p (sleeplocks_update fs10 s) = running p s"
  "running p (set_proc q f s) = running p s"
  "running p (set_sleeplock l g s) = running p s"
  by (simp_all add: running_def set_sleeplock_def)

definition sl_taken :: "sleeplock_id \<Rightarrow> int \<Rightarrow> 'm mach_scheme \<Rightarrow> 'm mach_scheme" where
  "sl_taken l n = set_sleeplock l (\<lambda>k. k\<lparr>sl_locked := True, sl_pid := n\<rparr>)"

definition sl_freed :: "sleeplock_id \<Rightarrow> 'm mach_scheme \<Rightarrow> 'm mach_scheme" where
  "sl_freed l s = (set_sleeplock l (\<lambda>k. k\<lparr>sl_locked := False, sl_pid := 0\<rparr>) s)
     \<lparr>procs := woken (Ch_sleep l) (cpu_proc (mycpu s)) (procs s)\<rparr>"

lemma acquiresleep_free:
  assumes "cpu_ok s" "lock_free (L_sleep l) s" "cpu_proc (mycpu s) = Some p"
    and "\<not> sl_locked (sleeplocks s l)"
  shows "acquiresleep l s e = Ok () (touched (sl_taken l (pid (procs s p)) s)) e"
proof -
  have mc: "mycpu (set_sleeplock l f s) = mycpu s" for f
    by (simp add: mach_upd_defs)
  show ?thesis
    using assms
    by (simp add: acquiresleep_def acquire_run whileM_stop mc)
       (simp add: sl_taken_def set_sleeplock_def)
qed

lemma acquiresleep_held_blocks:
  assumes "running p s" "lock_free (L_sleep l) s" "sl_locked (sleeplocks s l)"
  shows "acquiresleep l s [] = Blocked (acquired (L_proc p) (asleep (Ch_sleep l) p s))"
proof -
  have "sleep (Ch_sleep l) (L_sleep l) (acquired (L_sleep l) s) [] =
      Blocked (acquired (L_proc p) (asleep (Ch_sleep l) p s))"
    using assms by (intro sleep_blocks) (simp_all add: running_def)
  then show ?thesis
    using assms by (simp add: acquiresleep_def acquire_run) (subst bind_run, subst whileM_unfold, simp)
qed

lemma acquiresleep_held_resumes:
  assumes "running p s" "lock_free (L_sleep l) s" "sl_locked (sleeplocks s l)"
    and "f (acquired (L_proc p) (asleep (Ch_sleep l) p s)) = acquired (L_proc p) s'"
    and "resumed p (intr_get s) s'" "lock_free (L_sleep l) s'" "\<not> sl_locked (sleeplocks s' l)"
  shows "acquiresleep l s (f # e) =
    Ok () (touched (sl_taken l (pid (procs s' p)) (set_proc p (\<lambda>q. q\<lparr>chan := Ch_null\<rparr>) s'))) e"
proof -
  let ?t = "set_proc p (\<lambda>q. q\<lparr>chan := Ch_null\<rparr>) s'"
  have "sleep (Ch_sleep l) (L_sleep l) (acquired (L_sleep l) s) (f # e) =
      Ok () (acquired (L_sleep l) ?t) e"
    using assms by (intro sleep_run) (simp_all add: running_def)
  then have "whileM (\<lambda>_ s. sl_locked (sleeplocks s l)) (\<lambda>_. sleep (Ch_sleep l) (L_sleep l)) ()
       (acquired (L_sleep l) s) (f # e) =
     whileM (\<lambda>_ s. sl_locked (sleeplocks s l)) (\<lambda>_. sleep (Ch_sleep l) (L_sleep l)) ()
       (acquired (L_sleep l) ?t) e"
    using assms by (intro whileM_step) simp_all
  then have "acquiresleep l s (f # e) = acquiresleep l ?t e"
    using assms by (simp add: acquiresleep_def acquire_run bind_run)
  also have "\<dots> = Ok () (touched (sl_taken l (pid (procs s' p)) ?t)) e"
    using assms by (subst acquiresleep_free [where p = p]) (simp_all add: resumed_def)
  finally show ?thesis .
qed

lemma releasesleep_run:
  assumes "cpu_ok s" "lock_free (L_sleep l) s" "proc_locks_free s"
  shows "releasesleep l s e = Ok () (touched (sl_freed l s)) e"
  using assms
  by (simp add: releasesleep_def acquire_run wakeup_run sl_freed_def set_sleeplock_def)

lemma holdingsleep_run:
  assumes "cpu_ok s" "lock_free (L_sleep l) s" "cpu_proc (mycpu s) = Some p"
  shows "holdingsleep l s e =
    Ok (sl_locked (sleeplocks s l) \<and> sl_pid (sleeplocks s l) = pid (procs s p)) (touched s) e"
  using assms by (simp add: holdingsleep_def acquire_run)

end
