(* ===== verification/Kstring.thy ===== *)
theory Kstring
  imports Prelude
begin

text \<open>
  The byte and string routines: \<^verbatim>\<open>kernel/string.c\<close>, and the ones of
  \<^verbatim>\<open>user/ulib.c\<close> that differ.  Memory is a function from 64-bit addresses to
  bytes and pointers are addresses, so pointer arithmetic wraps as the
  machine's does.  A loop with a counter is recursion on the counter; a loop
  that runs until it meets a NUL is a \<^theory_text>\<open>partial_function\<close>, whose value \<open>None\<close>
  means that it never ends.
\<close>

type_synonym bytemem = "uint64 \<Rightarrow> uchar"

text \<open>The address \<open>a\<close> is one of the \<open>n\<close> bytes from \<open>p\<close> on.\<close>

definition within :: "uint64 \<Rightarrow> nat \<Rightarrow> uint64 \<Rightarrow> bool" where
  "within p n a \<longleftrightarrow> unat (a - p) < n"

section \<open>memset, memcmp, memmove\<close>

primrec memset_loop :: "nat \<Rightarrow> bytemem \<Rightarrow> uint64 \<Rightarrow> uchar \<Rightarrow> bytemem" where
  "memset_loop 0 m p c = m"
| "memset_loop (Suc k) m p c = memset_loop k (m(p := c)) (p + 1) c"

definition memset :: "bytemem \<Rightarrow> uint64 \<Rightarrow> uchar \<Rightarrow> uint \<Rightarrow> bytemem" where
  "memset m dst c n = memset_loop (unat n) m dst c"

primrec memcmp_loop :: "nat \<Rightarrow> bytemem \<Rightarrow> uint64 \<Rightarrow> uint64 \<Rightarrow> int" where
  "memcmp_loop 0 m s1 s2 = 0"
| "memcmp_loop (Suc k) m s1 s2 =
     (if m s1 \<noteq> m s2 then uint (m s1) - uint (m s2) else memcmp_loop k m (s1 + 1) (s2 + 1))"

definition memcmp :: "bytemem \<Rightarrow> uint64 \<Rightarrow> uint64 \<Rightarrow> uint \<Rightarrow> int" where
  "memcmp m v1 v2 n = memcmp_loop (unat n) m v1 v2"

primrec copy_up :: "nat \<Rightarrow> bytemem \<Rightarrow> uint64 \<Rightarrow> uint64 \<Rightarrow> bytemem" where
  "copy_up 0 m d s = m"
| "copy_up (Suc k) m d s = copy_up k (m(d := m s)) (d + 1) (s + 1)"

primrec copy_down :: "nat \<Rightarrow> bytemem \<Rightarrow> uint64 \<Rightarrow> uint64 \<Rightarrow> bytemem" where
  "copy_down 0 m d s = m"
| "copy_down (Suc k) m d s = copy_down k (m(d - 1 := m (s - 1))) (d - 1) (s - 1)"

definition memmove :: "bytemem \<Rightarrow> uint64 \<Rightarrow> uint64 \<Rightarrow> uint \<Rightarrow> bytemem" where
  "memmove m dst src n =
     (if n = 0 then m
      else if src < dst \<and> src + ucast n > dst
      then copy_down (unat n) m (dst + ucast n) (src + ucast n)
      else copy_up (unat n) m dst src)"

definition memcpy :: "bytemem \<Rightarrow> uint64 \<Rightarrow> uint64 \<Rightarrow> uint \<Rightarrow> bytemem" where
  "memcpy m dst src n = memmove m dst src n"

section \<open>Strings\<close>

primrec strncmp_loop :: "nat \<Rightarrow> bytemem \<Rightarrow> uint64 \<Rightarrow> uint64 \<Rightarrow> int" where
  "strncmp_loop 0 m p q = 0"
| "strncmp_loop (Suc k) m p q =
     (if m p \<noteq> 0 \<and> m p = m q then strncmp_loop k m (p + 1) (q + 1)
      else uint (m p) - uint (m q))"

definition strncmp :: "bytemem \<Rightarrow> uint64 \<Rightarrow> uint64 \<Rightarrow> uint \<Rightarrow> int" where
  "strncmp m p q n = strncmp_loop (unat n) m p q"

primrec strncpy_loop :: "nat \<Rightarrow> bytemem \<Rightarrow> uint64 \<Rightarrow> uint64 \<Rightarrow> bytemem" where
  "strncpy_loop 0 m s t = m"
| "strncpy_loop (Suc k) m s t =
     (let m' = m(s := m t) in
      if m t \<noteq> 0 then strncpy_loop k m' (s + 1) (t + 1) else memset_loop k m' (s + 1) 0)"

definition strncpy :: "bytemem \<Rightarrow> uint64 \<Rightarrow> uint64 \<Rightarrow> int \<Rightarrow> bytemem" where
  "strncpy m s t n = strncpy_loop (nat n) m s t"

primrec safestrcpy_loop :: "nat \<Rightarrow> bytemem \<Rightarrow> uint64 \<Rightarrow> uint64 \<Rightarrow> bytemem" where
  "safestrcpy_loop 0 m s t = m(s := 0)"
| "safestrcpy_loop (Suc k) m s t =
     (let m' = m(s := m t) in
      if m t \<noteq> 0 then safestrcpy_loop k m' (s + 1) (t + 1) else m'(s + 1 := 0))"

definition safestrcpy :: "bytemem \<Rightarrow> uint64 \<Rightarrow> uint64 \<Rightarrow> int \<Rightarrow> bytemem" where
  "safestrcpy m s t n = (if n \<le> 0 then m else safestrcpy_loop (nat n - 1) m s t)"

partial_function (option) strlen_loop :: "bytemem \<Rightarrow> uint64 \<Rightarrow> nat \<Rightarrow> nat option" where
  "strlen_loop m s n = (if m (s + of_nat n) \<noteq> 0 then strlen_loop m s (n + 1) else Some n)"

definition strlen :: "bytemem \<Rightarrow> uint64 \<Rightarrow> nat option" where
  "strlen m s = strlen_loop m s 0"

section \<open>The user library's versions\<close>

definition ulib_memmove :: "bytemem \<Rightarrow> uint64 \<Rightarrow> uint64 \<Rightarrow> int \<Rightarrow> bytemem" where
  "ulib_memmove m vdst vsrc n =
     (if vsrc > vdst then copy_up (nat n) m vdst vsrc
      else copy_down (nat n) m (vdst + word_of_int n) (vsrc + word_of_int n))"

text \<open>Here the bytes are compared as \<^verbatim>\<open>char\<close>, which is signed on this machine.\<close>

primrec ulib_memcmp_loop :: "nat \<Rightarrow> bytemem \<Rightarrow> uint64 \<Rightarrow> uint64 \<Rightarrow> int" where
  "ulib_memcmp_loop 0 m p1 p2 = 0"
| "ulib_memcmp_loop (Suc k) m p1 p2 =
     (if m p1 \<noteq> m p2 then sint (m p1) - sint (m p2) else ulib_memcmp_loop k m (p1 + 1) (p2 + 1))"

definition ulib_memcmp :: "bytemem \<Rightarrow> uint64 \<Rightarrow> uint64 \<Rightarrow> uint \<Rightarrow> int" where
  "ulib_memcmp m s1 s2 n = ulib_memcmp_loop (unat n) m s1 s2"

partial_function (option) strcpy :: "bytemem \<Rightarrow> uint64 \<Rightarrow> uint64 \<Rightarrow> bytemem option" where
  "strcpy m s t = (let m' = m(s := m t) in if m t \<noteq> 0 then strcpy m' (s + 1) (t + 1) else Some m')"

partial_function (option) strcmp :: "bytemem \<Rightarrow> uint64 \<Rightarrow> uint64 \<Rightarrow> int option" where
  "strcmp m p q =
     (if m p \<noteq> 0 \<and> m p = m q then strcmp m (p + 1) (q + 1) else Some (uint (m p) - uint (m q)))"

partial_function (option) strchr :: "bytemem \<Rightarrow> uint64 \<Rightarrow> uchar \<Rightarrow> uint64 option" where
  "strchr m s c = (if m s \<noteq> 0 then if m s = c then Some s else strchr m (s + 1) c else Some 0)"

text \<open>\<^verbatim>\<open>n*10 + *s - '0'\<close> is computed in a 32-bit \<^verbatim>\<open>int\<close>.\<close>

partial_function (option) atoi_loop :: "bytemem \<Rightarrow> uint64 \<Rightarrow> uint \<Rightarrow> uint option" where
  "atoi_loop m s n =
     (if 48 \<le> sint (m s) \<and> sint (m s) \<le> 57
      then atoi_loop m (s + 1) (n * 10 + scast (m s) - 48) else Some n)"

definition atoi :: "bytemem \<Rightarrow> uint64 \<Rightarrow> uint option" where
  "atoi m s = atoi_loop m s 0"

section \<open>Ranges of addresses\<close>

lemma within_0 [simp]: "\<not> within p 0 a"
  by (simp add: within_def)



lemma off_step: "a \<noteq> p \<Longrightarrow> unat (a - p) = Suc (unat (a - (p + 1)))" for a p :: uint64
proof -
  assume "a \<noteq> p"
  then have "a - p \<noteq> 0" by simp
  then have "unat (a - p - 1) = unat (a - p) - 1" by (rule unat_minus_one)
  moreover have "unat (a - p) \<noteq> 0" using \<open>a \<noteq> p\<close> by (simp add: unat_0_iff)
  ultimately show ?thesis by (simp add: diff_diff_eq)
qed

lemma within_Suc: "a \<noteq> p \<Longrightarrow> within p (Suc k) a = within (p + 1) k a"
  by (simp add: within_def off_step)

lemma within_self [simp]: "within p (Suc k) p"
  by (simp add: within_def)

lemma not_within_next: "k < 2 ^ 64 \<Longrightarrow> \<not> within (p + 1) k p"
  by (simp add: within_def unsigned_minus_1_eq_mask mask_eq_exp_minus_1)

lemma memset_loop_eq:
  "k \<le> 2 ^ 64 \<Longrightarrow> memset_loop k m p c = (\<lambda>a. if within p k a then c else m a)"
proof (induction k arbitrary: m p)
  case 0 then show ?case by simp
next
  case (Suc k)
  show ?case
  proof
    fix a
    show "memset_loop (Suc k) m p c a = (if within p (Suc k) a then c else m a)"
      using Suc not_within_next [of k p] by (cases "a = p") (simp_all add: within_Suc)
  qed
qed

lemma copy_up_eq:
  assumes "k < 2 ^ 64" "d = s \<or> k \<le> unat (d - s)"
  shows "copy_up k m d s = (\<lambda>a. if within d k a then m (s + (a - d)) else m a)"
  using assms
proof (induction k arbitrary: m d s)
  case 0 then show ?case by simp
next
  case (Suc k)
  have IH: "copy_up k (m(d := m s)) (d + 1) (s + 1) =
    (\<lambda>a. if within (d + 1) k a then (m(d := m s)) (s + 1 + (a - (d + 1))) else (m(d := m s)) a)"
    using Suc.prems by (intro Suc.IH) auto
  show ?case
  proof
    fix a
    show "copy_up (Suc k) m d s a = (if within d (Suc k) a then m (s + (a - d)) else m a)"
    proof (cases "a = d")
      case True
      then show ?thesis using IH not_within_next [of k d] Suc.prems(1) by simp
    next
      case False
      have "s + (a - d) = d \<Longrightarrow> within d (Suc k) a \<Longrightarrow> m s = m (s + (a - d))"
      proof -
        assume "s + (a - d) = d" and w: "within d (Suc k) a"
        then have "a - d = d - s" by (simp add: algebra_simps)
        with w Suc.prems(2) False show ?thesis by (auto simp: within_def)
      qed
      then show ?thesis using False IH by (auto simp: within_Suc algebra_simps)
    qed
  qed
qed

lemma copy_down_eq:
  assumes "k < 2 ^ 64" "d = s \<or> k \<le> unat (s - d)"
  shows "copy_down k m (d + of_nat k) (s + of_nat k) = (\<lambda>a. if within d k a then m (s + (a - d)) else m a)"
  using assms
proof (induction k arbitrary: m)
  case 0 then show ?case by simp
next
  case (Suc k)
  let ?m = "m(d + of_nat k := m (s + of_nat k))"
  have IH: "copy_down k ?m (d + of_nat k) (s + of_nat k) =
      (\<lambda>a. if within d k a then ?m (s + (a - d)) else ?m a)"
    using Suc.prems by (intro Suc.IH) auto
  have k: "unat (of_nat k :: uint64) = k" using Suc.prems(1) by (simp add: unat_of_nat)
  show ?case
  proof
    fix a
    have last: "a = d + of_nat k \<longleftrightarrow> unat (a - d) = k"
      using k by (metis add_diff_cancel_left' diff_add_cancel word_unat_eq_iff)
    have src: "s + (a - d) = d + of_nat k \<Longrightarrow> unat (a - d) < k \<Longrightarrow> False"
    proof -
      assume eq: "s + (a - d) = d + of_nat k" and lt: "unat (a - d) < k"
      then have off: "s - d = of_nat k - (a - d)" by (simp add: algebra_simps)
      have "unat (of_nat k - (a - d)) = k - unat (a - d)"
        using lt k by (subst unat_sub) (simp_all add: word_le_nat_alt)
      then have "unat (s - d) = k - unat (a - d)" by (simp only: off)
      with Suc.prems(2) lt have "d = s" by auto
      with eq last lt show False by simp
    qed
    show "copy_down (Suc k) m (d + of_nat (Suc k)) (s + of_nat (Suc k)) a =
      (if within d (Suc k) a then m (s + (a - d)) else m a)"
      using IH last src by (auto simp: within_def less_Suc_eq algebra_simps)
  qed
qed

lemma unat_uint_less: "unat (n :: uint) < 2 ^ 32"
  by (rule order_less_le_trans [OF unsigned_less]) simp

lemma unat_ucast_uint [simp]: "unat (ucast (n :: uint) :: uint64) = unat n"
  using unat_uint_less [of n] by (simp add: unsigned_ucast_eq take_bit_nat_eq_self)

section \<open>What the routines compute\<close>

lemma memmove_eq:
  assumes "unat src + unat n < 2 ^ 64"
  shows "memmove m dst src n = (\<lambda>a. if within dst (unat n) a then m (src + (a - dst)) else m a)"
proof (cases "n = 0")
  case True
  then show ?thesis by (simp add: memmove_def)
next
  case False
  have n32: "unat n < 2 ^ 32" by (rule unat_uint_less)
  have cast: "ucast n = (of_nat (unat n) :: uint64)" by simp
  have sum: "unat (src + ucast n) = unat src + unat n"
    using assms by (simp add: unat_plus_if')
  show ?thesis
  proof (cases "src < dst \<and> src + ucast n > dst")
    case True
    then have "unat n \<le> unat (src - dst)"
      using n32 sum by (simp add: unat_sub_if' word_less_nat_alt) linarith
    then show ?thesis
      using True False n32 copy_down_eq [of "unat n" dst src m]
      by (simp add: memmove_def)
  next
    case f: False
    then have "dst = src \<or> unat n \<le> unat (dst - src)"
      using sum assms n32 by (auto simp: unat_sub_if' word_less_nat_alt word_le_nat_alt not_less word_unat_eq_iff)
    then show ?thesis
      using f False n32 copy_up_eq [of "unat n" dst src m]
      by (auto simp: memmove_def)
  qed
qed

lemma memset_correct: "memset m dst c n = (\<lambda>a. if within dst (unat n) a then c else m a)"
  using unat_uint_less [of n] by (simp add: memset_def memset_loop_eq)

lemma ulib_memmove_eq_memmove:
  assumes "unat src + unat n < 2 ^ 64" "unat dst + unat n < 2 ^ 64"
  shows "ulib_memmove m dst src (uint n) = memmove m dst src n"
proof -
  have n32: "unat n < 2 ^ 32" by (rule unat_uint_less)
  have nat: "nat (uint n) = unat n" by simp
  have cast: "word_of_int (uint n) = (of_nat (unat n) :: uint64)" by simp
  show ?thesis
  proof (cases "src > dst")
    case True
    then have "dst = src \<or> unat n \<le> unat (dst - src)"
      using assms by (auto simp: unat_sub_if' word_less_nat_alt word_le_nat_alt word_unat_eq_iff)
    then show ?thesis
      using True n32 copy_up_eq [of "unat n" dst src m] memmove_eq [OF assms(1), of m dst]
      by (simp add: ulib_memmove_def)
  next
    case False
    then have "dst = src \<or> unat n \<le> unat (src - dst)"
      using assms by (auto simp: unat_sub_if' word_less_nat_alt word_le_nat_alt word_unat_eq_iff)
    then show ?thesis
      using False n32 copy_down_eq [of "unat n" dst src m] memmove_eq [OF assms(1), of m dst]
      by (simp add: ulib_memmove_def)
  qed
qed

lemma memcmp_loop_zero: "memcmp_loop k m p q = 0 \<longleftrightarrow> (\<forall>i<k. m (p + of_nat i) = m (q + of_nat i))"
proof (induction k arbitrary: p q)
  case (Suc k)
  show ?case
    by (auto simp: Suc.IH less_Suc_eq_0_disj add.assoc word_uint_eq_iff)
qed simp

lemma safestrcpy_loop_nul:
  "k < 2 ^ 63 \<Longrightarrow> \<exists>j\<le>k. safestrcpy_loop k m s t (s + of_nat j) = 0 \<and>
     (\<forall>a. \<not> within s (Suc k) a \<longrightarrow> safestrcpy_loop k m s t a = m a)"
proof (induction k arbitrary: m s t)
  case 0
  then show ?case by (auto simp: within_def)
next
  case (Suc k)
  let ?m = "m(s := m t)"
  show ?case
  proof (cases "m t = 0")
    case True
    have w: "within s (Suc (Suc k)) (s + 1)" by (simp add: within_def)
    have "safestrcpy_loop (Suc k) m s t = ?m(s + 1 := 0)" using True by (simp add: Let_def)
    moreover have "\<forall>a. \<not> within s (Suc (Suc k)) a \<longrightarrow> (?m(s + 1 := 0)) a = m a"
      using w by auto
    moreover have "(?m(s + 1 := 0)) (s + of_nat (Suc 0)) = 0" by simp
    ultimately show ?thesis by (intro exI [of _ "Suc 0"]) simp
  next
    case False
    then obtain j where j: "j \<le> k" "safestrcpy_loop k ?m (s + 1) (t + 1) (s + 1 + of_nat j) = 0"
      and fr: "\<forall>a. \<not> within (s + 1) (Suc k) a \<longrightarrow> safestrcpy_loop k ?m (s + 1) (t + 1) a = ?m a"
      using Suc.IH [of ?m "s + 1" "t + 1"] Suc.prems by (auto simp del: fun_upd_apply)
    have eq: "safestrcpy_loop (Suc k) m s t = safestrcpy_loop k ?m (s + 1) (t + 1)"
      using False by (simp add: Let_def)
    have "\<forall>a. \<not> within s (Suc (Suc k)) a \<longrightarrow> safestrcpy_loop (Suc k) m s t a = m a"
    proof (intro allI impI)
      fix a assume a: "\<not> within s (Suc (Suc k)) a"
      then have "a \<noteq> s" by auto
      with a fr eq show "safestrcpy_loop (Suc k) m s t a = m a" by (simp add: within_Suc)
    qed
    moreover have "safestrcpy_loop (Suc k) m s t (s + of_nat (Suc j)) = 0"
      using j(2) eq by (simp add: add.assoc)
    ultimately show ?thesis using j(1) by (metis Suc_le_mono)
  qed
qed

lemma strlen_loop_eq:
  "(\<And>i. n \<le> i \<Longrightarrow> i < k \<Longrightarrow> m (s + of_nat i) \<noteq> 0) \<Longrightarrow> m (s + of_nat k) = 0 \<Longrightarrow> n \<le> k \<Longrightarrow> strlen_loop m s n = Some k"
proof (induction "k - n" arbitrary: n)
  case 0
  then show ?case by (subst strlen_loop.simps) simp
next
  case (Suc d)
  then have "m (s + of_nat n) \<noteq> 0" by simp
  moreover have "strlen_loop m s (n + 1) = Some k"
    using Suc by (intro Suc.hyps(1)) auto
  ultimately show ?case by (subst strlen_loop.simps) simp
qed


text \<open>
  C17: \<^verbatim>\<open>memmove\<close>, in the kernel and in the user library, copies the \<open>n\<close> bytes as
  they were before the call, also when the two regions overlap, and writes no
  other byte.  The regions must not run to the very top of the address space,
  where \<^verbatim>\<open>s + n\<close> wraps.
\<close>

theorem memmove_correct:
  assumes "unat src + unat n < 2 ^ 64" "unat dst + unat n < 2 ^ 64"
  shows "memmove m dst src n = (\<lambda>a. if within dst (unat n) a then m (src + (a - dst)) else m a) \<and>
         ulib_memmove m dst src (uint n) = memmove m dst src n"
  using memmove_eq [OF assms(1)] ulib_memmove_eq_memmove [OF assms] by simp

text \<open>Eight bytes moved two places up, onto themselves in part.\<close>

theorem memmove_correct_witness:
  "memmove (\<lambda>a. ucast a) 102 100 8 109 = 107 \<and> memmove (\<lambda>a. ucast a) 102 100 8 200 = 200 \<and>
   ulib_memmove (\<lambda>a. ucast a) 102 100 8 109 = 107"
  using memmove_correct [of 100 8 102 "\<lambda>a. ucast a"] by (simp add: within_def)

lemma safestrcpy_loop_copy:
  assumes "k < 2 ^ 63" "\<And>i j. i \<le> k \<Longrightarrow> j \<le> k \<Longrightarrow> s + of_nat i \<noteq> t + of_nat j"
    "\<And>i. i < l \<Longrightarrow> m (t + of_nat i) \<noteq> 0" "l \<le> k" "l = k \<or> m (t + of_nat l) = 0"
  shows "(\<forall>i<l. safestrcpy_loop k m s t (s + of_nat i) = m (t + of_nat i)) \<and>
    safestrcpy_loop k m s t (s + of_nat l) = 0"
  using assms
proof (induction k arbitrary: m s t l)
  case 0
  then show ?case by simp
next
  case (Suc k)
  let ?m = "m(s := m t)"
  show ?case
  proof (cases l)
    case 0
    then have "m t = 0" using Suc.prems(5) by simp
    with 0 show ?thesis by (simp add: Let_def)
  next
    case (Suc l')
    have nz: "m t \<noteq> 0" using Suc.prems(3) [of 0] Suc by simp
    have src: "?m (t + 1 + of_nat i) = m (t + of_nat (Suc i))" if "i \<le> k" for i
      using Suc.prems(2) [of 0 "Suc i"] that by (auto simp: add.assoc)
    have IH: "(\<forall>i<l'. safestrcpy_loop k ?m (s + 1) (t + 1) (s + 1 + of_nat i) = ?m (t + 1 + of_nat i)) \<and>
      safestrcpy_loop k ?m (s + 1) (t + 1) (s + 1 + of_nat l') = 0"
    proof (rule Suc.IH)
      show "s + 1 + of_nat i \<noteq> t + 1 + of_nat j" if "i \<le> k" "j \<le> k" for i j
        using Suc.prems(2) [of "Suc i" "Suc j"] that by (simp add: add.assoc)
      show "?m (t + 1 + of_nat i) \<noteq> 0" if "i < l'" for i
        using src [of i] Suc.prems(3) [of "Suc i"] Suc.prems(4) Suc that by simp
      show "l' = k \<or> ?m (t + 1 + of_nat l') = 0"
        using src [of l'] Suc.prems(4,5) Suc by auto
    qed (use Suc.prems Suc in auto)
    have at_s: "safestrcpy_loop k ?m (s + 1) (t + 1) s = m t"
      using safestrcpy_loop_nul [of k ?m "s + 1" "t + 1"] Suc.prems(1) not_within_next [of "Suc k" s]
      by auto
    have "safestrcpy_loop (Suc k) m s t (s + of_nat i) = m (t + of_nat i)" if "i < l" for i
    proof (cases i)
      case 0
      then show ?thesis using at_s nz by (simp add: Let_def)
    next
      case (Suc i')
      then show ?thesis using IH nz src [of i'] that \<open>l = Suc l'\<close> Suc.prems(4)
        by (auto simp: Let_def add.assoc simp del: fun_upd_apply)
    qed
    then show ?thesis using IH nz Suc by (simp add: Let_def add.assoc)
  qed
qed

text \<open>
  C18: \<^verbatim>\<open>safestrcpy\<close> leaves a NUL-terminated string inside the \<open>n\<close> bytes of the
  destination and changes no byte outside them; when source and destination do
  not overlap, that string is the source cut to \<open>n - 1\<close> bytes.
\<close>

theorem safestrcpy_correct:
  assumes "0 < n" "n < 2 ^ 31"
  shows "(\<exists>j < nat n. safestrcpy m s t n (s + of_nat j) = 0) \<and>
    (\<forall>a. \<not> within s (nat n) a \<longrightarrow> safestrcpy m s t n a = m a) \<and>
    (\<forall>l. (\<forall>i < nat n. \<forall>j < nat n. s + of_nat i \<noteq> t + of_nat j) \<and> l < nat n \<and>
         (\<forall>i < l. m (t + of_nat i) \<noteq> 0) \<and> (l = nat n - 1 \<or> m (t + of_nat l) = 0) \<longrightarrow>
       (\<forall>i < l. safestrcpy m s t n (s + of_nat i) = m (t + of_nat i)) \<and>
       safestrcpy m s t n (s + of_nat l) = 0)"
proof -
  define k where "k = nat n - 1"
  have k: "nat n = Suc k" "k < 2 ^ 63" and eq: "safestrcpy m s t n = safestrcpy_loop k m s t"
    using assms by (simp_all add: k_def safestrcpy_def)
  obtain j where "j \<le> k" "safestrcpy_loop k m s t (s + of_nat j) = 0"
    and "\<forall>a. \<not> within s (Suc k) a \<longrightarrow> safestrcpy_loop k m s t a = m a"
    using safestrcpy_loop_nul [OF k(2)] by blast
  moreover have "(\<forall>i < l. safestrcpy_loop k m s t (s + of_nat i) = m (t + of_nat i)) \<and>
       safestrcpy_loop k m s t (s + of_nat l) = 0"
    if "\<forall>i < Suc k. \<forall>j < Suc k. s + of_nat i \<noteq> t + of_nat j" "l < Suc k"
      "\<forall>i < l. m (t + of_nat i) \<noteq> 0" "l = k \<or> m (t + of_nat l) = 0" for l
    using that k(2) by (intro safestrcpy_loop_copy) auto
  ultimately show ?thesis unfolding k(1) eq by (auto simp: less_Suc_eq_le)
qed

theorem safestrcpy_correct_witness:
  "\<exists>j < nat 4. safestrcpy (\<lambda>a. if a < 20 then 65 else 0) 100 10 4 (100 + of_nat j) = 0"
  using safestrcpy_correct [of 4 "\<lambda>a. if a < 20 then 65 else 0" 100 10] by simp

lemma ulib_memcmp_loop_zero:
  "ulib_memcmp_loop k m p q = 0 \<longleftrightarrow> (\<forall>i<k. m (p + of_nat i) = m (q + of_nat i))"
proof (induction k arbitrary: p q)
  case (Suc k)
  show ?case
    by (auto simp: Suc.IH less_Suc_eq_0_disj add.assoc signed_word_eqI)
qed simp


end
