(* ===== verification/Memory.thy ===== *)
theory Memory
  imports Kstring
begin

text \<open>
  Physical memory as bytes: little-endian words in byte lists and in memory, the
  page arithmetic of \<^verbatim>\<open>kernel/riscv.h\<close> and the layout of \<^verbatim>\<open>kernel/memlayout.h\<close>.
\<close>

section \<open>Little-endian words\<close>

primrec le_bytes :: "nat \<Rightarrow> 'a::len word \<Rightarrow> uchar list" where
  "le_bytes 0 v = []"
| "le_bytes (Suc n) v = ucast v # le_bytes n (drop_bit 8 v)"

primrec le_word :: "uchar list \<Rightarrow> 'a::len word" where
  "le_word [] = 0"
| "le_word (b # bs) = ucast b OR push_bit 8 (le_word bs)"

lemma length_le_bytes [simp]: "length (le_bytes n v) = n"
  by (induction n arbitrary: v) simp_all

lemma le_word_le_bytes: "le_word (le_bytes n v) = take_bit (8 * n) v"
proof (induction n arbitrary: v)
  case 0
  then show ?case by simp
next
  case (Suc n)
  show ?case
    by (rule bit_word_eqI) (auto simp: Suc bit_simps less_diff_conv2 not_less)
qed

lemma le_word_le_bytes_id [simp]:
  "LENGTH('a) \<le> 8 * n \<Longrightarrow> le_word (le_bytes n v) = (v :: 'a::len word)"
  by (simp add: le_word_le_bytes) (rule bit_word_eqI, simp add: bit_simps)

lemma le_word_bit_bound: "bit (le_word bs :: 'a::len word) n \<Longrightarrow> n < 8 * length bs"
proof (induction bs arbitrary: n)
  case (Cons b bs)
  show ?case
  proof (cases "n < 8")
    case False
    with Cons.prems have "bit (le_word bs :: 'a word) (n - 8)"
      by (auto simp: bit_simps dest: bit_imp_le_length)
    with Cons.IH [of "n - 8"] False show ?thesis by simp
  qed simp
qed simp

lemma le_bytes_le_word:
  "8 * length bs \<le> LENGTH('a) \<Longrightarrow> le_bytes (length bs) (le_word bs :: 'a::len word) = bs"
proof (induction bs)
  case Nil
  then show ?case by simp
next
  case (Cons b bs)
  let ?w = "le_word bs :: 'a word"
  have "ucast (ucast b OR push_bit 8 ?w) = b"
    using Cons.prems by (intro bit_word_eqI) (auto simp: bit_simps)
  moreover have "drop_bit 8 (ucast b OR push_bit 8 ?w) = ?w"
  proof (rule bit_word_eqI)
    fix n assume n: "n < LENGTH('a)"
    have "bit ?w n \<Longrightarrow> 8 + n < LENGTH('a)"
      using le_word_bit_bound [of bs n, where 'a = 'a] Cons.prems by simp
    then show "bit (drop_bit 8 (ucast b OR push_bit 8 ?w)) n = bit ?w n"
      by (auto simp: bit_drop_bit_eq bit_or_iff bit_push_bit_iff bit_unsigned_iff
          dest: bit_imp_le_length)
  qed
  ultimately show ?case using Cons by simp
qed

section \<open>Words in memory\<close>

definition read_bytes :: "bytemem \<Rightarrow> uint64 \<Rightarrow> nat \<Rightarrow> uchar list" where
  "read_bytes m a n = map (\<lambda>i. m (a + of_nat i)) [0..<n]"

definition write_bytes :: "bytemem \<Rightarrow> uint64 \<Rightarrow> uchar list \<Rightarrow> bytemem" where
  "write_bytes m a bs = (\<lambda>x. if within a (length bs) x then bs ! unat (x - a) else m x)"

definition load64 :: "bytemem \<Rightarrow> uint64 \<Rightarrow> uint64" where
  "load64 m a = le_word (read_bytes m a 8)"

definition store64 :: "bytemem \<Rightarrow> uint64 \<Rightarrow> uint64 \<Rightarrow> bytemem" where
  "store64 m a v = write_bytes m a (le_bytes 8 v)"

lemma length_read_bytes [simp]: "length (read_bytes m a n) = n"
  by (simp add: read_bytes_def)

lemma within_off: "i < 2 ^ 64 \<Longrightarrow> within a n (a + of_nat i) \<longleftrightarrow> i < n"
  by (simp add: within_def unat_of_nat)

lemma read_write_bytes:
  "length bs \<le> 2 ^ 64 \<Longrightarrow> read_bytes (write_bytes m a bs) a (length bs) = bs"
  by (rule nth_equalityI) (simp_all add: read_bytes_def write_bytes_def within_off unat_of_nat)

lemma read_bytes_cong:
  "n \<le> 2 ^ 64 \<Longrightarrow> (\<And>x. within a n x \<Longrightarrow> m x = m' x) \<Longrightarrow> read_bytes m a n = read_bytes m' a n"
  by (simp add: read_bytes_def within_off)

lemma load64_cong: "(\<And>x. within a 8 x \<Longrightarrow> m x = m' x) \<Longrightarrow> load64 m a = load64 m' a"
  by (simp add: load64_def cong: read_bytes_cong)

lemma load64_store64 [simp]: "load64 (store64 m a v) a = v"
  using read_write_bytes [of "le_bytes 8 v" m a] by (simp add: load64_def store64_def)

lemma store64_other: "\<not> within a 8 x \<Longrightarrow> store64 m a v x = m x"
  by (simp add: store64_def write_bytes_def)

lemma load64_store64_other:
  "(\<And>x. within b 8 x \<Longrightarrow> \<not> within a 8 x) \<Longrightarrow> load64 (store64 m a v) b = load64 m b"
  by (rule load64_cong) (simp add: store64_other)

section \<open>Pages\<close>

definition PGSIZE :: uint64 where "PGSIZE = 4096"
definition PGSHIFT :: nat where "PGSHIFT = 12"

definition PGROUNDUP :: "uint64 \<Rightarrow> uint64" where
  "PGROUNDUP sz = (sz + PGSIZE - 1) AND NOT (PGSIZE - 1)"

definition PGROUNDDOWN :: "uint64 \<Rightarrow> uint64" where
  "PGROUNDDOWN a = a AND NOT (PGSIZE - 1)"

definition KERNBASE :: uint64 where "KERNBASE = 0x80000000"
definition PHYSTOP :: uint64 where "PHYSTOP = KERNBASE + 128*1024*1024"
definition UART0 :: uint64 where "UART0 = 0x10000000"
definition VIRTIO0 :: uint64 where "VIRTIO0 = 0x10001000"
definition CLINT :: uint64 where "CLINT = 0x2000000"
definition PLIC :: uint64 where "PLIC = 0x0c000000"
definition MAXVA :: uint64 where "MAXVA = push_bit (9 + 9 + 9 + 12 - 1) 1"
definition TRAMPOLINE :: uint64 where "TRAMPOLINE = MAXVA - PGSIZE"
definition KSTACK :: "uint64 \<Rightarrow> uint64" where "KSTACK p = TRAMPOLINE - (p + 1) * 2 * PGSIZE"
definition TRAPFRAME :: uint64 where "TRAPFRAME = TRAMPOLINE - PGSIZE"

definition page_aligned :: "uint64 \<Rightarrow> bool" where
  "page_aligned p \<longleftrightarrow> p mod PGSIZE = 0"

lemma PGSIZE_mask: "PGSIZE - 1 = mask 12"
  by (simp add: PGSIZE_def mask_eq_exp_minus_1)

lemma page_aligned_bits: "page_aligned p \<longleftrightarrow> take_bit 12 p = 0"
  by (simp add: page_aligned_def PGSIZE_def take_bit_eq_mod)

lemma PGROUNDDOWN_bits: "PGROUNDDOWN a = a AND NOT (mask 12)"
  by (simp add: PGROUNDDOWN_def PGSIZE_mask)

lemma PGROUNDDOWN_split: "a = PGROUNDDOWN a + take_bit 12 a"
proof -
  have "PGROUNDDOWN a + take_bit 12 a = PGROUNDDOWN a OR take_bit 12 a"
    by (rule disjunctive_add) (auto simp: PGROUNDDOWN_bits bit_simps)
  also have "\<dots> = a"
    by (rule bit_word_eqI) (auto simp: PGROUNDDOWN_bits bit_simps)
  finally show ?thesis by simp
qed

lemma page_aligned_PGROUNDDOWN [simp]: "page_aligned (PGROUNDDOWN a)"
  by (simp add: page_aligned_bits PGROUNDDOWN_bits)
     (rule bit_word_eqI, auto simp: bit_simps)

lemma PGROUNDDOWN_aligned: "page_aligned p \<Longrightarrow> PGROUNDDOWN p = p"
  using PGROUNDDOWN_split [of p] by (simp add: page_aligned_bits)

lemma within_page: "page_aligned p \<Longrightarrow> within p 4096 a \<longleftrightarrow> PGROUNDDOWN a = p"
proof
  assume "PGROUNDDOWN a = p"
  then have "a - p = take_bit 12 a" using PGROUNDDOWN_split [of a] by (simp add: algebra_simps)
  then show "within p 4096 a"
    using take_bit_nat_less_exp [of 12 "unat a"] by (simp add: within_def unsigned_take_bit_eq)
next
  assume p: "page_aligned p" and "within p 4096 a"
  define o' where "o' = a - p"
  then have a: "a = p + o'" and o': "unat o' < 4096"
    using \<open>within p 4096 a\<close> by (simp_all add: within_def)
  then have "o' = take_bit 12 o'"
    by (simp add: word_unat_eq_iff unsigned_take_bit_eq take_bit_nat_eq_self)
  then have o12: "\<And>n. bit o' n \<Longrightarrow> n < 12" by (metis bit_take_bit_iff)
  have p12: "\<And>n. bit p n \<Longrightarrow> \<not> n < 12"
    using p unfolding page_aligned_bits by (metis bit_take_bit_iff bit_0_eq bot_apply bot_bool_def)
  have "p + o' = p OR o'" by (rule disjunctive_add) (use o12 p12 in blast)
  then show "PGROUNDDOWN a = p"
    unfolding a PGROUNDDOWN_bits
    by (intro bit_word_eqI) (use o12 p12 in \<open>auto simp: bit_simps\<close>)
qed

text \<open>The same in the arithmetic of natural numbers.\<close>

lemma page_aligned_unat: "page_aligned p \<longleftrightarrow> unat p mod 4096 = 0"
  by (simp only: page_aligned_bits word_unat_eq_iff unsigned_take_bit_eq) (simp add: take_bit_eq_mod)

lemma unat_PGROUNDDOWN: "unat (PGROUNDDOWN a) = unat a div 4096 * 4096"
proof -
  have "PGROUNDDOWN a = a - take_bit 12 a"
    using PGROUNDDOWN_split [of a] by (simp add: algebra_simps)
  moreover have "unat (take_bit 12 a) = unat a mod 4096"
    by (simp only: unsigned_take_bit_eq) (simp add: take_bit_eq_mod)
  ultimately show ?thesis
    by (simp add: unat_sub word_le_nat_alt minus_mod_eq_div_mult)
qed

lemma unat_PGROUNDUP:
  assumes "unat a + 4095 < 2 ^ 64"
  shows "unat (PGROUNDUP a) = (unat a + 4095) div 4096 * 4096"
proof -
  have "PGROUNDUP a = PGROUNDDOWN (a + 4095)"
    by (simp add: PGROUNDUP_def PGROUNDDOWN_def PGSIZE_def add.commute)
  moreover have "unat (a + 4095) = unat a + 4095"
    using assms by (simp add: unat_plus_if')
  ultimately show ?thesis by (simp add: unat_PGROUNDDOWN)
qed

lemma page_aligned_add: "page_aligned p \<Longrightarrow> page_aligned q \<Longrightarrow> page_aligned (p + q)"
  by (simp only: page_aligned_unat unat_word_ariths) (simp add: mod_mod_cancel mod_eq_0_iff_dvd)

lemma page_aligned_PGSIZE [simp]: "page_aligned PGSIZE"
  by (simp add: page_aligned_def)

lemma page_aligned_diff: "page_aligned p \<Longrightarrow> page_aligned q \<Longrightarrow> page_aligned (p - q)"
  by (auto simp: page_aligned_unat mod_eq_0_iff_dvd unat_sub_if' intro!: dvd_diff_nat dvd_add)

lemma page_number: "page_aligned p \<Longrightarrow> \<exists>k. unat p = 4096 * k"
  by (auto simp: page_aligned_unat mod_eq_0_iff_dvd)

lemma page_aligned_less:
  assumes "page_aligned p" "page_aligned q"
  shows "unat p < unat q \<longleftrightarrow> unat p + 4096 \<le> unat q"
  using page_number [OF assms(1)] page_number [OF assms(2)] by auto

lemma round_up_bounds:
  fixes n :: nat
  shows "n \<le> (n + 4095) div 4096 * 4096" "(n + 4095) div 4096 * 4096 < n + 4096"
  using div_mult_mod_eq [of "n + 4095" 4096] mod_less_divisor [of 4096 "n + 4095"] by linarith+

lemma round_up_least:
  fixes n k :: nat
  assumes "n \<le> k" "k mod 4096 = 0"
  shows "(n + 4095) div 4096 * 4096 \<le> k"
proof -
  obtain j where k: "k = 4096 * j" using assms(2) by (auto simp: mod_eq_0_iff_dvd)
  then have "(n + 4095) div 4096 < j + 1"
    using assms(1) by (intro less_mult_imp_div_less) simp
  then show ?thesis using k by simp
qed

end
