(* ===== verification/Allocator.thy ===== *)
theory Allocator
  imports Prelude
begin

text \<open>
  The contract the allocators of the kernel share: pages (\<^verbatim>\<open>kalloc\<close>), disk blocks
  (\<^verbatim>\<open>balloc\<close>), virtio descriptors (\<^verbatim>\<open>alloc_desc\<close>), process slots (\<^verbatim>\<open>allocproc\<close>) and
  file slots.  \<open>inv s F\<close> says that the allocator's state \<open>s\<close> is consistent and
  that exactly the objects \<open>F\<close> are free.
\<close>

datatype 'a alloc_op = Do_alloc | Do_free 'a

text \<open>A client's sequence of calls; it holds \<open>H\<close> and only frees what it holds.\<close>

primrec alloc_client ::
  "('s, 'a option) kern \<Rightarrow> ('a \<Rightarrow> ('s, unit) kern) \<Rightarrow> 'a alloc_op list \<Rightarrow> 'a set \<Rightarrow> ('s, 'a set) kern" where
  "alloc_client alloc free [] H = ret H"
| "alloc_client alloc free (op # ops) H =
     (case op of
        Do_alloc \<Rightarrow> bind alloc (\<lambda>r. alloc_client alloc free ops (case r of None \<Rightarrow> H | Some a \<Rightarrow> insert a H))
      | Do_free a \<Rightarrow> if a \<in> H then seq (free a) (alloc_client alloc free ops (H - {a}))
                     else alloc_client alloc free ops H)"

locale allocator =
  fixes inv :: "'s \<Rightarrow> 'a set \<Rightarrow> bool"
    and alloc :: "('s, 'a option) kern"
    and free :: "'a \<Rightarrow> ('s, unit) kern"
    and objects :: "'a set"
  assumes alloc_law: "inv s F \<Longrightarrow> returns alloc s e (\<lambda>r t u. u = e \<and>
      (case r of None \<Rightarrow> F = {} \<and> inv t F | Some a \<Rightarrow> a \<in> F \<and> inv t (F - {a})))"
    and free_law: "inv s F \<Longrightarrow> a \<in> objects \<Longrightarrow> a \<notin> F \<Longrightarrow>
      returns (free a) s e (\<lambda>_ t u. u = e \<and> inv t (insert a F))"
begin

text \<open>
  Whatever the sequence, no call panics or waits, what the client holds is never
  handed out again, and every object is either held or free.
\<close>

lemma client_conserves:
  assumes "inv s F" "H \<inter> F = {}" "H \<union> F = objects"
  shows "returns (alloc_client alloc free ops H) s e
    (\<lambda>H' t u. u = e \<and> (\<exists>F'. inv t F' \<and> H' \<inter> F' = {} \<and> H' \<union> F' = objects))"
  using assms
proof (induction ops arbitrary: s F H)
  case Nil
  then show ?case by auto
next
  case (Cons op ops)
  show ?case
  proof (cases op)
    case Do_alloc
    have "returns alloc s e (\<lambda>r t u. returns
        (alloc_client alloc free ops (case r of None \<Rightarrow> H | Some a \<Rightarrow> insert a H)) t u
        (\<lambda>H' t u. u = e \<and> (\<exists>F'. inv t F' \<and> H' \<inter> F' = {} \<and> H' \<union> F' = objects)))"
    proof (rule returns_mono [OF alloc_law [OF Cons.prems(1)]])
      fix r t u
      assume r: "u = e \<and> (case r of None \<Rightarrow> F = {} \<and> inv t F | Some a \<Rightarrow> a \<in> F \<and> inv t (F - {a}))"
      show "returns (alloc_client alloc free ops (case r of None \<Rightarrow> H | Some a \<Rightarrow> insert a H)) t u
        (\<lambda>H' t u. u = e \<and> (\<exists>F'. inv t F' \<and> H' \<inter> F' = {} \<and> H' \<union> F' = objects))"
      proof (cases r)
        case None
        with r have "inv t F" "u = e" by auto
        with None Cons.IH [of t F H] Cons.prems show ?thesis by simp
      next
        case (Some a)
        with r Cons.prems have "inv t (F - {a})" "insert a H \<inter> (F - {a}) = {}"
          "insert a H \<union> (F - {a}) = objects" "u = e"
          by auto
        with Some Cons.IH [of t "F - {a}" "insert a H"] show ?thesis by simp
      qed
    qed
    then show ?thesis by (simp add: Do_alloc)
  next
    case (Do_free a)
    show ?thesis
    proof (cases "a \<in> H")
      case True
      then have "a \<in> objects" "a \<notin> F" using Cons.prems by auto
      from returns_mono [OF free_law [OF Cons.prems(1) this]]
      have "returns (free a) s e (\<lambda>_ t u. returns (alloc_client alloc free ops (H - {a})) t u
        (\<lambda>H' t u. u = e \<and> (\<exists>F'. inv t F' \<and> H' \<inter> F' = {} \<and> H' \<union> F' = objects)))"
        by (rule returns_mono) (use Cons.IH [of _ "insert a F" "H - {a}"] Cons.prems True in auto)
      then show ?thesis using True by (simp add: Do_free)
    next
      case False
      with Cons show ?thesis by (simp add: Do_free)
    qed
  qed
qed

text \<open>An object just freed can be allocated, so memory is not lost to the allocator.\<close>

lemma alloc_after_free:
  assumes "inv s F" "a \<in> objects" "a \<notin> F"
  shows "returns (seq (free a) alloc) s e (\<lambda>r t u. u = e \<and> r \<noteq> None)"
proof -
  have "returns (free a) s e (\<lambda>_ t u. returns alloc t u (\<lambda>r t u. u = e \<and> r \<noteq> None))"
    by (rule returns_mono [OF free_law [OF assms]])
       (auto split: option.splits intro: returns_mono [OF alloc_law])
  then show ?thesis by simp
qed

end

end
