(* ===== verification/Kalloc.thy ===== *)
theory Kalloc
  imports Sleeplock Memory Allocator
begin

text \<open>
  The physical page allocator: \<^verbatim>\<open>kernel/kalloc.c\<close>.  The free pages form a linked
  list through their first word; \<open>mem\<close> is physical memory, \<open>freelist\<close> is
  \<^verbatim>\<open>kmem.freelist\<close> (0 is the null pointer), and \<open>kend\<close> is the linker's symbol
  \<^verbatim>\<open>end\<close>, the first address after the kernel.
\<close>

record kmach = mach +
  mem :: bytemem
  kend :: uint64
  freelist :: uint64

section \<open>The code\<close>

definition kfree :: "uint64 \<Rightarrow> ('m kmach_scheme, unit) kern" where
  "kfree pa =
     bind (gets kend) (\<lambda>fin.
     if pa mod PGSIZE \<noteq> 0 \<or> pa < fin \<or> pa \<ge> PHYSTOP then panic ''kfree'' else
     seq (modify (\<lambda>s. s\<lparr>mem := memset (mem s) pa 1 (ucast PGSIZE)\<rparr>)) (
     seq (acquire L_kmem) (
     seq (modify (\<lambda>s. s\<lparr>mem := store64 (mem s) pa (freelist s)\<rparr>)) (
     seq (modify (\<lambda>s. s\<lparr>freelist := pa\<rparr>)) (
     release L_kmem)))))"

definition kalloc :: "('m kmach_scheme, uint64) kern" where
  "kalloc =
     seq (acquire L_kmem) (
     bind (gets freelist) (\<lambda>r.
     seq (whenM (r \<noteq> 0) (modify (\<lambda>s. s\<lparr>freelist := load64 (mem s) r\<rparr>))) (
     seq (release L_kmem) (
     seq (whenM (r \<noteq> 0) (modify (\<lambda>s. s\<lparr>mem := memset (mem s) r 5 (ucast PGSIZE)\<rparr>))) (
     ret r)))))"

definition freerange :: "uint64 \<Rightarrow> uint64 \<Rightarrow> ('m kmach_scheme, unit) kern" where
  "freerange pa_start pa_end =
     bind (whileM (\<lambda>p s. p + PGSIZE \<le> pa_end) (\<lambda>p. seq (kfree p) (ret (p + PGSIZE)))
       (PGROUNDUP pa_start)) (\<lambda>_. ret ())"

definition kinit :: "('m kmach_scheme, unit) kern" where
  "kinit =
     seq (initlock L_kmem ''kmem'') (
     bind (gets kend) (\<lambda>fin.
     freerange fin PHYSTOP))"

section \<open>The free list\<close>

text \<open>The lock operations and the new fields do not interfere.\<close>

lemma kmach_sel [simp]:
  "mem (acquired lk s) = mem s"
  "mem (touched s) = mem s"
  "mem (set_proc p g s) = mem s"
  "mem (set_sleeplock l h s) = mem s"
  "kend (acquired lk s) = kend s"
  "kend (touched s) = kend s"
  "kend (set_proc p g s) = kend s"
  "kend (set_sleeplock l h s) = kend s"
  "freelist (acquired lk s) = freelist s"
  "freelist (touched s) = freelist s"
  "freelist (set_proc p g s) = freelist s"
  "freelist (set_sleeplock l h s) = freelist s"
  by (simp_all add: acquired_def pushed_def touched_def mach_upd_defs)

lemma kmach_upd [simp]:
  "mem_update umem (acquired lk s) = acquired lk (mem_update umem s)"
  "mem_update umem (touched s) = touched (mem_update umem s)"
  "kend_update ukend (acquired lk s) = acquired lk (kend_update ukend s)"
  "kend_update ukend (touched s) = touched (kend_update ukend s)"
  "freelist_update ufreelist (acquired lk s) = acquired lk (freelist_update ufreelist s)"
  "freelist_update ufreelist (touched s) = touched (freelist_update ufreelist s)"
  by (simp_all add: acquired_def pushed_def touched_def mach_upd_defs intr_get_def)

lemma kmach_ok [simp]:
  "cpu_ok (mem_update umem s) = cpu_ok s"
  "lock_free lk (mem_update umem s) = lock_free lk s"
  "mycpu (mem_update umem s) = mycpu s"
  "intr_get (mem_update umem s) = intr_get s"
  "holding lk (mem_update umem s) = holding lk s"
  "proc_locks_free (mem_update umem s) = proc_locks_free s"
  "running p (mem_update umem s) = running p s"
  "cpu_ok (kend_update ukend s) = cpu_ok s"
  "lock_free lk (kend_update ukend s) = lock_free lk s"
  "mycpu (kend_update ukend s) = mycpu s"
  "intr_get (kend_update ukend s) = intr_get s"
  "holding lk (kend_update ukend s) = holding lk s"
  "proc_locks_free (kend_update ukend s) = proc_locks_free s"
  "running p (kend_update ukend s) = running p s"
  "cpu_ok (freelist_update ufreelist s) = cpu_ok s"
  "lock_free lk (freelist_update ufreelist s) = lock_free lk s"
  "mycpu (freelist_update ufreelist s) = mycpu s"
  "intr_get (freelist_update ufreelist s) = intr_get s"
  "holding lk (freelist_update ufreelist s) = holding lk s"
  "proc_locks_free (freelist_update ufreelist s) = proc_locks_free s"
  "running p (freelist_update ufreelist s) = running p s"
  by (simp_all add: cpu_ok_def lock_free_def mach_upd_defs intr_get_def holding_def proc_locks_free_def running_def)

text \<open>
  \<open>chain m p ps\<close>: following the links from \<open>p\<close> visits \<open>ps\<close> and ends at 0.
  \<open>free_pages s ps\<close>: the free list is \<open>ps\<close>, without repetition, of whole pages
  between the end of the kernel and \<^verbatim>\<open>PHYSTOP\<close>.
\<close>

fun chain :: "bytemem \<Rightarrow> uint64 \<Rightarrow> uint64 list \<Rightarrow> bool" where
  "chain m p [] \<longleftrightarrow> p = 0"
| "chain m p (q # qs) \<longleftrightarrow> p = q \<and> p \<noteq> 0 \<and> chain m (load64 m p) qs"

definition good_page :: "uint64 \<Rightarrow> uint64 \<Rightarrow> bool" where
  "good_page fin p \<longleftrightarrow> page_aligned p \<and> fin \<le> p \<and> p < PHYSTOP"

definition free_pages :: "'m kmach_scheme \<Rightarrow> uint64 list \<Rightarrow> bool" where
  "free_pages s ps \<longleftrightarrow> chain (mem s) (freelist s) ps \<and> distinct ps \<and>
     (\<forall>p \<in> set ps. good_page (kend s) p) \<and> kend s \<noteq> 0"

definition in_page :: "uint64 \<Rightarrow> uint64 \<Rightarrow> bool" where
  "in_page p a \<longleftrightarrow> PGROUNDDOWN a = p"

lemma within_8_page: "page_aligned p \<Longrightarrow> within p 8 a \<Longrightarrow> in_page p a"
  using within_page [of p a] by (simp add: in_page_def within_def)

lemma memset_page: "page_aligned p \<Longrightarrow>
    memset m p c (ucast PGSIZE) = (\<lambda>a. if in_page p a then c else m a)"
  by (simp add: memset_correct PGSIZE_def in_page_def within_page)

lemma chain_cong:
  assumes "\<forall>p \<in> set ps. page_aligned p" "\<And>a p. p \<in> set ps \<Longrightarrow> in_page p a \<Longrightarrow> m a = m' a"
  shows "chain m q ps = chain m' q ps"
  using assms
proof (induction ps arbitrary: q)
  case (Cons p ps)
  have "load64 m p = load64 m' p"
    using Cons.prems by (intro load64_cong) (meson list.set_intros(1) within_8_page)
  moreover have "chain m (load64 m p) ps = chain m' (load64 m p) ps"
    using Cons.prems by (intro Cons.IH) auto
  ultimately show ?case by (metis chain.simps(2))
qed simp

text \<open>Writing inside a page that is not on the list does not change the list.\<close>

lemma free_pages_frame:
  assumes "free_pages s ps" "\<And>a. (\<exists>p \<in> set ps. in_page p a) \<Longrightarrow> m a = mem s a"
  shows "free_pages (s\<lparr>mem := m\<rparr>) ps"
proof -
  have "chain m (freelist s) ps = chain (mem s) (freelist s) ps"
    using assms by (intro chain_cong) (auto simp: free_pages_def good_page_def)
  then show ?thesis using assms(1) by (simp add: free_pages_def)
qed

lemma kfree_run:
  assumes "cpu_ok s" "lock_free L_kmem s" "good_page (kend s) pa"
  shows "kfree pa s e = Ok () (touched (s\<lparr>mem := store64 (memset (mem s) pa 1 (ucast PGSIZE)) pa (freelist s),
    freelist := pa\<rparr>)) e"
  using assms by (simp add: kfree_def good_page_def page_aligned_def acquire_run leD not_le)

lemma kfree_panics: "\<not> good_page (kend s) pa \<Longrightarrow> kfree pa s e = Panic ''kfree''"
proof -
  assume "\<not> good_page (kend s) pa"
  then have "pa mod PGSIZE \<noteq> 0 \<or> pa < kend s \<or> pa \<ge> PHYSTOP"
    unfolding good_page_def page_aligned_def by (meson not_less)
  then show ?thesis unfolding kfree_def bind_def gets_def by (simp only: if_True outcome.case panic_run)
qed

lemma kalloc_run:
  assumes "cpu_ok s" "lock_free L_kmem s"
  shows "kalloc s e = (if freelist s = 0 then Ok 0 (touched s) e
    else Ok (freelist s) (touched (s\<lparr>freelist := load64 (mem s) (freelist s),
           mem := memset (mem s) (freelist s) 5 (ucast PGSIZE)\<rparr>)) e)"
  using assms by (simp add: kalloc_def acquire_run)

lemma good_page_nonzero: "good_page fin p \<Longrightarrow> fin \<noteq> 0 \<Longrightarrow> p \<noteq> 0"
  by (auto simp: good_page_def)

lemma kfree_free_pages:
  assumes "cpu_ok s" "lock_free L_kmem s" "free_pages s ps" "good_page (kend s) pa" "pa \<notin> set ps"
  shows "\<exists>m. kfree pa s e = Ok () (touched (s\<lparr>mem := m, freelist := pa\<rparr>)) e \<and>
     free_pages (s\<lparr>mem := m, freelist := pa\<rparr>) (pa # ps) \<and> (\<forall>a. \<not> in_page pa a \<longrightarrow> m a = mem s a)"
proof -
  let ?m = "store64 (memset (mem s) pa 1 (ucast PGSIZE)) pa (freelist s)"
  have al: "page_aligned pa" using assms(4) by (simp add: good_page_def)
  then have out: "?m a = mem s a" if "\<not> in_page pa a" for a
  proof -
    have "\<not> within pa 8 a" using that within_8_page [OF al] by blast
    then show ?thesis by (simp add: store64_other memset_page al that)
  qed
  moreover have "chain ?m (freelist s) ps = chain (mem s) (freelist s) ps"
    using assms(3,5) out by (intro chain_cong) (simp_all add: free_pages_def good_page_def, metis in_page_def)
  ultimately show ?thesis
    using assms kfree_run [OF assms(1,2,4)]
    by (intro exI [of _ ?m]) (auto simp: free_pages_def good_page_nonzero)
qed

lemma kalloc_free_pages:
  assumes "cpu_ok s" "lock_free L_kmem s" "free_pages s (p # ps)"
  shows "\<exists>m n. kalloc s e = Ok p (touched (s\<lparr>freelist := n, mem := m\<rparr>)) e \<and>
     free_pages (s\<lparr>freelist := n, mem := m\<rparr>) ps \<and> (\<forall>a. m a = (if in_page p a then 5 else mem s a))"
proof -
  let ?m = "memset (mem s) p 5 (ucast PGSIZE)"
  have p: "freelist s = p" "p \<noteq> 0" "page_aligned p" "p \<notin> set ps"
    using assms(3) by (auto simp: free_pages_def good_page_def)
  then have m: "?m a = (if in_page p a then 5 else mem s a)" for a
    by (simp add: memset_page)
  moreover have "chain ?m (load64 (mem s) p) ps = chain (mem s) (load64 (mem s) p) ps"
    by (rule chain_cong) (use assms(3) p(4) m in \<open>auto simp: free_pages_def good_page_def in_page_def\<close>)
  ultimately show ?thesis
    using assms kalloc_run [OF assms(1,2)] p
    by (intro exI [of _ ?m] exI [of _ "load64 (mem s) p"]) (auto simp: free_pages_def)
qed

lemma kalloc_empty:
  assumes "cpu_ok s" "lock_free L_kmem s" "free_pages s []"
  shows "kalloc s e = Ok 0 (touched s) e"
  using assms kalloc_run [OF assms(1,2)] by (simp add: free_pages_def)

section \<open>The allocator contract\<close>

definition kmem_inv :: "uint64 \<Rightarrow> 'm kmach_scheme \<Rightarrow> uint64 set \<Rightarrow> bool" where
  "kmem_inv fin s F \<longleftrightarrow> cpu_ok s \<and> lock_free L_kmem s \<and> kend s = fin \<and> (\<exists>ps. free_pages s ps \<and> set ps = F)"

definition kalloc_opt :: "('m kmach_scheme, uint64 option) kern" where
  "kalloc_opt = bind kalloc (\<lambda>r. ret (if r = 0 then None else Some r))"

lemma free_pages_touched [simp]: "free_pages (touched s) ps = free_pages s ps"
  by (simp add: free_pages_def)

lemma kmem_inv_kalloc:
  assumes "kmem_inv fin s F"
  shows "returns kalloc_opt s e (\<lambda>r t u. u = e \<and>
    (case r of None \<Rightarrow> F = {} \<and> kmem_inv fin t F | Some a \<Rightarrow> a \<in> F \<and> kmem_inv fin t (F - {a})))"
proof -
  obtain ps where ps: "free_pages s ps" "set ps = F" "cpu_ok s" "lock_free L_kmem s" "kend s = fin"
    using assms by (auto simp: kmem_inv_def)
  show ?thesis
  proof (cases ps)
    case Nil
    with ps kalloc_empty [of s e] show ?thesis
      by (auto simp: kalloc_opt_def returns_def bind_run kmem_inv_def)
  next
    case (Cons p qs)
    then obtain m n where "kalloc s e = Ok p (touched (s\<lparr>freelist := n, mem := m\<rparr>)) e"
      "free_pages (s\<lparr>freelist := n, mem := m\<rparr>) qs"
      using ps kalloc_free_pages [of s p qs e] by auto
    moreover have "p \<noteq> 0" "p \<notin> set qs" using ps(1) Cons by (auto simp: free_pages_def)
    ultimately show ?thesis
      using ps Cons by (auto simp: kalloc_opt_def returns_def bind_run kmem_inv_def)
  qed
qed

lemma kmem_inv_kfree:
  assumes "kmem_inv fin s F" "good_page fin a" "a \<notin> F"
  shows "returns (kfree a) s e (\<lambda>_ t u. u = e \<and> kmem_inv fin t (insert a F))"
proof -
  obtain ps where ps: "free_pages s ps" "set ps = F" "cpu_ok s" "lock_free L_kmem s" "kend s = fin"
    using assms(1) by (auto simp: kmem_inv_def)
  then obtain m where "kfree a s e = Ok () (touched (s\<lparr>mem := m, freelist := a\<rparr>)) e"
    "free_pages (s\<lparr>mem := m, freelist := a\<rparr>) (a # ps)"
    using assms kfree_free_pages [of s ps a e] by auto
  then show ?thesis
    using ps by (auto simp: returns_def kmem_inv_def intro!: exI [of _ "a # ps"])
qed

interpretation pages: allocator "kmem_inv fin" kalloc_opt kfree "{p. good_page fin p}" for fin
  by unfold_locales (auto intro: kmem_inv_kalloc kmem_inv_kfree)

section \<open>Starting the allocator\<close>

lemma PHYSTOP_nat: "unat PHYSTOP = 2281701376"
  by (simp add: PHYSTOP_def KERNBASE_def)

lemma page_aligned_PHYSTOP: "page_aligned PHYSTOP"
  by (simp add: page_aligned_unat PHYSTOP_nat)

lemma PGROUNDUP_bounds:
  assumes "a \<le> PHYSTOP"
  shows "page_aligned (PGROUNDUP a)" "a \<le> PGROUNDUP a" "PGROUNDUP a \<le> PHYSTOP"
    "page_aligned p \<Longrightarrow> a \<le> p \<Longrightarrow> PGROUNDUP a \<le> p"
proof -
  have a: "unat a \<le> 2281701376" using assms by (simp add: word_le_nat_alt PHYSTOP_nat)
  then have up: "unat (PGROUNDUP a) = (unat a + 4095) div 4096 * 4096"
    by (intro unat_PGROUNDUP) simp
  show "page_aligned (PGROUNDUP a)" "a \<le> PGROUNDUP a"
    using round_up_bounds(1) [of "unat a"] by (simp_all add: page_aligned_unat up word_le_nat_alt)
  show "PGROUNDUP a \<le> PHYSTOP"
    using round_up_least [OF a] by (simp add: word_le_nat_alt up PHYSTOP_nat)
  show "page_aligned p \<Longrightarrow> a \<le> p \<Longrightarrow> PGROUNDUP a \<le> p"
    using round_up_least [of "unat a" "unat p"] by (simp add: page_aligned_unat word_le_nat_alt up)
qed

lemma next_page:
  assumes "page_aligned p" "p \<le> PHYSTOP"
  shows "p + PGSIZE \<le> PHYSTOP \<longleftrightarrow> p < PHYSTOP" "unat (p + PGSIZE) = unat p + 4096"
    "page_aligned (p + PGSIZE)"
proof -
  show u: "unat (p + PGSIZE) = unat p + 4096"
    using assms(2) by (simp add: PGSIZE_def unat_plus_if' word_le_nat_alt PHYSTOP_nat)
  show "p + PGSIZE \<le> PHYSTOP \<longleftrightarrow> p < PHYSTOP"
    using page_aligned_less [OF assms(1) page_aligned_PHYSTOP]
    by (simp add: word_le_nat_alt word_less_nat_alt u)
  show "page_aligned (p + PGSIZE)" using assms(1) by (simp add: page_aligned_add)
qed

lemma pages_below_step:
  assumes "good_page fin p"
  shows "insert p {q. good_page fin q \<and> q < p} = {q. good_page fin q \<and> q < p + PGSIZE}"
proof -
  have p: "page_aligned p" "p \<le> PHYSTOP" using assms by (auto simp: good_page_def)
  have "q < p + PGSIZE \<longleftrightarrow> q < p \<or> q = p" if "good_page fin q" for q
  proof -
    have "q < p + PGSIZE \<longleftrightarrow> \<not> unat p < unat q"
      using page_aligned_less [OF p(1), of q] that
      by (simp add: good_page_def word_less_nat_alt next_page(2) [OF p] not_le)
    then show ?thesis by (auto simp: word_less_nat_alt word_unat_eq_iff)
  qed
  then show ?thesis using assms by blast
qed

lemma freerange_free_pages:
  fixes s :: "'m kmach_scheme"
  assumes "cpu_ok s" "lock_free L_kmem s" "free_pages s []" "kend s \<le> PHYSTOP"
  shows "returns (freerange (kend s) PHYSTOP) s e (\<lambda>_ t u. u = e \<and> kmem_inv (kend s) t {p. good_page (kend s) p})"
proof -
  let ?fin = "kend s"
  let ?I = "\<lambda>p (t :: 'm kmach_scheme) u. u = e \<and> page_aligned p \<and> ?fin \<le> p \<and> p \<le> PHYSTOP \<and>
    kmem_inv ?fin t {q. good_page ?fin q \<and> q < p}"
  have init: "?I (PGROUNDUP ?fin) s e"
    using assms PGROUNDUP_bounds [OF assms(4)] by (force simp: kmem_inv_def good_page_def)
  have "returns (whileM (\<lambda>p s. p + PGSIZE \<le> PHYSTOP) (\<lambda>p. seq (kfree p) (ret (p + PGSIZE))) (PGROUNDUP ?fin)) s e
    (\<lambda>_ t u. u = e \<and> kmem_inv ?fin t {p. good_page ?fin p})"
  proof (rule returns_while [where I = ?I and m = "\<lambda>p _ _. unat PHYSTOP - unat p"], rule init)
    fix p u and t :: "'m kmach_scheme" assume I: "?I p t u" and c: "p + PGSIZE \<le> PHYSTOP"
    then have p: "p < PHYSTOP" "unat (p + PGSIZE) = unat p + 4096" "page_aligned (p + PGSIZE)"
      using next_page [of p] by auto
    then have good: "good_page ?fin p" using I by (simp add: good_page_def)
    have "returns (kfree p) t e (\<lambda>_ t u. u = e \<and> kmem_inv ?fin t (insert p {q. good_page ?fin q \<and> q < p}))"
      using I good by (intro kmem_inv_kfree) auto
    moreover have "?fin \<le> p + PGSIZE" "unat PHYSTOP - unat (p + PGSIZE) < unat PHYSTOP - unat p"
      using I p by (simp_all add: word_le_nat_alt word_less_nat_alt)
    ultimately show "returns (seq (kfree p) (ret (p + PGSIZE))) t u
        (\<lambda>p' t u. ?I p' t u \<and> unat PHYSTOP - unat p' < unat PHYSTOP - unat p)"
      using I p(3) c unfolding pages_below_step [OF good] by (auto elim: returns_mono)
  next
    fix p u and t :: "'m kmach_scheme" assume I: "?I p t u" and c: "\<not> p + PGSIZE \<le> PHYSTOP"
    then have "p = PHYSTOP" using next_page(1) [of p] by auto
    moreover have "{q. good_page ?fin q \<and> q < PHYSTOP} = {q. good_page ?fin q}"
      by (auto simp: good_page_def)
    ultimately show "u = e \<and> kmem_inv ?fin t {p. good_page ?fin p}" using I by simp
  qed
  then show ?thesis by (simp add: freerange_def)
qed

definition kboot :: "uint64 \<Rightarrow> kmach" where
  "kboot fin = mach.extend boot_mach (kmach.fields (\<lambda>_. 0) fin 0)"

lemma kinit_inv:
  assumes "cpu_ok s" "freelist s = 0" "kend s \<noteq> 0" "kend s \<le> PHYSTOP"
  shows "returns kinit s e (\<lambda>_ t u. u = e \<and> kmem_inv (kend s) t {p. good_page (kend s) p})"
proof -
  let ?t = "set_lock L_kmem (\<lambda>l. l\<lparr>lk_name := ''kmem'', locked := False, lk_cpu := None\<rparr>) s"
  have "returns (freerange (kend ?t) PHYSTOP) ?t e
      (\<lambda>_ t u. u = e \<and> kmem_inv (kend ?t) t {p. good_page (kend ?t) p})"
    using assms
    by (intro freerange_free_pages) (simp_all add: free_pages_def lock_free_def set_lock_def)
  then show ?thesis by (simp add: kinit_def initlock_def set_lock_def)
qed

text \<open>
  C15: after \<^verbatim>\<open>kinit\<close>, whatever sequence of \<^verbatim>\<open>kalloc\<close> and \<^verbatim>\<open>kfree\<close> calls the kernel
  makes (freeing only pages it holds), no call panics, no page is handed out
  while it is held, and every page between the end of the kernel and
  \<^verbatim>\<open>PHYSTOP\<close> is either held or on the free list.
\<close>

theorem kalloc_never_leaks:
  assumes "cpu_ok s" "freelist s = 0" "kend s \<noteq> 0" "kend s \<le> PHYSTOP"
  shows "returns (seq kinit (alloc_client kalloc_opt kfree ops {})) s e
    (\<lambda>H t u. u = e \<and> (\<exists>F. kmem_inv (kend s) t F \<and> H \<inter> F = {} \<and> H \<union> F = {p. good_page (kend s) p}))"
proof -
  have "returns kinit s e (\<lambda>_ t u. returns (alloc_client kalloc_opt kfree ops {}) t u
     (\<lambda>H t u. u = e \<and> (\<exists>F. kmem_inv (kend s) t F \<and> H \<inter> F = {} \<and> H \<union> F = {p. good_page (kend s) p})))"
    by (rule returns_mono [OF kinit_inv [OF assms]])
       (auto intro: pages.client_conserves)
  then show ?thesis by simp
qed

theorem kalloc_never_leaks_witness:
  "kend (kboot 0x80020000) = 0x80020000 \<and>
   returns (seq kinit (alloc_client kalloc_opt kfree [Do_alloc, Do_alloc, Do_free 0x80020000] {})) (kboot 0x80020000) []
    (\<lambda>H t u. u = [] \<and> (\<exists>F. kmem_inv 0x80020000 t F \<and> H \<inter> F = {} \<and> H \<union> F = {p. good_page 0x80020000 p}))"
proof -
  have "cpu_ok (kboot 0x80020000)" "freelist (kboot 0x80020000) = 0" "kend (kboot 0x80020000) = 0x80020000"
    by (simp_all add: kboot_def boot_mach_def mach.defs kmach.defs cpu_ok_def mycpu_def cpuid_def)
  then show ?thesis
    using kalloc_never_leaks [of "kboot 0x80020000" "[Do_alloc, Do_alloc, Do_free 0x80020000]" "[]"]
    by (simp add: PHYSTOP_def KERNBASE_def del: alloc_client.simps returns_seq)
qed

end
