(* ===== verification/Vm.thy ===== *)
theory Vm
  imports Kalloc
begin

text \<open>
  Page tables and user memory: \<^verbatim>\<open>kernel/vm.c\<close>, with \<open>proc_mapstacks\<close> of
  \<^verbatim>\<open>kernel/proc.c\<close>.  A page table is a tree in physical memory, three levels of
  pages of 512 eight-byte entries; a pointer to an entry is its address, and 0
  is the null pointer.  \<^verbatim>\<open>copyout\<close> takes the bytes of its kernel source, \<^verbatim>\<open>copyin\<close>
  and \<^verbatim>\<open>copyinstr\<close> give the bytes they have stored at their kernel destination
  beside the status.
\<close>

section \<open>Page table entries\<close>

definition PTE_V :: uint64 where "PTE_V = push_bit 0 1"
definition PTE_R :: uint64 where "PTE_R = push_bit 1 1"
definition PTE_W :: uint64 where "PTE_W = push_bit 2 1"
definition PTE_X :: uint64 where "PTE_X = push_bit 3 1"
definition PTE_U :: uint64 where "PTE_U = push_bit 4 1"

definition PA2PTE :: "uint64 \<Rightarrow> uint64" where "PA2PTE pa = push_bit 10 (drop_bit 12 pa)"
definition PTE2PA :: "uint64 \<Rightarrow> uint64" where "PTE2PA pte = push_bit 12 (drop_bit 10 pte)"
definition PTE_FLAGS :: "uint64 \<Rightarrow> uint64" where "PTE_FLAGS pte = pte AND 0x3FF"
definition PXMASK :: uint64 where "PXMASK = 0x1FF"
definition PXSHIFT :: "nat \<Rightarrow> nat" where "PXSHIFT level = PGSHIFT + 9 * level"
definition PX :: "nat \<Rightarrow> uint64 \<Rightarrow> uint64" where "PX level va = drop_bit (PXSHIFT level) va AND PXMASK"
definition SATP_SV39 :: uint64 where "SATP_SV39 = push_bit 60 8"
definition MAKE_SATP :: "uint64 \<Rightarrow> uint64" where "MAKE_SATP pt = SATP_SV39 OR drop_bit 12 pt"

text \<open>
  \<open>kernel_pagetable\<close> is the global of that name, \<open>etext\<close> and \<open>trampoline\<close> are linker
  symbols, \<open>satp\<close> is the register of each hart.
\<close>

record vmach = kmach +
  kernel_pagetable :: uint64
  etext :: uint64
  trampoline :: uint64
  satp :: "nat \<Rightarrow> uint64"

section \<open>Walking and mapping\<close>

definition poke :: "uint64 \<Rightarrow> uint64 \<Rightarrow> ('m kmach_scheme, unit) kern" where
  "poke a v = modify (\<lambda>s. s\<lparr>mem := store64 (mem s) a v\<rparr>)"

definition fill :: "uint64 \<Rightarrow> uchar \<Rightarrow> ('m kmach_scheme, unit) kern" where
  "fill a c = modify (\<lambda>s. s\<lparr>mem := memset (mem s) a c (ucast PGSIZE)\<rparr>)"

text \<open>The loop of \<^verbatim>\<open>walk\<close>, from the given level down to the leaf table.\<close>

primrec walk_from :: "nat \<Rightarrow> uint64 \<Rightarrow> uint64 \<Rightarrow> bool \<Rightarrow> ('m kmach_scheme, uint64) kern" where
  "walk_from 0 pt va alloc = ret (pt + 8 * PX 0 va)"
| "walk_from (Suc l) pt va alloc =
     bind (gets (\<lambda>s. load64 (mem s) (pt + 8 * PX (Suc l) va))) (\<lambda>pte.
     if pte AND PTE_V \<noteq> 0 then walk_from l (PTE2PA pte) va alloc
     else if \<not> alloc then ret 0 else
     bind kalloc (\<lambda>new.
     if new = 0 then ret 0 else
     seq (fill new 0) (
     seq (poke (pt + 8 * PX (Suc l) va) (PA2PTE new OR PTE_V)) (
     walk_from l new va alloc))))"

definition walk :: "uint64 \<Rightarrow> uint64 \<Rightarrow> bool \<Rightarrow> ('m kmach_scheme, uint64) kern" where
  "walk pt va alloc = (if va \<ge> MAXVA then panic ''walk'' else walk_from 2 pt va alloc)"

definition walkaddr :: "uint64 \<Rightarrow> uint64 \<Rightarrow> ('m kmach_scheme, uint64) kern" where
  "walkaddr pt va =
     (if va \<ge> MAXVA then ret 0 else
     bind (walk pt va False) (\<lambda>pte.
     if pte = 0 then ret 0 else
     bind (gets (\<lambda>s. load64 (mem s) pte)) (\<lambda>v.
     if v AND PTE_V = 0 then ret 0
     else if v AND PTE_U = 0 then ret 0
     else ret (PTE2PA v))))"

text \<open>
  One turn of the loop of \<^verbatim>\<open>mappages\<close>, with its variables \<open>a\<close> and \<open>pa\<close> and, once it is
  known, the value to return.
\<close>

definition mappages_step ::
  "uint64 \<Rightarrow> uint64 \<Rightarrow> uint64 \<Rightarrow> uint64 \<times> uint64 \<times> int option \<Rightarrow> ('m kmach_scheme, uint64 \<times> uint64 \<times> int option) kern" where
  "mappages_step pt final perm = (\<lambda>(a, pa, r).
     bind (walk pt a True) (\<lambda>pte.
     if pte = 0 then ret (a, pa, Some (-1)) else
     bind (gets (\<lambda>s. load64 (mem s) pte)) (\<lambda>v.
     if v AND PTE_V \<noteq> 0 then panic ''mappages: remap'' else
     seq (poke pte (PA2PTE pa OR perm OR PTE_V)) (
     if a = final then ret (a, pa, Some 0) else ret (a + PGSIZE, pa + PGSIZE, None)))))"

definition mappages :: "uint64 \<Rightarrow> uint64 \<Rightarrow> uint64 \<Rightarrow> uint64 \<Rightarrow> uint64 \<Rightarrow> ('m kmach_scheme, int) kern" where
  "mappages pt va len pa perm =
     (if len = 0 then panic ''mappages: size'' else
      let final = PGROUNDDOWN (va + len - 1) in
      bind (whileM (\<lambda>(a, pa, r) _. r = None) (mappages_step pt final perm) (PGROUNDDOWN va, pa, None))
        (\<lambda>(_, _, r). ret (the r)))"

definition kvmmap :: "uint64 \<Rightarrow> uint64 \<Rightarrow> uint64 \<Rightarrow> uint64 \<Rightarrow> uint64 \<Rightarrow> ('m kmach_scheme, unit) kern" where
  "kvmmap kpgtbl va pa len perm =
     bind (mappages kpgtbl va len pa perm) (\<lambda>r. if r \<noteq> 0 then panic ''kvmmap'' else ret ())"

definition proc_mapstacks :: "uint64 \<Rightarrow> ('m kmach_scheme, unit) kern" where
  "proc_mapstacks kpgtbl = for_each [0..<NPROC] (\<lambda>p.
     bind kalloc (\<lambda>pa.
     if pa = 0 then panic ''kalloc'' else
     kvmmap kpgtbl (KSTACK (of_nat p)) pa PGSIZE (PTE_R OR PTE_W)))"

definition kvmmake :: "('m vmach_scheme, uint64) kern" where
  "kvmmake =
     bind kalloc (\<lambda>kpgtbl.
     seq (fill kpgtbl 0) (
     seq (kvmmap kpgtbl UART0 UART0 PGSIZE (PTE_R OR PTE_W)) (
     seq (kvmmap kpgtbl VIRTIO0 VIRTIO0 PGSIZE (PTE_R OR PTE_W)) (
     seq (kvmmap kpgtbl PLIC PLIC 0x400000 (PTE_R OR PTE_W)) (
     bind (gets etext) (\<lambda>et.
     seq (kvmmap kpgtbl KERNBASE KERNBASE (et - KERNBASE) (PTE_R OR PTE_X)) (
     seq (kvmmap kpgtbl et et (PHYSTOP - et) (PTE_R OR PTE_W)) (
     bind (gets trampoline) (\<lambda>tr.
     seq (kvmmap kpgtbl TRAMPOLINE tr PGSIZE (PTE_R OR PTE_X)) (
     seq (proc_mapstacks kpgtbl) (
     ret kpgtbl)))))))))))"

definition kvminit :: "('m vmach_scheme, unit) kern" where
  "kvminit = bind kvmmake (\<lambda>kp. modify (\<lambda>s. s\<lparr>kernel_pagetable := kp\<rparr>))"

text \<open>\<^verbatim>\<open>sfence_vma\<close> orders and flushes translations; the model reads the tables in memory.\<close>

definition kvminithart :: "('m vmach_scheme, unit) kern" where
  "kvminithart = modify (\<lambda>s. s\<lparr>satp := (satp s)(hart s := MAKE_SATP (kernel_pagetable s))\<rparr>)"

section \<open>User address spaces\<close>

definition uvmunmap :: "uint64 \<Rightarrow> uint64 \<Rightarrow> uint64 \<Rightarrow> bool \<Rightarrow> ('m kmach_scheme, unit) kern" where
  "uvmunmap pt va npages do_free =
     (if va mod PGSIZE \<noteq> 0 then panic ''uvmunmap: not aligned'' else
      bind (whileM (\<lambda>a _. a < va + npages * PGSIZE)
        (\<lambda>a.
           bind (walk pt a False) (\<lambda>pte.
           if pte = 0 then panic ''uvmunmap: walk'' else
           bind (gets (\<lambda>s. load64 (mem s) pte)) (\<lambda>v.
           if v AND PTE_V = 0 then panic ''uvmunmap: not mapped''
           else if PTE_FLAGS v = PTE_V then panic ''uvmunmap: not a leaf'' else
           seq (whenM do_free (kfree (PTE2PA v))) (
           seq (poke pte 0) (
           ret (a + PGSIZE))))))
        va) (\<lambda>_. ret ()))"

definition uvmcreate :: "('m kmach_scheme, uint64) kern" where
  "uvmcreate =
     bind kalloc (\<lambda>pt.
     if pt = 0 then ret 0 else
     seq (fill pt 0) (
     ret pt))"

definition uvmfirst :: "uint64 \<Rightarrow> uchar list \<Rightarrow> ('m kmach_scheme, unit) kern" where
  "uvmfirst pt src =
     (if of_nat (length src) \<ge> PGSIZE then panic ''uvmfirst: more than a page'' else
      bind kalloc (\<lambda>p.
      seq (fill p 0) (
      bind (mappages pt 0 PGSIZE p (PTE_W OR PTE_R OR PTE_X OR PTE_U)) (\<lambda>_.
      modify (\<lambda>s. s\<lparr>mem := write_bytes (mem s) p src\<rparr>)))))"

text \<open>\<^verbatim>\<open>int npages\<close> holds the low 32 bits and is extended with its sign for \<^verbatim>\<open>uvmunmap\<close>.\<close>

definition uvmdealloc :: "uint64 \<Rightarrow> uint64 \<Rightarrow> uint64 \<Rightarrow> ('m kmach_scheme, uint64) kern" where
  "uvmdealloc pt oldsz newsz =
     (if newsz \<ge> oldsz then ret oldsz else
      seq (whenM (PGROUNDUP newsz < PGROUNDUP oldsz)
        (let npages = ucast ((PGROUNDUP oldsz - PGROUNDUP newsz) div PGSIZE) :: uint
         in uvmunmap pt (PGROUNDUP newsz) (scast npages) True)) (
      ret newsz))"

definition uvmalloc :: "uint64 \<Rightarrow> uint64 \<Rightarrow> uint64 \<Rightarrow> uint64 \<Rightarrow> ('m kmach_scheme, uint64) kern" where
  "uvmalloc pt oldsz newsz xperm =
     (if newsz < oldsz then ret oldsz else
      let base = PGROUNDUP oldsz in
      bind (whileM (\<lambda>(a, r) _. r = None \<and> a < newsz)
        (\<lambda>(a, r).
           bind kalloc (\<lambda>p.
           if p = 0 then seq (bind (uvmdealloc pt a base) (\<lambda>_. ret ())) (ret (a, Some 0)) else
           seq (fill p 0) (
           bind (mappages pt a PGSIZE p (PTE_R OR PTE_U OR xperm)) (\<lambda>m.
           if m \<noteq> 0 then
             seq (kfree p) (
             seq (bind (uvmdealloc pt a base) (\<lambda>_. ret ())) (
             ret (a, Some 0)))
           else ret (a + PGSIZE, None)))))
        (base, None)) (\<lambda>(_, r). ret (case r of Some v \<Rightarrow> v | None \<Rightarrow> newsz)))"

text \<open>
  \<open>freewalk d pt\<close> frees a table of at most \<open>d\<close> levels; the recursion of the code
  below that depth is not followed (a call that deep is \<open>Diverges\<close>).  Tables have
  three levels.
\<close>

primrec freewalk :: "nat \<Rightarrow> uint64 \<Rightarrow> ('m kmach_scheme, unit) kern" where
  "freewalk 0 pt = (\<lambda>s e. Diverges)"
| "freewalk (Suc d) pt =
     seq (for_each [0..<512] (\<lambda>i.
       bind (gets (\<lambda>s. load64 (mem s) (pt + 8 * of_nat i))) (\<lambda>pte.
       if pte AND PTE_V \<noteq> 0 \<and> pte AND (PTE_R OR PTE_W OR PTE_X) = 0 then
         seq (freewalk d (PTE2PA pte)) (poke (pt + 8 * of_nat i) 0)
       else if pte AND PTE_V \<noteq> 0 then panic ''freewalk: leaf''
       else ret ()))) (
     kfree pt)"

definition uvmfree :: "uint64 \<Rightarrow> uint64 \<Rightarrow> ('m kmach_scheme, unit) kern" where
  "uvmfree pt len =
     seq (whenM (len > 0) (uvmunmap pt 0 (PGROUNDUP len div PGSIZE) True)) (
     freewalk 3 pt)"

definition uvmcopy :: "uint64 \<Rightarrow> uint64 \<Rightarrow> uint64 \<Rightarrow> ('m kmach_scheme, int) kern" where
  "uvmcopy old new len =
     bind (whileM (\<lambda>(i, err) _. \<not> err \<and> i < len)
       (\<lambda>(i, err).
          bind (walk old i False) (\<lambda>pte.
          if pte = 0 then panic ''uvmcopy: pte should exist'' else
          bind (gets (\<lambda>s. load64 (mem s) pte)) (\<lambda>v.
          if v AND PTE_V = 0 then panic ''uvmcopy: page not present'' else
          bind kalloc (\<lambda>p.
          if p = 0 then ret (i, True) else
          seq (modify (\<lambda>s. s\<lparr>mem := memmove (mem s) p (PTE2PA v) (ucast PGSIZE)\<rparr>)) (
          bind (mappages new i PGSIZE p (PTE_FLAGS v)) (\<lambda>m.
          if m \<noteq> 0 then seq (kfree p) (ret (i, True)) else ret (i + PGSIZE, False)))))))
       (0, False)) (\<lambda>(i, err).
     if err then seq (uvmunmap new 0 (i div PGSIZE) True) (ret (-1)) else ret 0)"

definition uvmclear :: "uint64 \<Rightarrow> uint64 \<Rightarrow> ('m kmach_scheme, unit) kern" where
  "uvmclear pt va =
     bind (walk pt va False) (\<lambda>pte.
     if pte = 0 then panic ''uvmclear'' else
     bind (gets (\<lambda>s. load64 (mem s) pte)) (\<lambda>v.
     poke pte (v AND NOT PTE_U)))"

section \<open>Copying between kernel and user\<close>

definition copyout_step ::
  "uint64 \<Rightarrow> uint64 \<times> uchar list \<times> int option \<Rightarrow> ('m kmach_scheme, uint64 \<times> uchar list \<times> int option) kern" where
  "copyout_step pt = (\<lambda>(dstva, src, r).
     let va0 = PGROUNDDOWN dstva in
     bind (walkaddr pt va0) (\<lambda>pa0.
     if pa0 = 0 then ret (dstva, src, Some (-1)) else
     let n = min (unat (PGSIZE - (dstva - va0))) (length src) in
     seq (modify (\<lambda>s. s\<lparr>mem := write_bytes (mem s) (pa0 + (dstva - va0)) (take n src)\<rparr>)) (
     ret (va0 + PGSIZE, drop n src, None))))"

definition copyout :: "uint64 \<Rightarrow> uint64 \<Rightarrow> uchar list \<Rightarrow> ('m kmach_scheme, int) kern" where
  "copyout pt dstva src =
     bind (whileM (\<lambda>(dstva, src, r) _. r = None \<and> src \<noteq> []) (copyout_step pt) (dstva, src, None))
       (\<lambda>(_, _, r). ret (case r of Some v \<Rightarrow> v | None \<Rightarrow> 0))"

definition copyin_step ::
  "uint64 \<Rightarrow> uint64 \<times> nat \<times> uchar list \<times> int option \<Rightarrow> ('m kmach_scheme, uint64 \<times> nat \<times> uchar list \<times> int option) kern" where
  "copyin_step pt = (\<lambda>(srcva, len, dst, r).
     let va0 = PGROUNDDOWN srcva in
     bind (walkaddr pt va0) (\<lambda>pa0.
     if pa0 = 0 then ret (srcva, len, dst, Some (-1)) else
     let n = min (unat (PGSIZE - (srcva - va0))) len in
     bind (gets (\<lambda>s. read_bytes (mem s) (pa0 + (srcva - va0)) n)) (\<lambda>bs.
     ret (va0 + PGSIZE, len - n, dst @ bs, None))))"

definition copyin :: "uint64 \<Rightarrow> uint64 \<Rightarrow> nat \<Rightarrow> ('m kmach_scheme, int \<times> uchar list) kern" where
  "copyin pt srcva len =
     bind (whileM (\<lambda>(srcva, len, dst, r) _. r = None \<and> len > 0) (copyin_step pt) (srcva, len, [], None))
       (\<lambda>(_, _, dst, r). ret (case r of Some v \<Rightarrow> v | None \<Rightarrow> 0, dst))"

text \<open>The inner loop of \<^verbatim>\<open>copyinstr\<close>: the bytes stored, and whether the last one is the NUL.\<close>

primrec copystr :: "bytemem \<Rightarrow> uint64 \<Rightarrow> nat \<Rightarrow> uchar list \<times> bool" where
  "copystr m p 0 = ([], False)"
| "copystr m p (Suc n) =
     (if m p = 0 then ([0], True)
      else let (bs, z) = copystr m (p + 1) n in (m p # bs, z))"

definition copyinstr :: "uint64 \<Rightarrow> uint64 \<Rightarrow> nat \<Rightarrow> ('m kmach_scheme, int \<times> uchar list) kern" where
  "copyinstr pt srcva left =
     bind (whileM (\<lambda>(srcva, left, dst, got_null, r) _. r = None \<and> \<not> got_null \<and> left > 0)
       (\<lambda>(srcva, left, dst, got_null, r).
          let va0 = PGROUNDDOWN srcva in
          bind (walkaddr pt va0) (\<lambda>pa0.
          if pa0 = 0 then ret (srcva, left, dst, got_null, Some (-1)) else
          let n = min (unat (PGSIZE - (srcva - va0))) left in
          bind (gets (\<lambda>s. copystr (mem s) (pa0 + (srcva - va0)) n)) (\<lambda>(bs, z).
          ret (va0 + PGSIZE, if z then left - (length bs - 1) else left - length bs, dst @ bs, z, None))))
       (srcva, left, [], False, None)) (\<lambda>(_, _, dst, got_null, r).
     ret (case r of Some v \<Rightarrow> v | None \<Rightarrow> if got_null then 0 else -1, dst))"

end
