(* ===== verification/Pagetable.thy ===== *)
theory Pagetable
  imports Vm
begin

text \<open>
  Page tables as finite maps.  A table is a tree of distinct pages (\<open>tree\<close>); what
  it maps is the function \<open>pte\<close> from virtual addresses to leaf entries.  Walking
  with allocation grows the tree and changes no leaf entry, writing a leaf
  entry changes what one page of virtual addresses maps to, so \<^verbatim>\<open>mappages\<close>,
  \<^verbatim>\<open>uvmunmap\<close> and \<^verbatim>\<open>walkaddr\<close> are update, delete and lookup of a map.
\<close>

section \<open>Entries\<close>

lemma PTE_V_1: "PTE_V = 1"
  by (simp add: PTE_V_def)

lemma and_PTE_V: "v AND PTE_V \<noteq> 0 \<longleftrightarrow> bit v 0"
  by (simp add: PTE_V_1 and_one_eq odd_iff_mod_2_eq_one bit_0)

lemma and_PTE_U: "v AND PTE_U \<noteq> 0 \<longleftrightarrow> bit v 4"
  using and_exp_eq_0_iff_not_bit [of v 4] by (simp add: PTE_U_def)

lemma PTE2PA_make:
  assumes "drop_bit 10 perm = 0"
  shows "PTE2PA (PA2PTE pa OR perm OR PTE_V) = PGROUNDDOWN pa"
proof (rule bit_word_eqI)
  fix n assume n: "n < LENGTH(64)"
  have "\<not> bit perm (10 + k)" for k
    using assms by (metis bit_0_eq bit_drop_bit_eq bot_apply bot_bool_def comp_apply)
  from this [of "n - 12"] n show "bit (PTE2PA (PA2PTE pa OR perm OR PTE_V)) n = bit (PGROUNDDOWN pa) n"
    by (auto simp: PTE2PA_def PA2PTE_def PTE_V_1 PGROUNDDOWN_bits bit_simps)
qed

lemma make_valid: "bit (w OR PTE_V) 0"
  by (simp add: PTE_V_1 bit_or_iff bit_1_iff)

lemma PX_less: "PX l va < 512"
proof -
  have "PX l va = take_bit 9 (drop_bit (PXSHIFT l) va)"
    by (simp add: PX_def PXMASK_def take_bit_eq_mask mask_eq_exp_minus_1)
  moreover have "unat (take_bit 9 (drop_bit (PXSHIFT l) va)) < 512"
    using take_bit_nat_less_exp [of 9 "unat (drop_bit (PXSHIFT l) va)"] by (simp only: unsigned_take_bit_eq) simp
  ultimately show ?thesis by (simp add: word_less_nat_alt)
qed

lemma within_entry:
  assumes "i < (512 :: uint64)"
  shows "within (pt + 8 * i) 8 x \<longleftrightarrow> unat (x - pt) div 8 = unat i"
proof -
  define d where "d = x - pt - 8 * i"
  have i: "unat i < 512" using assms by (simp add: word_less_nat_alt)
  have i8: "unat (8 * i) = 8 * unat i"
    using i by (simp add: unat_word_ariths)
  show ?thesis
  proof
    assume "within (pt + 8 * i) 8 x"
    then have d: "unat d < 8" by (simp add: within_def d_def algebra_simps)
    have "x - pt = 8 * i + d" by (simp add: d_def)
    moreover have "unat (8 * i + d) = 8 * unat i + unat d"
      using i8 i d by (simp add: unat_plus_if')
    ultimately show "unat (x - pt) div 8 = unat i" using d by simp
  next
    assume eq: "unat (x - pt) div 8 = unat i"
    then have "unat (8 * i) \<le> unat (x - pt)" using i8 by (metis div_times_less_eq_dividend mult.commute)
    then have "unat d = unat (x - pt) - 8 * unat i"
      unfolding d_def using i8 by (simp add: unat_sub word_le_nat_alt)
    also have "\<dots> < 8"
      using eq by (metis minus_mult_div_eq_mod mod_less_divisor zero_less_numeral)
    finally show "within (pt + 8 * i) 8 x" by (simp add: within_def d_def algebra_simps)
  qed
qed

lemma entry_in_page:
  assumes "page_aligned pt" "i < 512" "within (pt + 8 * i) 8 x"
  shows "PGROUNDDOWN x = pt"
proof -
  have "unat (x - pt) div 8 < 512"
    using assms(2,3) within_entry [OF assms(2)] by (simp add: word_less_nat_alt)
  then have "within pt 4096 x" by (simp add: within_def)
  then show ?thesis using within_page [OF assms(1)] by simp
qed

lemma entry_disjoint:
  assumes "i < 512" "j < 512" "i \<noteq> j" "within (pt + 8 * i) 8 x"
  shows "\<not> within (pt + 8 * j) 8 x"
  using assms by (simp add: within_entry) (metis word_unat_eq_iff)

section \<open>Trees\<close>

abbreviation entry :: "bytemem \<Rightarrow> uint64 \<Rightarrow> uint64 \<Rightarrow> uint64" where
  "entry m pt i \<equiv> load64 m (pt + 8 * i)"

text \<open>The address of the leaf entry for \<open>va\<close>, if all tables on the way exist.\<close>

primrec slot :: "bytemem \<Rightarrow> nat \<Rightarrow> uint64 \<Rightarrow> uint64 \<Rightarrow> uint64 option" where
  "slot m 0 pt va = Some (pt + 8 * PX 0 va)"
| "slot m (Suc l) pt va =
     (if bit (entry m pt (PX (Suc l) va)) 0 then slot m l (PTE2PA (entry m pt (PX (Suc l) va))) va else None)"

definition pte :: "bytemem \<Rightarrow> nat \<Rightarrow> uint64 \<Rightarrow> uint64 \<Rightarrow> uint64" where
  "pte m l pt va = (case slot m l pt va of None \<Rightarrow> 0 | Some a \<Rightarrow> load64 m a)"

text \<open>\<open>tree m l pt T\<close>: a table of \<open>l + 1\<close> levels with root \<open>pt\<close>, whose pages are \<open>T\<close>, each used once.\<close>

primrec tree :: "bytemem \<Rightarrow> nat \<Rightarrow> uint64 \<Rightarrow> uint64 set \<Rightarrow> bool" where
  "tree m 0 pt T \<longleftrightarrow> page_aligned pt \<and> T = {pt}"
| "tree m (Suc l) pt T \<longleftrightarrow> page_aligned pt \<and>
     (\<exists>C. T = insert pt (\<Union>i \<in> {..<512}. C i) \<and>
       (\<forall>i < 512. pt \<notin> C i \<and>
          (if bit (entry m pt i) 0 then tree m l (PTE2PA (entry m pt i)) (C i) else C i = {})) \<and>
       (\<forall>i < 512. \<forall>j < 512. i \<noteq> j \<longrightarrow> C i \<inter> C j = {}))"

lemma tree_root: "tree m l pt T \<Longrightarrow> page_aligned pt \<and> pt \<in> T"
  by (cases l) auto

lemma entry_cong:
  assumes "page_aligned pt" "i < 512" "\<And>x. PGROUNDDOWN x = pt \<Longrightarrow> m x = m' x"
  shows "entry m pt i = entry m' pt i"
  using assms entry_in_page by (intro load64_cong) blast

lemma tree_cong:
  assumes "tree m l pt T" "\<And>x. PGROUNDDOWN x \<in> T \<Longrightarrow> m x = m' x"
  shows "tree m' l pt T \<and> (\<forall>va. slot m' l pt va = slot m l pt va)"
  using assms
proof (induction l arbitrary: pt T)
  case 0
  then show ?case by simp
next
  case (Suc l)
  then obtain C where pt: "page_aligned pt" and T: "T = insert pt (\<Union>i \<in> {..<512}. C i)"
    and C: "\<forall>i < 512. pt \<notin> C i \<and>
          (if bit (entry m pt i) 0 then tree m l (PTE2PA (entry m pt i)) (C i) else C i = {})"
    and dis: "\<forall>i < 512. \<forall>j < 512. i \<noteq> j \<longrightarrow> C i \<inter> C j = {}"
    by auto
  have e: "entry m' pt i = entry m pt i" if "i < 512" for i
    using Suc.prems(2) T that by (intro entry_cong [OF pt]) auto
  have ch: "tree m' l (PTE2PA (entry m pt i)) (C i) \<and>
      (\<forall>va. slot m' l (PTE2PA (entry m pt i)) va = slot m l (PTE2PA (entry m pt i)) va)"
    if "i < 512" "bit (entry m pt i) 0" for i
    using C Suc.prems(2) T that by (intro Suc.IH) auto
  have "tree m' (Suc l) pt T"
    unfolding tree.simps by (intro conjI pt exI [of _ C] T dis) (use C e ch in auto)
  moreover have "slot m' (Suc l) pt va = slot m (Suc l) pt va" for va
    using ch [OF PX_less, of "Suc l" va] by (simp add: e PX_less)
  ultimately show ?case by blast
qed

lemma slot_page:
  assumes "tree m l pt T" "slot m l pt va = Some a"
  shows "\<exists>p \<in> T. page_aligned p \<and> a = p + 8 * PX 0 va"
  using assms
proof (induction l arbitrary: pt T)
  case 0
  then show ?case by simp
next
  case (Suc l)
  then obtain C where T: "T = insert pt (\<Union>i \<in> {..<512}. C i)"
    and C: "\<forall>i < 512. pt \<notin> C i \<and>
          (if bit (entry m pt i) 0 then tree m l (PTE2PA (entry m pt i)) (C i) else C i = {})"
    by auto
  have "tree m l (PTE2PA (entry m pt (PX (Suc l) va))) (C (PX (Suc l) va))"
    and "slot m l (PTE2PA (entry m pt (PX (Suc l) va))) va = Some a"
    using C Suc.prems(2) PX_less by (auto split: if_splits)
  from Suc.IH [OF this] show ?case using T PX_less by auto
qed

section \<open>Writing a leaf entry\<close>

text \<open>Two addresses use the same leaf entry if their indices agree at every level.\<close>

definition same_page :: "nat \<Rightarrow> uint64 \<Rightarrow> uint64 \<Rightarrow> bool" where
  "same_page l va va' \<longleftrightarrow> (\<forall>k \<le> l. PX k va = PX k va')"

lemma same_page_0: "same_page 0 va va' \<longleftrightarrow> PX 0 va = PX 0 va'"
  by (simp add: same_page_def)

lemma same_page_Suc: "same_page (Suc l) va va' \<longleftrightarrow> PX (Suc l) va = PX (Suc l) va' \<and> same_page l va va'"
  by (auto simp: same_page_def le_Suc_eq)

lemma slot_same_page: "same_page l va va' \<Longrightarrow> slot m l pt va = slot m l pt va'"
  by (induction l arbitrary: pt) (simp_all add: same_page_0 same_page_Suc)

lemma slots_disjoint:
  assumes "tree m l pt T" "slot m l pt va = Some a" "slot m l pt va' = Some a'" "\<not> same_page l va va'"
    and "within a 8 x"
  shows "\<not> within a' 8 x"
  using assms
proof (induction l arbitrary: pt T)
  case 0
  then show ?case using entry_disjoint [OF PX_less PX_less] by (auto simp: same_page_0)
next
  case (Suc l)
  let ?i = "PX (Suc l) va" and ?j = "PX (Suc l) va'"
  from Suc.prems(1) obtain C where C: "\<forall>i < 512. pt \<notin> C i \<and>
          (if bit (entry m pt i) 0 then tree m l (PTE2PA (entry m pt i)) (C i) else C i = {})"
    and dis: "\<forall>i < 512. \<forall>j < 512. i \<noteq> j \<longrightarrow> C i \<inter> C j = {}"
    by auto
  have i: "tree m l (PTE2PA (entry m pt ?i)) (C ?i)" "slot m l (PTE2PA (entry m pt ?i)) va = Some a"
    and j: "tree m l (PTE2PA (entry m pt ?j)) (C ?j)" "slot m l (PTE2PA (entry m pt ?j)) va' = Some a'"
    using C Suc.prems(2,3) PX_less by (auto split: if_splits)
  show ?case
  proof (cases "?i = ?j")
    case True
    with Suc.IH [OF i(1,2)] j Suc.prems(4,5) show ?thesis by (simp add: same_page_Suc)
  next
    case False
    obtain p where p: "p \<in> C ?i" "page_aligned p" "a = p + 8 * PX 0 va"
      using slot_page [OF i] by blast
    obtain q where q: "q \<in> C ?j" "page_aligned q" "a' = q + 8 * PX 0 va'"
      using slot_page [OF j] by blast
    have "PGROUNDDOWN x = p" using Suc.prems(5) p entry_in_page PX_less by blast
    moreover have "within a' 8 x \<Longrightarrow> PGROUNDDOWN x = q" using q entry_in_page PX_less by blast
    ultimately show ?thesis using dis False p(1) q(1) PX_less by blast
  qed
qed

lemma slot_write_outside:
  assumes "tree m l pt T" "slot m l pt va = Some a" "PGROUNDDOWN x \<notin> T"
  shows "store64 m a v x = m x"
proof -
  obtain p where p: "p \<in> T" "page_aligned p" "a = p + 8 * PX 0 va"
    using slot_page [OF assms(1,2)] by blast
  then have "\<not> within a 8 x" using assms(3) entry_in_page PX_less by blast
  then show ?thesis by (rule store64_other)
qed

lemma tree_write_leaf:
  assumes "tree m l pt T" "slot m l pt va = Some a"
  shows "tree (store64 m a v) l pt T \<and> (\<forall>va'. slot (store64 m a v) l pt va' = slot m l pt va')"
  using assms
proof (induction l arbitrary: pt T)
  case 0
  then show ?case by simp
next
  case (Suc l)
  let ?i = "PX (Suc l) va" and ?m = "store64 m a v"
  from Suc.prems(1) obtain C where pt: "page_aligned pt" and T: "T = insert pt (\<Union>i \<in> {..<512}. C i)"
    and C: "\<forall>i < 512. pt \<notin> C i \<and>
          (if bit (entry m pt i) 0 then tree m l (PTE2PA (entry m pt i)) (C i) else C i = {})"
    and dis: "\<forall>i < 512. \<forall>j < 512. i \<noteq> j \<longrightarrow> C i \<inter> C j = {}"
    by auto
  have i: "tree m l (PTE2PA (entry m pt ?i)) (C ?i)" "slot m l (PTE2PA (entry m pt ?i)) va = Some a"
    using C Suc.prems(2) PX_less by (auto split: if_splits)
  have out: "?m x = m x" if "PGROUNDDOWN x \<notin> C ?i" for x
    using slot_write_outside [OF i that] .
  have e: "entry ?m pt j = entry m pt j" if "j < 512" for j
    using C out that PX_less by (intro entry_cong [OF pt]) auto
  have ch: "tree ?m l (PTE2PA (entry m pt j)) (C j) \<and>
      (\<forall>va'. slot ?m l (PTE2PA (entry m pt j)) va' = slot m l (PTE2PA (entry m pt j)) va')"
    if j: "j < 512" "bit (entry m pt j) 0" for j
  proof (cases "j = ?i")
    case True
    then show ?thesis using Suc.IH [OF i] by simp
  next
    case False
    then have "C j \<inter> C ?i = {}" using dis j PX_less by blast
    then have "PGROUNDDOWN x \<notin> C ?i" if "PGROUNDDOWN x \<in> C j" for x using that by blast
    then have "m x = ?m x" if "PGROUNDDOWN x \<in> C j" for x using out [of x] that by metis
    moreover have "tree m l (PTE2PA (entry m pt j)) (C j)" using C j by auto
    ultimately show ?thesis by (intro tree_cong) auto
  qed
  have "tree ?m (Suc l) pt T"
    unfolding tree.simps by (intro conjI pt exI [of _ C] T dis) (use C e ch in auto)
  moreover have "slot ?m (Suc l) pt va' = slot m (Suc l) pt va'" for va'
    using ch [OF PX_less, of "Suc l" va'] by (simp add: e PX_less)
  ultimately show ?case by blast
qed

lemma pte_write_leaf:
  assumes "tree m l pt T" "slot m l pt va = Some a"
  shows "pte (store64 m a v) l pt va' = (if same_page l va va' then v else pte m l pt va')"
proof (cases "same_page l va va'")
  case True
  then have "slot m l pt va' = Some a" using slot_same_page [OF True, of m pt] assms(2) by simp
  then show ?thesis using tree_write_leaf [OF assms, of v] True by (simp add: pte_def)
next
  case False
  have "load64 (store64 m a v) a' = load64 m a'" if "slot m l pt va' = Some a'" for a'
    using slots_disjoint [OF assms that False] by (intro load64_store64_other) blast
  then show ?thesis
    using tree_write_leaf [OF assms, of v] False by (auto simp: pte_def split: option.splits)
qed

section \<open>Growing the tree\<close>

lemma load64_zero: "(\<And>x. within a 8 x \<Longrightarrow> m x = 0) \<Longrightarrow> load64 m a = 0"
proof -
  assume z: "\<And>x. within a 8 x \<Longrightarrow> m x = 0"
  have "le_word (replicate n 0) = (0 :: uint64)" for n by (induction n) simp_all
  moreover have "read_bytes m a 8 = replicate 8 0"
    by (rule nth_equalityI) (simp_all add: read_bytes_def z within_off)
  ultimately show ?thesis by (simp add: load64_def)
qed

lemma zero_tree:
  assumes "page_aligned p" "\<And>x. PGROUNDDOWN x = p \<Longrightarrow> m x = 0"
  shows "tree m l p {p} \<and> pte m l p va = 0"
proof -
  have e: "entry m p i = 0" if "i < 512" for i
    using entry_in_page [OF assms(1) that] assms(2) by (intro load64_zero) blast
  show ?thesis
  proof (cases l)
    case 0
    then show ?thesis using assms(1) e [OF PX_less] by (simp add: pte_def)
  next
    case (Suc k)
    have "tree m (Suc k) p {p}"
      unfolding tree.simps by (intro conjI assms(1) exI [of _ "\<lambda>_. {}"]) (use e in auto)
    then show ?thesis using Suc e [OF PX_less] by (simp add: pte_def)
  qed
qed

text \<open>
  Replacing what hangs below one index of the root.  The new subtree lies in
  \<open>N\<close>, memory changed only there and, at that index, in the root.
\<close>

lemma tree_replace:
  assumes tree: "page_aligned pt" "T = insert pt (\<Union>i \<in> {..<512}. C i)"
     "\<forall>i < 512. pt \<notin> C i \<and>
          (if bit (entry m pt i) 0 then tree m l (PTE2PA (entry m pt i)) (C i) else C i = {})"
     "\<forall>i < 512. \<forall>j < 512. i \<noteq> j \<longrightarrow> C i \<inter> C j = {}"
    and i: "i < 512" and N: "N \<inter> T \<subseteq> C i" "pt \<notin> N" "C i \<subseteq> N"
    and new: "bit (entry m' pt i) 0" "tree m' l (PTE2PA (entry m' pt i)) N"
    and ents: "\<forall>j < 512. j \<noteq> i \<longrightarrow> entry m' pt j = entry m pt j"
    and out: "\<forall>x. PGROUNDDOWN x \<in> T \<longrightarrow> PGROUNDDOWN x \<noteq> pt \<longrightarrow> PGROUNDDOWN x \<notin> N \<longrightarrow> m' x = m x"
  shows "tree m' (Suc l) pt (T \<union> N)"
    "\<And>va'. PX (Suc l) va' \<noteq> i \<Longrightarrow> pte m' (Suc l) pt va' = pte m (Suc l) pt va'"
proof -
  have apart: "C j \<inter> N = {}" if "j < 512" "j \<noteq> i" for j
  proof -
    have "C j \<subseteq> T" using tree(2) that(1) by blast
    moreover have "C j \<inter> C i = {}" using tree(4) i that by blast
    ultimately show ?thesis using N(1) by blast
  qed
  have other: "tree m' l (PTE2PA (entry m pt j)) (C j) \<and>
      (\<forall>va. slot m' l (PTE2PA (entry m pt j)) va = slot m l (PTE2PA (entry m pt j)) va) \<and>
      (\<forall>x. PGROUNDDOWN x \<in> C j \<longrightarrow> m' x = m x)"
    if j: "j < 512" "bit (entry m pt j) 0" "j \<noteq> i" for j
  proof -
    have "pt \<notin> C j" "C j \<subseteq> T" using tree(2,3) j by auto
    moreover have "C j \<inter> N = {}" using apart [OF j(1,3)] .
    ultimately have same: "m' x = m x" if "PGROUNDDOWN x \<in> C j" for x
      using out that by (metis disjoint_iff subsetD)
    moreover have "tree m l (PTE2PA (entry m pt j)) (C j)" using tree(3) j by auto
    ultimately show ?thesis using tree_cong [of m l "PTE2PA (entry m pt j)" "C j" m'] by simp
  qed
  let ?C = "C(i := N)"
  have "T \<union> N = insert pt (\<Union>j \<in> {..<512}. ?C j)" using tree(2) N(3) i by auto
  moreover have "pt \<notin> ?C j \<and> (if bit (entry m' pt j) 0 then tree m' l (PTE2PA (entry m' pt j)) (?C j) else ?C j = {})"
    if "j < 512" for j
  proof (cases "j = i")
    case True
    then show ?thesis using N(2) new by simp
  next
    case False
    then show ?thesis using that tree(3) ents other [OF that _ False] by simp
  qed
  moreover have "?C j \<inter> ?C k = {}" if "j < 512" "k < 512" "j \<noteq> k" for j k
    using that tree(4) apart [of j] apart [of k] by (cases "j = i"; cases "k = i") (simp_all add: Int_commute)
  ultimately show "tree m' (Suc l) pt (T \<union> N)"
    unfolding tree.simps using tree(1) by blast
  show "pte m' (Suc l) pt va' = pte m (Suc l) pt va'" if "PX (Suc l) va' \<noteq> i" for va'
  proof (cases "bit (entry m pt (PX (Suc l) va')) 0")
    case True
    let ?j = "PX (Suc l) va'"
    have o: "slot m' l (PTE2PA (entry m pt ?j)) va' = slot m l (PTE2PA (entry m pt ?j)) va'"
      "\<And>x. PGROUNDDOWN x \<in> C ?j \<Longrightarrow> m' x = m x" and tj: "tree m l (PTE2PA (entry m pt ?j)) (C ?j)"
      using other [OF PX_less True that] tree(3) PX_less True by auto
    have "load64 m' a = load64 m a" if sl: "slot m l (PTE2PA (entry m pt ?j)) va' = Some a" for a
    proof -
      obtain p where p: "p \<in> C ?j" "page_aligned p" "a = p + 8 * PX 0 va'"
        using slot_page [OF tj sl] by blast
      then show ?thesis using o(2) entry_in_page [OF p(2) PX_less] by (intro load64_cong) metis
    qed
    then show ?thesis
      using True o ents PX_less that by (auto simp: pte_def split: option.splits)
  next
    case False
    then show ?thesis using ents PX_less that by (simp add: pte_def)
  qed
qed

section \<open>Walking with allocation\<close>

text \<open>\<open>mem_upd s t\<close>: \<open>t\<close> differs from \<open>s\<close> in the memory and the free list only (and in \<^verbatim>\<open>intena\<close>).\<close>

definition mem_upd :: "'m kmach_scheme \<Rightarrow> 'm kmach_scheme \<Rightarrow> bool" where
  "mem_upd s t \<longleftrightarrow> (\<exists>m n. t = s\<lparr>mem := m, freelist := n\<rparr> \<or> t = touched (s\<lparr>mem := m, freelist := n\<rparr>))"

lemma mem_upd_refl [simp]: "mem_upd s s"
  unfolding mem_upd_def by (rule exI [of _ "mem s"], rule exI [of _ "freelist s"]) simp

lemma mem_upd_trans: "mem_upd s t \<Longrightarrow> mem_upd t u \<Longrightarrow> mem_upd s u"
  unfolding mem_upd_def by (elim exE disjE) auto

lemma mem_updI [intro]:
  "mem_upd s (touched (s\<lparr>mem := m, freelist := n\<rparr>))"
  "mem_upd s (touched (s\<lparr>freelist := n, mem := m\<rparr>))"
  "mem_upd s (s\<lparr>mem := m\<rparr>)"
  "mem_upd s (touched s)"
proof -
  show "mem_upd s (touched (s\<lparr>mem := m, freelist := n\<rparr>))" unfolding mem_upd_def by blast
  moreover have "s\<lparr>freelist := n, mem := m\<rparr> = s\<lparr>mem := m, freelist := n\<rparr>"
    by (rule kmach.equality) simp_all
  ultimately show "mem_upd s (touched (s\<lparr>freelist := n, mem := m\<rparr>))" by metis
  show "mem_upd s (s\<lparr>mem := m\<rparr>)"
    unfolding mem_upd_def by (rule exI [of _ m], rule exI [of _ "freelist s"]) simp
  show "mem_upd s (touched s)"
    unfolding mem_upd_def by (rule exI [of _ "mem s"], rule exI [of _ "freelist s"]) simp
qed

lemma mem_updD:
  assumes "mem_upd s t"
  shows "cpu_ok t = cpu_ok s" "lock_free lk t = lock_free lk s" "kend t = kend s" "procs t = procs s"
    "hart t = hart s" "proc_locks_free t = proc_locks_free s" "running p t = running p s"
    "sleeplocks t = sleeplocks s" "cpu_proc (mycpu t) = cpu_proc (mycpu s)"
  using assms by (auto simp: mem_upd_def)

definition grows ::
  "nat \<Rightarrow> uint64 \<Rightarrow> uint64 \<Rightarrow> uint64 set \<Rightarrow> uint64 list \<Rightarrow> 'm kmach_scheme \<Rightarrow> uint64 \<Rightarrow> 'm kmach_scheme \<Rightarrow> bool" where
  "grows l pt va T ps s a t \<longleftrightarrow> mem_upd s t \<and>
     (\<exists>N qs. N \<subseteq> set ps \<and> tree (mem t) l pt (T \<union> N) \<and> free_pages t qs \<and> set qs = set ps - N \<and>
        (slot (mem t) l pt va = Some a \<or> a = 0 \<and> qs = [])) \<and>
     (\<forall>va'. pte (mem t) l pt va' = pte (mem s) l pt va') \<and>
     (\<forall>x. PGROUNDDOWN x \<notin> T \<union> set ps \<longrightarrow> mem t x = mem s x)"

definition vm_ok :: "uint64 set \<Rightarrow> uint64 list \<Rightarrow> 'm kmach_scheme \<Rightarrow> bool" where
  "vm_ok T ps s \<longleftrightarrow> cpu_ok s \<and> lock_free L_kmem s \<and> free_pages s ps \<and> set ps \<inter> T = {}"

lemma growsI:
  assumes "mem_upd s t" "N \<subseteq> set ps" "tree (mem t) l pt (T \<union> N)" "free_pages t qs" "set qs = set ps - N"
    "slot (mem t) l pt va = Some a \<or> a = 0 \<and> qs = []"
    "\<forall>va'. pte (mem t) l pt va' = pte (mem s) l pt va'"
    "\<forall>x. PGROUNDDOWN x \<notin> T \<union> set ps \<longrightarrow> mem t x = mem s x"
  shows "grows l pt va T ps s a t"
  unfolding grows_def using assms by blast

lemma grows_refl: "tree (mem s) l pt T \<Longrightarrow> free_pages s ps \<Longrightarrow>
   slot (mem s) l pt va = Some a \<or> a = 0 \<and> ps = [] \<Longrightarrow> grows l pt va T ps s a s"
  unfolding grows_def by (intro conjI exI [of _ "{}"] exI [of _ ps]) auto

text \<open>One level down an existing table.\<close>

lemma grows_child:
  assumes tree: "tree (mem s) (Suc l) pt T" and ok: "vm_ok T ps s"
    and v: "bit (entry (mem s) pt (PX (Suc l) va)) 0"
    and IH: "\<And>D. D \<subseteq> T \<Longrightarrow> tree (mem s) l (PTE2PA (entry (mem s) pt (PX (Suc l) va))) D \<Longrightarrow>
      \<exists>a t. run = Ok a t e \<and> grows l (PTE2PA (entry (mem s) pt (PX (Suc l) va))) va D ps s a t"
  shows "\<exists>a t. run = Ok a t e \<and> grows (Suc l) pt va T ps s a t"
proof -
  let ?i = "PX (Suc l) va"
  obtain C where pt: "page_aligned pt" and T: "T = insert pt (\<Union>i \<in> {..<512}. C i)"
    and C: "\<forall>i < 512. pt \<notin> C i \<and> (if bit (entry (mem s) pt i) 0
        then tree (mem s) l (PTE2PA (entry (mem s) pt i)) (C i) else C i = {})"
    and dis: "\<forall>i < 512. \<forall>j < 512. i \<noteq> j \<longrightarrow> C i \<inter> C j = {}"
    using tree by auto
  have Ci: "pt \<notin> C ?i" "tree (mem s) l (PTE2PA (entry (mem s) pt ?i)) (C ?i)" "C ?i \<subseteq> T"
    using C v PX_less T by auto
  then obtain a t N qs where run: "run = Ok a t e" and upd: "mem_upd s t"
    and N: "N \<subseteq> set ps" "tree (mem t) l (PTE2PA (entry (mem s) pt ?i)) (C ?i \<union> N)"
    and qs: "free_pages t qs" "set qs = set ps - N"
    and a: "slot (mem t) l (PTE2PA (entry (mem s) pt ?i)) va = Some a \<or> a = 0 \<and> qs = []"
    and same: "\<forall>va'. pte (mem t) l (PTE2PA (entry (mem s) pt ?i)) va' = pte (mem s) l (PTE2PA (entry (mem s) pt ?i)) va'"
    and out: "\<forall>x. PGROUNDDOWN x \<notin> C ?i \<union> set ps \<longrightarrow> mem t x = mem s x"
    using IH [OF Ci(3,2)] unfolding grows_def by blast
  have apart: "set ps \<inter> T = {}" using ok by (simp add: vm_ok_def)
  have "pt \<in> T" using T by blast
  then have e: "entry (mem t) pt j = entry (mem s) pt j" if "j < 512" for j
    using out Ci(1) apart that by (intro entry_cong [OF pt]) auto
  have N': "(C ?i \<union> N) \<inter> T \<subseteq> C ?i" "pt \<notin> C ?i \<union> N" "C ?i \<subseteq> C ?i \<union> N"
    using N(1) apart Ci(1) \<open>pt \<in> T\<close> by auto
  have new: "bit (entry (mem t) pt ?i) 0" "tree (mem t) l (PTE2PA (entry (mem t) pt ?i)) (C ?i \<union> N)"
    using v N(2) e [OF PX_less] by simp_all
  have out': "\<forall>x. PGROUNDDOWN x \<in> T \<longrightarrow> PGROUNDDOWN x \<noteq> pt \<longrightarrow>
      PGROUNDDOWN x \<notin> C ?i \<union> N \<longrightarrow> mem t x = mem s x"
    using out apart by auto
  have ents: "\<forall>j < 512. j \<noteq> ?i \<longrightarrow> entry (mem t) pt j = entry (mem s) pt j"
    using e by simp
  note rep = tree_replace [OF pt T C dis PX_less N' new ents out']
  have tr: "tree (mem t) (Suc l) pt (T \<union> N)"
    using rep(1) Ci(3) by (simp add: Un_assoc [symmetric] Un_absorb2)
  have ptes: "pte (mem t) (Suc l) pt va' = pte (mem s) (Suc l) pt va'" for va'
  proof (cases "PX (Suc l) va' = ?i")
    case True
    then show ?thesis using same v e [OF PX_less] by (simp add: pte_def)
  next
    case False
    then show ?thesis by (rule rep(2))
  qed
  have "slot (mem t) (Suc l) pt va = Some a \<or> a = 0 \<and> qs = []"
    using a v e [OF PX_less] by simp
  moreover have "\<forall>x. PGROUNDDOWN x \<notin> T \<union> set ps \<longrightarrow> mem t x = mem s x" using out Ci(3) by blast
  ultimately have "grows (Suc l) pt va T ps s a t" using upd N(1) tr qs ptes by (intro growsI) auto
  with run show ?thesis by blast
qed

text \<open>Hanging a fresh table below an empty index.\<close>

definition graft :: "bytemem \<Rightarrow> uint64 \<Rightarrow> uint64 \<Rightarrow> uint64 \<Rightarrow> bytemem" where
  "graft m pt i p = store64 (memset m p 0 (ucast PGSIZE)) (pt + 8 * i) (PA2PTE p OR PTE_V)"

lemma graft_tree:
  assumes tree: "tree m (Suc l) pt T" and v: "\<not> bit (entry m pt i) 0" and i: "i < 512"
    and p: "page_aligned p" "p \<notin> T"
  shows "tree (graft m pt i p) (Suc l) pt (insert p T)"
    "pte (graft m pt i p) (Suc l) pt va = pte m (Suc l) pt va"
    "bit (entry (graft m pt i p) pt i) 0" "PTE2PA (entry (graft m pt i p) pt i) = p"
    "PGROUNDDOWN x \<noteq> pt \<Longrightarrow> graft m pt i p x = (if PGROUNDDOWN x = p then 0 else m x)"
proof -
  let ?m = "graft m pt i p"
  obtain C where pt: "page_aligned pt" and T: "T = insert pt (\<Union>i \<in> {..<512}. C i)"
    and C: "\<forall>i < 512. pt \<notin> C i \<and> (if bit (entry m pt i) 0
        then tree m l (PTE2PA (entry m pt i)) (C i) else C i = {})"
    and dis: "\<forall>i < 512. \<forall>j < 512. i \<noteq> j \<longrightarrow> C i \<inter> C j = {}"
    using tree by auto
  have [simp]: "p \<noteq> pt" "pt \<noteq> p" using p T by auto
  show new: "bit (entry ?m pt i) 0" by (simp add: graft_def make_valid)
  show child: "PTE2PA (entry ?m pt i) = p"
    using PTE2PA_make [of 0 p] p(1) by (simp add: graft_def PGROUNDDOWN_aligned)
  show mem: "?m x = (if PGROUNDDOWN x = p then 0 else m x)" if "PGROUNDDOWN x \<noteq> pt" for x
  proof -
    have "\<not> within (pt + 8 * i) 8 x" using that entry_in_page [OF pt i] by blast
    then show ?thesis by (simp add: graft_def store64_other memset_page [OF p(1)] in_page_def)
  qed
  have ent: "entry ?m pt j = entry m pt j" if "j < 512" "j \<noteq> i" for j
  proof -
    have "entry ?m pt j = load64 (memset m p 0 (ucast PGSIZE)) (pt + 8 * j)"
      unfolding graft_def using entry_disjoint [OF that(1) i that(2)] by (intro load64_store64_other) blast
    also have "\<dots> = entry m pt j"
      by (rule entry_cong [OF pt that(1)]) (simp add: memset_page [OF p(1)] in_page_def)
    finally show ?thesis .
  qed
  have zero: "tree ?m l p {p} \<and> pte ?m l p va = 0" for va
    by (rule zero_tree [OF p(1)]) (simp add: mem)
  have Ci: "C i = {}" using C i v by auto
  have N: "{p} \<inter> T \<subseteq> C i" "pt \<notin> {p}" "C i \<subseteq> {p}" using p(2) Ci by auto
  have new': "tree ?m l (PTE2PA (entry ?m pt i)) {p}" using zero child by simp
  have ents: "\<forall>j < 512. j \<noteq> i \<longrightarrow> entry ?m pt j = entry m pt j" using ent by simp
  have out: "\<forall>x. PGROUNDDOWN x \<in> T \<longrightarrow> PGROUNDDOWN x \<noteq> pt \<longrightarrow> PGROUNDDOWN x \<notin> {p} \<longrightarrow> ?m x = m x"
    using mem by simp
  note rep = tree_replace [OF pt T C dis i N new new' ents out]
  show "tree ?m (Suc l) pt (insert p T)" using rep(1) by simp
  show "pte ?m (Suc l) pt va = pte m (Suc l) pt va"
  proof (cases "PX (Suc l) va = i")
    case True
    then show ?thesis using new child zero v by (simp add: pte_def)
  next
    case False
    then show ?thesis by (rule rep(2))
  qed
qed

lemma poke_run [simp]: "poke a v s e = Ok () (s\<lparr>mem := store64 (mem s) a v\<rparr>) e"
  by (simp add: poke_def)

lemma fill_run [simp]: "fill a c s e = Ok () (s\<lparr>mem := memset (mem s) a c (ucast PGSIZE)\<rparr>) e"
  by (simp add: fill_def)

text \<open>The state after a page-table page has been allocated, cleared and linked.\<close>

lemma walk_new_table:
  assumes tree: "tree (mem s) (Suc l) pt T" and ok: "vm_ok T (p # ps) s"
    and v: "\<not> bit (entry (mem s) pt (PX (Suc l) va)) 0"
  shows "\<exists>t. walk_from (Suc l) pt va True s e = walk_from (Suc l) pt va True t e \<and>
    mem_upd s t \<and> vm_ok (insert p T) ps t \<and> tree (mem t) (Suc l) pt (insert p T) \<and>
    bit (entry (mem t) pt (PX (Suc l) va)) 0 \<and>
    (\<forall>va'. pte (mem t) (Suc l) pt va' = pte (mem s) (Suc l) pt va') \<and>
    (\<forall>x. PGROUNDDOWN x \<notin> T \<union> set (p # ps) \<longrightarrow> mem t x = mem s x)"
proof -
  let ?i = "PX (Suc l) va"
  have s: "cpu_ok s" "lock_free L_kmem s" "free_pages s (p # ps)" "set (p # ps) \<inter> T = {}"
    using ok by (auto simp: vm_ok_def)
  have p: "p \<noteq> 0" "page_aligned p" "p \<notin> T" "p \<notin> set ps" "p \<noteq> pt" "pt \<in> T" "pt \<notin> set ps"
    using s(3,4) tree_root [OF tree] by (auto simp: free_pages_def good_page_def)
  obtain m n where k: "kalloc s e = Ok p (touched (s\<lparr>freelist := n, mem := m\<rparr>)) e"
    and fp: "free_pages (s\<lparr>freelist := n, mem := m\<rparr>) ps"
    and m: "\<forall>a. m a = (if in_page p a then 5 else mem s a)"
    using kalloc_free_pages [OF s(1-3)] by blast
  let ?m = "graft m pt ?i p" and ?t = "touched (s\<lparr>freelist := n, mem := graft m pt ?i p\<rparr>)"
  have "?m = graft (mem s) pt ?i p"
    using m memset_page [OF p(2)] by (auto simp: graft_def intro!: arg_cong [where f = "\<lambda>m. store64 m _ _"])
  note g = graft_tree [OF tree v PX_less p(2,3), folded this]
  have "walk_from (Suc l) pt va True s e = walk_from l p va True ?t e"
    using v p(1) k by (simp add: and_PTE_V graft_def)
  also have "\<dots> = walk_from (Suc l) pt va True ?t e"
    using g(3,4) by (simp add: and_PTE_V)
  finally have run: "walk_from (Suc l) pt va True s e = walk_from (Suc l) pt va True ?t e" .
  have page: "?m x = m x" if "PGROUNDDOWN x \<in> set ps" for x
  proof -
    have "PGROUNDDOWN x \<noteq> pt" "PGROUNDDOWN x \<noteq> p" using that p by auto
    then show ?thesis using g(5) [of x] m by (simp add: in_page_def)
  qed
  have "free_pages (s\<lparr>freelist := n, mem := ?m\<rparr>) ps"
    using free_pages_frame [OF fp, of ?m] page by (simp add: in_page_def)
  then have "vm_ok (insert p T) ps ?t" using s p by (auto simp: vm_ok_def)
  moreover have "mem ?t x = mem s x" if "PGROUNDDOWN x \<notin> T \<union> set (p # ps)" for x
  proof -
    have "PGROUNDDOWN x \<noteq> pt" "PGROUNDDOWN x \<noteq> p" using that p by auto
    then show ?thesis using g(5) [of x] by simp
  qed
  ultimately show ?thesis using run g by (intro exI [of _ ?t]) auto
qed

lemma vm_ok_subset: "vm_ok T ps s \<Longrightarrow> D \<subseteq> T \<Longrightarrow> vm_ok D ps s"
  by (auto simp: vm_ok_def)

lemma grows_trans:
  assumes "grows l pt va (insert p T) ps t a u" and "mem_upd s t"
    and "\<forall>va'. pte (mem t) l pt va' = pte (mem s) l pt va'"
    and "\<forall>x. PGROUNDDOWN x \<notin> T \<union> set (p # ps) \<longrightarrow> mem t x = mem s x" and "p \<notin> set ps"
  shows "grows l pt va T (p # ps) s a u"
proof -
  obtain N qs where N: "mem_upd t u" "N \<subseteq> set ps" "tree (mem u) l pt (insert p T \<union> N)" "free_pages u qs"
    "set qs = set ps - N" "slot (mem u) l pt va = Some a \<or> a = 0 \<and> qs = []"
    "\<forall>va'. pte (mem u) l pt va' = pte (mem t) l pt va'"
    "\<forall>x. PGROUNDDOWN x \<notin> insert p T \<union> set ps \<longrightarrow> mem u x = mem t x"
    using assms(1) unfolding grows_def by blast
  show ?thesis
  proof (rule growsI [where N = "insert p N" and qs = qs])
    show "mem_upd s u" using assms(2) N(1) by (rule mem_upd_trans)
    show "set qs = set (p # ps) - insert p N" using N(2,5) assms(5) by auto
    show "slot (mem u) l pt va = Some a \<or> a = 0 \<and> qs = []" by (rule N(6))
    show "tree (mem u) l pt (T \<union> insert p N)" using N(3) by simp
  qed (use N assms(3,4) in auto)
qed

lemma walk_from_grows:
  assumes "tree (mem s) l pt T" "vm_ok T ps s"
  shows "\<exists>a t. walk_from l pt va True s e = Ok a t e \<and> grows l pt va T ps s a t"
  using assms
proof (induction l arbitrary: pt T s ps)
  case 0
  then have "grows 0 pt va T ps s (pt + 8 * PX 0 va) s"
    by (intro grows_refl) (auto simp: vm_ok_def)
  then show ?case by simp
next
  case (Suc l)
  have valid: "\<exists>a u. walk_from (Suc l) pt va True t e = Ok a u e \<and> grows (Suc l) pt va D qs t a u"
    if "tree (mem t) (Suc l) pt D" "vm_ok D qs t" "bit (entry (mem t) pt (PX (Suc l) va)) 0"
    for t :: "'a kmach_scheme" and D qs
  proof -
    have "walk_from (Suc l) pt va True t e = walk_from l (PTE2PA (entry (mem t) pt (PX (Suc l) va))) va True t e"
      using that(3) by (simp add: and_PTE_V)
    then show ?thesis
      using grows_child [OF that, of "walk_from (Suc l) pt va True t e" e] Suc.IH vm_ok_subset [OF that(2)] by metis
  qed
  show ?case
  proof (cases "bit (entry (mem s) pt (PX (Suc l) va)) 0")
    case True
    then show ?thesis using valid Suc.prems by blast
  next
    case inv: False
    show ?thesis
    proof (cases ps)
      case Nil
      then have "kalloc s e = Ok 0 (touched s) e"
        using Suc.prems(2) by (intro kalloc_empty) (auto simp: vm_ok_def)
      then have "walk_from (Suc l) pt va True s e = Ok 0 (touched s) e"
        using inv by (simp add: and_PTE_V)
      moreover have "grows (Suc l) pt va T ps s 0 (touched s)"
        using Suc.prems Nil
        by (intro growsI [where N = "{}" and qs = "[]"]) (auto simp: vm_ok_def simp del: tree.simps)
      ultimately show ?thesis by blast
    next
      case (Cons p qs)
      then obtain t where run: "walk_from (Suc l) pt va True s e = walk_from (Suc l) pt va True t e"
        and t: "mem_upd s t" "vm_ok (insert p T) qs t" "tree (mem t) (Suc l) pt (insert p T)"
          "bit (entry (mem t) pt (PX (Suc l) va)) 0"
          "\<forall>va'. pte (mem t) (Suc l) pt va' = pte (mem s) (Suc l) pt va'"
          "\<forall>x. PGROUNDDOWN x \<notin> T \<union> set (p # qs) \<longrightarrow> mem t x = mem s x"
        using walk_new_table [OF Suc.prems(1) _ inv] Suc.prems(2) by blast
      obtain a u where u: "walk_from (Suc l) pt va True t e = Ok a u e" "grows (Suc l) pt va (insert p T) qs t a u"
        using valid [OF t(3,2,4)] by blast
      have "p \<notin> set qs" using Suc.prems(2) Cons by (auto simp: vm_ok_def free_pages_def)
      then have "grows (Suc l) pt va T (p # qs) s a u"
        by (rule grows_trans [OF u(2) t(1,5,6)])
      then show ?thesis using run u(1) Cons by auto
    qed
  qed
qed

lemma walk_from_lookup:
  "walk_from l pt va False s e = Ok (case slot (mem s) l pt va of None \<Rightarrow> 0 | Some a \<Rightarrow> a) s e"
  by (induction l arbitrary: pt) (simp_all add: and_PTE_V)

section \<open>Lookup and mapping\<close>

lemma MAXVA_exp: "MAXVA = 2 ^ 38"
  by (simp add: MAXVA_def)

lemma below_MAXVA_bits: "va < MAXVA \<Longrightarrow> bit va n \<Longrightarrow> n < 38"
proof -
  assume va: "va < MAXVA" and b: "bit va n"
  have "unat va < 2 ^ 38" using va by (simp add: MAXVA_exp word_less_nat_alt)
  then have "va = take_bit 38 va"
    by (simp add: word_unat_eq_iff unsigned_take_bit_eq take_bit_nat_eq_self)
  then show ?thesis using b by (metis bit_take_bit_iff)
qed

lemma bit_PX: "bit (PX k va) n \<longleftrightarrow> n < 9 \<and> bit va (12 + 9 * k + n)"
proof -
  have "PX k va = take_bit 9 (drop_bit (12 + 9 * k) va)"
    by (simp add: PX_def PXMASK_def PXSHIFT_def PGSHIFT_def take_bit_eq_mask mask_eq_exp_minus_1)
  then show ?thesis by (simp add: bit_simps add.commute)
qed

text \<open>The three indices determine the page of an address below \<^verbatim>\<open>MAXVA\<close>.\<close>

lemma same_page_iff:
  assumes "va < MAXVA" "va' < MAXVA"
  shows "same_page 2 va va' \<longleftrightarrow> PGROUNDDOWN va = PGROUNDDOWN va'"
proof
  assume sp: "same_page 2 va va'"
  show "PGROUNDDOWN va = PGROUNDDOWN va'"
  proof (rule bit_word_eqI)
    fix n assume n: "n < LENGTH(64)"
    have "bit va n = bit va' n" if "12 \<le> n"
    proof (cases "n < 39")
      case True
      define k where "k = (n - 12) div 9"
      define r where "r = (n - 12) mod 9"
      have "n = 12 + 9 * k + r" "r < 9" "k \<le> 2" using that True by (auto simp: k_def r_def)
      then show ?thesis using sp bit_PX [of k va r] bit_PX [of k va' r] by (simp add: same_page_def)
    next
      case False
      then have "\<not> n < 38" by simp
      then show ?thesis using below_MAXVA_bits [OF assms(1)] below_MAXVA_bits [OF assms(2)] by blast
    qed
    then show "bit (PGROUNDDOWN va) n = bit (PGROUNDDOWN va') n"
      by (auto simp: PGROUNDDOWN_bits bit_simps)
  qed
next
  assume eq: "PGROUNDDOWN va = PGROUNDDOWN va'"
  have b: "bit va n = bit va' n" if "12 \<le> n" for n
  proof -
    have "bit (PGROUNDDOWN va) n = bit (PGROUNDDOWN va') n" using eq by simp
    then show ?thesis using that by (auto simp: PGROUNDDOWN_bits bit_simps dest: bit_imp_le_length)
  qed
  show "same_page 2 va va'"
    unfolding same_page_def by (auto simp: bit_eq_iff [of "PX _ _"] bit_PX b)
qed

definition user_pa :: "uint64 \<Rightarrow> uint64" where
  "user_pa v = (if v AND PTE_V \<noteq> 0 \<and> v AND PTE_U \<noteq> 0 then PTE2PA v else 0)"

lemma slot_nonzero:
  assumes "tree m l pt T" "0 \<notin> T" "slot m l pt va = Some a"
  shows "a \<noteq> 0"
proof -
  obtain p where p: "p \<in> T" "page_aligned p" "a = p + 8 * PX 0 va"
    using slot_page [OF assms(1,3)] by blast
  have "PGROUNDDOWN a = p" unfolding p(3) by (rule entry_in_page [OF p(2) PX_less [of 0 va]]) (simp add: within_def)
  then show ?thesis using p(1) assms(2) by (auto simp: PGROUNDDOWN_def)
qed

lemma walkaddr_run:
  assumes "tree (mem s) 2 pt T" "0 \<notin> T"
  shows "walkaddr pt va s e = Ok (if va < MAXVA then user_pa (pte (mem s) 2 pt va) else 0) s e"
proof (cases "slot (mem s) 2 pt va")
  case None
  then show ?thesis by (auto simp: walkaddr_def walk_def walk_from_lookup pte_def user_pa_def)
next
  case (Some a)
  then have "a \<noteq> 0" using slot_nonzero [OF assms] by blast
  then show ?thesis
    using Some by (auto simp: walkaddr_def walk_def walk_from_lookup pte_def user_pa_def)
qed

text \<open>\<open>maps s pt T ps f\<close>: the table at \<open>pt\<close> is a tree of the pages \<open>T\<close>, disjoint from the free pages \<open>ps\<close>, and maps \<open>f\<close>.\<close>

definition maps :: "'m kmach_scheme \<Rightarrow> uint64 \<Rightarrow> uint64 set \<Rightarrow> uint64 list \<Rightarrow> (uint64 \<Rightarrow> uint64) \<Rightarrow> bool" where
  "maps s pt T ps f \<longleftrightarrow> tree (mem s) 2 pt T \<and> 0 \<notin> T \<and> vm_ok T ps s \<and>
     (\<forall>va < MAXVA. pte (mem s) 2 pt va = f va)"

lemma walk_maps:
  assumes "maps s pt T ps f" "va < MAXVA"
  shows "\<exists>a t T' qs. walk pt va True s e = Ok a t e \<and> mem_upd s t \<and> maps t pt T' qs f \<and>
    T \<subseteq> T' \<and> T' \<subseteq> T \<union> set ps \<and> set qs = set ps - T' \<and>
    (a = 0 \<and> qs = [] \<or> a \<noteq> 0 \<and> slot (mem t) 2 pt va = Some a) \<and>
    (\<forall>x. PGROUNDDOWN x \<notin> T \<union> set ps \<longrightarrow> mem t x = mem s x)"
proof -
  have tr: "tree (mem s) 2 pt T" "vm_ok T ps s" "0 \<notin> T" using assms(1) by (auto simp: maps_def)
  obtain a t where run: "walk_from 2 pt va True s e = Ok a t e" and g: "grows 2 pt va T ps s a t"
    using walk_from_grows [OF tr(1,2)] by blast
  then obtain N qs where N: "mem_upd s t" "N \<subseteq> set ps" "tree (mem t) 2 pt (T \<union> N)" "free_pages t qs"
    "set qs = set ps - N" "slot (mem t) 2 pt va = Some a \<or> a = 0 \<and> qs = []"
    "\<forall>va'. pte (mem t) 2 pt va' = pte (mem s) 2 pt va'"
    "\<forall>x. PGROUNDDOWN x \<notin> T \<union> set ps \<longrightarrow> mem t x = mem s x"
    unfolding grows_def by blast
  have ps: "set ps \<inter> T = {}" "0 \<notin> set ps"
    using tr(2) by (auto simp: vm_ok_def free_pages_def good_page_def)
  have z: "0 \<notin> T \<union> N" using ps tr(3) N(2) by auto
  have "vm_ok (T \<union> N) qs t"
    using tr(2) N(2,4,5) ps mem_updD [OF N(1)] by (auto simp: vm_ok_def)
  then have "maps t pt (T \<union> N) qs f" using N(3,7) z assms(1) by (simp add: maps_def)
  moreover have "a = 0 \<and> qs = [] \<or> a \<noteq> 0 \<and> slot (mem t) 2 pt va = Some a"
    using N(6) slot_nonzero [OF N(3) z] by blast
  moreover have "walk pt va True s e = Ok a t e" using run assms(2) by (simp add: walk_def)
  moreover have "set qs = set ps - (T \<union> N)" using N(5) ps by auto
  ultimately show ?thesis using N(1,2,8) by (intro exI [of _ a] exI [of _ t] exI [of _ "T \<union> N"] exI [of _ qs]) auto
qed

lemma write_maps:
  assumes "maps s pt T ps f" "slot (mem s) 2 pt va = Some a" "va < MAXVA"
  shows "maps (s\<lparr>mem := store64 (mem s) a v\<rparr>) pt T ps (\<lambda>va'. if PGROUNDDOWN va' = PGROUNDDOWN va then v else f va')"
proof -
  let ?t = "s\<lparr>mem := store64 (mem s) a v\<rparr>"
  have tr: "tree (mem s) 2 pt T" "vm_ok T ps s" "0 \<notin> T" "\<forall>va < MAXVA. pte (mem s) 2 pt va = f va"
    using assms(1) by (auto simp: maps_def)
  have "free_pages ?t ps"
  proof (rule free_pages_frame)
    show "free_pages s ps" using tr(2) by (simp add: vm_ok_def)
    fix x assume "\<exists>p \<in> set ps. in_page p x"
    then have "PGROUNDDOWN x \<notin> T" using tr(2) by (auto simp: vm_ok_def in_page_def)
    then show "store64 (mem s) a v x = mem s x" by (rule slot_write_outside [OF tr(1) assms(2)])
  qed
  then have "vm_ok T ps ?t" using tr(2) by (simp add: vm_ok_def)
  then show ?thesis
    using tree_write_leaf [OF tr(1) assms(2), of v] pte_write_leaf [OF tr(1) assms(2), of v] tr(3,4) assms(3)
    by (auto simp: maps_def same_page_iff)
qed

lemma within_nat:
  assumes "unat a + n \<le> 2 ^ 64"
  shows "within a n x \<longleftrightarrow> unat a \<le> unat x \<and> unat x < unat a + n"
proof (cases "a \<le> x")
  case True
  then show ?thesis by (auto simp: within_def unat_sub word_le_nat_alt)
next
  case False
  then have "unat x < unat a" by (simp add: word_le_nat_alt not_le)
  moreover have "unat (x - a) = 2 ^ 64 + unat x - unat a"
    using \<open>unat x < unat a\<close> by (simp add: unat_sub_if')
  ultimately show ?thesis using assms by (simp add: within_def)
qed

definition mapped :: "uint64 \<Rightarrow> uint64 \<Rightarrow> uint64 \<Rightarrow> nat \<Rightarrow> (uint64 \<Rightarrow> uint64) \<Rightarrow> uint64 \<Rightarrow> uint64" where
  "mapped a pa perm k f va =
     (if within a (4096 * k) va then PA2PTE (pa + (PGROUNDDOWN va - a)) OR perm OR PTE_V else f va)"

lemma mapped_0 [simp]: "mapped a pa perm 0 f = f"
  by (simp add: mapped_def fun_eq_iff)

lemma within_first_page:
  assumes "page_aligned a" "unat a + 4096 * Suc k \<le> 2 ^ 64"
  shows "within a (4096 * Suc k) va \<longleftrightarrow> PGROUNDDOWN va = a \<or> within (a + PGSIZE) (4096 * k) va"
proof (cases "k = 0")
  case True
  then show ?thesis using within_page [OF assms(1)] by simp
next
  case False
  then have "unat (a + PGSIZE) = unat a + 4096"
    using assms(2) by (simp add: PGSIZE_def unat_plus_if')
  then show ?thesis
    unfolding within_page [OF assms(1), symmetric] using assms(2) by (subst (1 2 3) within_nat) auto
qed

lemma mapped_step:
  assumes "page_aligned a" "unat a + 4096 * Suc k \<le> 2 ^ 64"
  shows "mapped (a + PGSIZE) (pa + PGSIZE) perm k
      (\<lambda>va. if PGROUNDDOWN va = a then PA2PTE pa OR perm OR PTE_V else f va) = mapped a pa perm (Suc k) f"
proof
  fix va
  have "\<not> within (a + PGSIZE) (4096 * k) va" if "PGROUNDDOWN va = a"
  proof (cases "k = 0")
    case False
    then have u: "unat (a + PGSIZE) = unat a + 4096"
      using assms(2) by (simp add: PGSIZE_def unat_plus_if')
    have "within a 4096 va" using that within_page [OF assms(1)] by simp
    then show ?thesis using assms(2) u by (subst within_nat) (simp_all add: within_nat)
  qed simp
  then show "mapped (a + PGSIZE) (pa + PGSIZE) perm k
      (\<lambda>va. if PGROUNDDOWN va = a then PA2PTE pa OR perm OR PTE_V else f va) va = mapped a pa perm (Suc k) f va"
    using within_first_page [OF assms, of va] by (auto simp: mapped_def simp del: mult_Suc_right)
qed

lemma mappages_step_run:
  assumes "maps s pt T ps f" "a < MAXVA" "\<not> bit (f a) 0"
  shows "\<exists>t T' qs. mem_upd s t \<and> T' \<subseteq> T \<union> set ps \<and>
    (mappages_step pt fin perm (a, pa, None) s e = Ok (a, pa, Some (-1)) t e \<and> maps t pt T' [] f \<or>
     mappages_step pt fin perm (a, pa, None) s e =
       Ok (if a = fin then (a, pa, Some 0) else (a + PGSIZE, pa + PGSIZE, None)) t e \<and>
     set qs \<subseteq> set ps \<and>
     maps t pt T' qs (\<lambda>va. if PGROUNDDOWN va = PGROUNDDOWN a then PA2PTE pa OR perm OR PTE_V else f va))"
proof -
  obtain b t T' qs where w: "walk pt a True s e = Ok b t e" "mem_upd s t" "maps t pt T' qs f"
      "T' \<subseteq> T \<union> set ps" "set qs = set ps - T'"
    and b: "b = 0 \<and> qs = [] \<or> b \<noteq> 0 \<and> slot (mem t) 2 pt a = Some b"
    using walk_maps [OF assms(1,2)] by blast
  from b show ?thesis
  proof
    assume "b = 0 \<and> qs = []"
    then show ?thesis using w by (intro exI [of _ t] exI [of _ T']) (auto simp: mappages_step_def)
  next
    assume b: "b \<noteq> 0 \<and> slot (mem t) 2 pt a = Some b"
    then have "load64 (mem t) b = f a" using w(3) assms(2) by (auto simp: maps_def pte_def)
    then have "\<not> bit (load64 (mem t) b) 0" using assms(3) by simp
    then have run: "mappages_step pt fin perm (a, pa, None) s e =
       Ok (if a = fin then (a, pa, Some 0) else (a + PGSIZE, pa + PGSIZE, None))
         (t\<lparr>mem := store64 (mem t) b (PA2PTE pa OR perm OR PTE_V)\<rparr>) e"
      using w(1) b by (simp add: mappages_step_def and_PTE_V)
    have "mem_upd s (t\<lparr>mem := store64 (mem t) b (PA2PTE pa OR perm OR PTE_V)\<rparr>)"
      using w(2) mem_updI(3) by (rule mem_upd_trans)
    then show ?thesis
      using run write_maps [OF w(3) conjunct2 [OF b] assms(2)] w(4,5)
      by (intro exI [of _ "t\<lparr>mem := store64 (mem t) b (PA2PTE pa OR perm OR PTE_V)\<rparr>"] exI [of _ T'] exI [of _ qs]) auto
  qed
qed

lemma mappages_while:
  "whileM (\<lambda>(a, pa, r) _. r = None) c (a, pa, None) s e =
     bind (c (a, pa, None)) (whileM (\<lambda>(a, pa, r) _. r = None) c) s e"
  "whileM (\<lambda>(a, pa, r) _. r = None) c (a, pa, Some v) s e = Ok (a, pa, Some v) s e"
  by (subst whileM_unfold, simp)+

text \<open>How the loop ends: \<open>k\<close> of the \<open>n\<close> pages are mapped, all of them unless memory ran out.\<close>

definition mappages_ends ::
  "'m kmach_scheme \<Rightarrow> uint64 \<Rightarrow> uint64 set \<Rightarrow> nat \<Rightarrow> (nat \<Rightarrow> uint64 \<Rightarrow> uint64) \<Rightarrow> 'm kmach_scheme \<Rightarrow> int \<Rightarrow> bool" where
  "mappages_ends s pt U n g t r \<longleftrightarrow> mem_upd s t \<and> (\<exists>T' qs k. maps t pt T' qs (g k) \<and> T' \<subseteq> U \<and> set qs \<subseteq> U \<and>
      (r = 0 \<and> k = n \<or> r = -1 \<and> k < n \<and> qs = []))"

lemma mappages_endsI:
  "mem_upd s t \<Longrightarrow> maps t pt T' qs (g k) \<Longrightarrow> T' \<subseteq> U \<Longrightarrow> set qs \<subseteq> U \<Longrightarrow>
   r = 0 \<and> k = n \<or> r = -1 \<and> k < n \<and> qs = [] \<Longrightarrow> mappages_ends s pt U n g t r"
  unfolding mappages_ends_def by blast

lemma mappages_ends_Suc:
  assumes "mappages_ends t pt V n g u r" "mem_upd s t" "V \<subseteq> U" "\<And>k. k \<le> n \<Longrightarrow> g k = h (Suc k)"
  shows "mappages_ends s pt U (Suc n) h u r"
proof -
  obtain T' qs k where k: "mem_upd t u" "maps u pt T' qs (g k)" "T' \<subseteq> V" "set qs \<subseteq> V"
      "r = 0 \<and> k = n \<or> r = -1 \<and> k < n \<and> qs = []"
    using assms(1) unfolding mappages_ends_def by blast
  then have "g k = h (Suc k)" using assms(4) by auto
  with k assms(2,3) show ?thesis
    by (intro mappages_endsI [where k = "Suc k" and T' = T' and qs = qs]) (auto intro: mem_upd_trans)
qed

lemma mappages_loop:
  assumes "maps s pt T ps f" "page_aligned a" "unat a + 4096 * n < 2 ^ 38"
    and "fin = a + of_nat n * PGSIZE" "\<forall>i \<le> n. \<not> bit (f (a + of_nat i * PGSIZE)) 0"
  shows "\<exists>x y r t. whileM (\<lambda>(a, pa, r) _. r = None) (mappages_step pt fin perm) (a, pa, None) s e =
      Ok (x, y, Some r) t e \<and> mappages_ends s pt (T \<union> set ps) (Suc n) (\<lambda>k. mapped a pa perm k f) t r"
  using assms
proof (induction n arbitrary: a pa s T ps f)
  case 0
  have a: "a < MAXVA" "fin = a" "\<not> bit (f a) 0"
    using 0 by (simp_all add: MAXVA_exp word_less_nat_alt)
  have eq: "(\<lambda>va. if PGROUNDDOWN va = PGROUNDDOWN a then PA2PTE pa OR perm OR PTE_V else f va) = mapped a pa perm (Suc 0) f"
    using mapped_step [of a 0 pa perm f] 0(2,3) by (simp add: PGROUNDDOWN_aligned)
  obtain t T' qs where t: "mem_upd s t" "T' \<subseteq> T \<union> set ps"
    "mappages_step pt fin perm (a, pa, None) s e = Ok (a, pa, Some (-1)) t e \<and> maps t pt T' [] f \<or>
     mappages_step pt fin perm (a, pa, None) s e = Ok (a, pa, Some 0) t e \<and> set qs \<subseteq> set ps \<and>
     maps t pt T' qs (mapped a pa perm (Suc 0) f)"
    using mappages_step_run [OF 0(1) a(1,3), where fin = fin and pa = pa and perm = perm and e = e] a(2) unfolding eq
    by (simp only: if_True refl) blast
  from t(3) show ?case
  proof (elim disjE conjE)
    assume s: "mappages_step pt fin perm (a, pa, None) s e = Ok (a, pa, Some (-1)) t e" and m: "maps t pt T' [] f"
    have "mappages_ends s pt (T \<union> set ps) (Suc 0) (\<lambda>k. mapped a pa perm k f) t (-1)"
      by (rule mappages_endsI [where k = 0 and T' = T' and qs = "[]"]) (use t(1,2) m in auto)
    with s show ?thesis by (auto simp: mappages_while)
  next
    assume s: "mappages_step pt fin perm (a, pa, None) s e = Ok (a, pa, Some 0) t e"
      and m: "maps t pt T' qs (mapped a pa perm (Suc 0) f)" "set qs \<subseteq> set ps"
    have "mappages_ends s pt (T \<union> set ps) (Suc 0) (\<lambda>k. mapped a pa perm k f) t 0"
      by (rule mappages_endsI [where k = "Suc 0" and T' = T' and qs = qs]) (use t(1,2) m in auto)
    with s show ?thesis by (auto simp: mappages_while)
  qed
next
  case (Suc n)
  have a: "a < MAXVA" "\<not> bit (f a) 0"
    using Suc.prems(3) Suc.prems(5) [rule_format, of 0] by (simp_all add: MAXVA_exp word_less_nat_alt)
  have off: "unat (of_nat (Suc i) * PGSIZE) = Suc i * 4096" "unat (a + of_nat (Suc i) * PGSIZE) = unat a + Suc i * 4096"
    if "i \<le> n" for i
  proof -
    show o: "unat (of_nat (Suc i) * PGSIZE) = Suc i * 4096"
      using Suc.prems(3) that by (simp add: PGSIZE_def unat_word_ariths unat_of_nat)
    show "unat (a + of_nat (Suc i) * PGSIZE) = unat a + Suc i * 4096"
      using Suc.prems(3) that o by (subst unat_plus_if') simp
  qed
  have ne: "a \<noteq> fin" using off(2) [of n] Suc.prems(4) by (metis add_cancel_right_right le_refl mult_is_0 nat.distinct(1) zero_neq_numeral)
  let ?f = "\<lambda>va. if PGROUNDDOWN va = a then PA2PTE pa OR perm OR PTE_V else f va"
  obtain t T' qs where t: "mem_upd s t" "T' \<subseteq> T \<union> set ps"
    "mappages_step pt fin perm (a, pa, None) s e = Ok (a, pa, Some (-1)) t e \<and> maps t pt T' [] f \<or>
     mappages_step pt fin perm (a, pa, None) s e = Ok (a + PGSIZE, pa + PGSIZE, None) t e \<and> set qs \<subseteq> set ps \<and>
     maps t pt T' qs ?f"
    using mappages_step_run [OF Suc.prems(1) a, where fin = fin and pa = pa and perm = perm and e = e] ne
    unfolding PGROUNDDOWN_aligned [OF Suc.prems(2)] by (simp only: if_False) blast
  from t(3) show ?case
  proof (elim disjE conjE)
    assume s: "mappages_step pt fin perm (a, pa, None) s e = Ok (a, pa, Some (-1)) t e" and m: "maps t pt T' [] f"
    have "mappages_ends s pt (T \<union> set ps) (Suc (Suc n)) (\<lambda>k. mapped a pa perm k f) t (-1)"
      by (rule mappages_endsI [where k = 0 and T' = T' and qs = "[]"]) (use t(1,2) m in auto)
    with s show ?thesis by (auto simp: mappages_while)
  next
    assume s: "mappages_step pt fin perm (a, pa, None) s e = Ok (a + PGSIZE, pa + PGSIZE, None) t e"
      and m: "maps t pt T' qs ?f" "set qs \<subseteq> set ps"
    have al: "page_aligned (a + of_nat (Suc i) * PGSIZE)" if "i \<le> n" for i
      using Suc.prems(2) by (simp only: page_aligned_unat off(2) [OF that] mod_mult_self1)
    have idx: "a + PGSIZE + of_nat i * PGSIZE = a + of_nat (Suc i) * PGSIZE" for i by (simp add: algebra_simps)
    have free: "\<not> bit (?f (a + PGSIZE + of_nat i * PGSIZE)) 0" if "i \<le> n" for i
    proof -
      have "a + of_nat (Suc i) * PGSIZE \<noteq> a"
        using off(2) [OF that] by (metis add_cancel_right_right mult_is_0 nat.distinct(1) zero_neq_numeral)
      then show ?thesis
        using PGROUNDDOWN_aligned [OF al [OF that]] Suc.prems(5) that unfolding idx by auto
    qed
    have "\<exists>x y r u. whileM (\<lambda>(a, pa, r) _. r = None) (mappages_step pt fin perm) (a + PGSIZE, pa + PGSIZE, None) t e =
      Ok (x, y, Some r) u e \<and> mappages_ends t pt (T' \<union> set qs) (Suc n) (\<lambda>k. mapped (a + PGSIZE) (pa + PGSIZE) perm k ?f) u r"
    proof (rule Suc.IH [OF m(1)])
      show "page_aligned (a + PGSIZE)" using al [of 0] by simp
      show "unat (a + PGSIZE) + 4096 * n < 2 ^ 38" using off(2) [of 0] Suc.prems(3) by simp
      show "fin = a + PGSIZE + of_nat n * PGSIZE" using Suc.prems(4) idx by simp
    qed (use free in blast)
    then obtain x y r u where u: "whileM (\<lambda>(a, pa, r) _. r = None) (mappages_step pt fin perm) (a + PGSIZE, pa + PGSIZE, None) t e =
        Ok (x, y, Some r) u e"
      "mappages_ends t pt (T' \<union> set qs) (Suc n) (\<lambda>k. mapped (a + PGSIZE) (pa + PGSIZE) perm k ?f) u r" by blast
    have "mappages_ends s pt (T \<union> set ps) (Suc (Suc n)) (\<lambda>k. mapped a pa perm k f) u r"
      by (rule mappages_ends_Suc [OF u(2) t(1)])
         (use t(2) m(2) Suc.prems(3) mapped_step [OF Suc.prems(2)] in auto)
    with s u(1) show ?thesis by (auto simp: mappages_while)
  qed
qed

text \<open>
  The frame of \<^verbatim>\<open>mappages\<close> on a range of whole pages.
\<close>

lemma mappages_run:
  assumes "maps s pt T ps f" "page_aligned va" "0 < n" "unat va + 4096 * n \<le> 2 ^ 38"
    and "\<forall>i < n. \<not> bit (f (va + of_nat i * PGSIZE)) 0"
  shows "\<exists>r t. mappages pt va (of_nat n * PGSIZE) pa perm s e = Ok r t e \<and>
    mappages_ends s pt (T \<union> set ps) n (\<lambda>k. mapped va pa perm k f) t r"
proof -
  obtain k where k: "n = Suc k" using assms(3) by (cases n) auto
  have u: "unat (of_nat n * PGSIZE) = n * 4096"
    using assms(4) by (simp add: PGSIZE_def unat_word_ariths unat_of_nat)
  then have ne: "of_nat n * PGSIZE \<noteq> 0" using k by auto
  have last: "PGROUNDDOWN (va + of_nat n * PGSIZE - 1) = va + of_nat k * PGSIZE"
  proof -
    have "unat (of_nat k * PGSIZE) = k * 4096"
      using assms(4) k by (simp add: PGSIZE_def unat_word_ariths unat_of_nat)
    then have b: "unat (va + of_nat k * PGSIZE) = unat va + k * 4096"
      using assms(4) k by (subst unat_plus_if') simp
    then have al: "page_aligned (va + of_nat k * PGSIZE)"
      using assms(2) by (simp only: page_aligned_unat b mod_mult_self1)
    have d: "va + of_nat n * PGSIZE - 1 - (va + of_nat k * PGSIZE) = 4095"
      by (simp add: k PGSIZE_def algebra_simps)
    have "within (va + of_nat k * PGSIZE) 4096 (va + of_nat n * PGSIZE - 1)" unfolding within_def d by simp
    then show ?thesis using within_page [OF al] by simp
  qed
  have "\<exists>x y r t. whileM (\<lambda>(a, pa, r) _. r = None) (mappages_step pt (va + of_nat k * PGSIZE) perm) (va, pa, None) s e =
      Ok (x, y, Some r) t e \<and> mappages_ends s pt (T \<union> set ps) (Suc k) (\<lambda>j. mapped va pa perm j f) t r"
    using assms k by (intro mappages_loop) auto
  then obtain x y r t where
    w: "whileM (\<lambda>(a, pa, r) _. r = None) (mappages_step pt (va + of_nat k * PGSIZE) perm) (va, pa, None) s e =
      Ok (x, y, Some r) t e" and "mappages_ends s pt (T \<union> set ps) n (\<lambda>j. mapped va pa perm j f) t r"
    using k by blast
  moreover have "mappages pt va (of_nat n * PGSIZE) pa perm s e = Ok r t e"
    using w ne by (simp add: mappages_def last PGROUNDDOWN_aligned [OF assms(2)] Let_def)
  ultimately show ?thesis by blast
qed

text \<open>
  C20: \<^verbatim>\<open>mappages\<close> is a map update.  On a well-formed table and \<open>n\<close> unmapped pages below
  \<^verbatim>\<open>MAXVA\<close> it does not panic; if it returns 0, \<^verbatim>\<open>walkaddr\<close> afterwards sends every user
  address of the range to the physical page at the same offset from \<^verbatim>\<open>pa\<close>, and every
  other address to what it was before; it returns -1 only when no free page is
  left, and then still no address outside the range has changed.
\<close>

theorem mappages_walkaddr:
  assumes "maps s pt T ps f" "page_aligned va" "page_aligned pa" "0 < n" "unat va + 4096 * n \<le> 2 ^ 38"
    and "\<forall>i < n. \<not> bit (f (va + of_nat i * PGSIZE)) 0"
    and perm: "drop_bit 10 perm = 0" "perm AND PTE_U \<noteq> 0"
  shows "\<exists>r t. mappages pt va (of_nat n * PGSIZE) pa perm s e = Ok r t e \<and> (r = 0 \<or> r = -1 \<and> free_pages t []) \<and>
    (\<forall>x < MAXVA.
       (r = 0 \<and> within va (4096 * n) x \<longrightarrow> walkaddr pt x t e = Ok (pa + (PGROUNDDOWN x - va)) t e) \<and>
       (\<not> within va (4096 * n) x \<longrightarrow> (\<exists>b. walkaddr pt x s e = Ok b s e \<and> walkaddr pt x t e = Ok b t e)))"
proof -
  obtain r t T' qs k where run: "mappages pt va (of_nat n * PGSIZE) pa perm s e = Ok r t e"
    and m: "maps t pt T' qs (mapped va pa perm k f)" and r: "r = 0 \<and> k = n \<or> r = -1 \<and> k < n \<and> qs = []"
    using mappages_run [OF assms(1,2,4-6)] unfolding mappages_ends_def by blast
  have wa: "walkaddr pt x t e = Ok (user_pa (mapped va pa perm k f x)) t e"
    "walkaddr pt x s e = Ok (user_pa (f x)) s e" if "x < MAXVA" for x
    using m that walkaddr_run [of t pt T' x e] walkaddr_run [of s pt T x e] assms(1) by (simp_all add: maps_def)
  have new: "user_pa (PA2PTE q OR perm OR PTE_V) = PGROUNDDOWN q" for q
  proof -
    have "(PA2PTE q OR perm OR PTE_V) AND PTE_U \<noteq> 0"
      using perm(2) unfolding and_PTE_U by (simp add: bit_or_iff)
    then show ?thesis
      using PTE2PA_make [OF perm(1), of q] make_valid [of "PA2PTE q OR perm"]
      by (simp add: user_pa_def and_PTE_V or.assoc)
  qed
  have off: "PGROUNDDOWN (pa + (PGROUNDDOWN x - va)) = pa + (PGROUNDDOWN x - va)" for x
    by (intro PGROUNDDOWN_aligned page_aligned_add page_aligned_diff assms(2,3)) simp
  have sub: "\<not> within va (4096 * n) x \<Longrightarrow> \<not> within va (4096 * k) x" for x
    using r by (auto simp: within_def)
  have "r = 0 \<or> r = -1 \<and> free_pages t []" using r m by (auto simp: maps_def vm_ok_def)
  then show ?thesis
    using run r wa new off sub by (intro exI [of _ r] exI [of _ t]) (auto simp: mapped_def)
qed

text \<open>An empty table at \<open>0x80021000\<close> and two free pages.\<close>

definition vm_example :: kmach where
  "vm_example = (kboot 0x80020000)\<lparr>mem := store64 (\<lambda>_. 0) 0x80030000 0x80031000, freelist := 0x80030000\<rparr>"

lemma vm_example_mem:
  "PGROUNDDOWN x \<noteq> 0x80030000 \<Longrightarrow> mem vm_example x = 0"
  using within_8_page [of "0x80030000" x]
  by (auto simp: vm_example_def in_page_def page_aligned_def PGSIZE_def intro: store64_other)

lemma vm_example_maps:
  "maps vm_example 0x80021000 {0x80021000} [0x80030000, 0x80031000] (\<lambda>_. 0)"
proof -
  have z: "tree (mem vm_example) 2 0x80021000 {0x80021000} \<and> pte (mem vm_example) 2 0x80021000 va = 0" for va
    by (rule zero_tree) (auto simp: page_aligned_def PGSIZE_def intro: vm_example_mem)
  have "load64 (mem vm_example) 0x80031000 = 0"
  proof (rule load64_zero)
    fix x :: uint64 assume "within 0x80031000 8 x"
    then have "PGROUNDDOWN x = 0x80031000"
      using within_8_page [of "0x80031000" x] by (simp add: in_page_def page_aligned_def PGSIZE_def)
    then show "mem vm_example x = 0" by (intro vm_example_mem) simp
  qed
  moreover have "load64 (mem vm_example) 0x80030000 = 0x80031000" by (simp add: vm_example_def)
  ultimately have "free_pages vm_example [0x80030000, 0x80031000]"
    by (simp add: free_pages_def good_page_def page_aligned_def PGSIZE_def PHYSTOP_def KERNBASE_def)
       (simp add: vm_example_def kboot_def mach.defs kmach.defs)
  moreover have "cpu_ok vm_example" "lock_free L_kmem vm_example"
    by (simp_all add: vm_example_def kboot_def boot_mach_def mach.defs kmach.defs cpu_ok_def lock_free_def
        mycpu_def cpuid_def)
  ultimately show ?thesis using z by (simp add: maps_def vm_ok_def)
qed

theorem mappages_walkaddr_witness:
  "\<exists>r t. mappages 0x80021000 0x1000 PGSIZE 0x80032000 (PTE_R OR PTE_U) vm_example [] = Ok r t [] \<and>
     (r = 0 \<longrightarrow> walkaddr 0x80021000 0x1008 t [] = Ok 0x80032000 t [])"
proof -
  have "within 0x1000 4096 (0x1008 :: uint64)" "PGROUNDDOWN 0x1008 = 0x1000" "(0x1008 :: uint64) < MAXVA"
    by (simp_all add: within_def PGROUNDDOWN_def PGSIZE_def MAXVA_exp)
  then show ?thesis
    using mappages_walkaddr [OF vm_example_maps, of "0x1000" "0x80032000" 1 "PTE_R OR PTE_U" "[]"]
    by (auto simp: page_aligned_def PGSIZE_def PTE_R_def PTE_U_def)
qed

end
