(* ===== verification/Usermem.thy ===== *)
theory Usermem
  imports Pagetable
begin

text \<open>
  What the copying functions of \<^verbatim>\<open>kernel/vm.c\<close> do, in terms of the map of the page
  table: the user address \<open>va\<close> is the physical byte \<open>uaddr f va\<close>.
\<close>

definition upage :: "(uint64 \<Rightarrow> uint64) \<Rightarrow> uint64 \<Rightarrow> uint64" where
  "upage f va = (if PGROUNDDOWN va < MAXVA then user_pa (f (PGROUNDDOWN va)) else 0)"

definition uaddr :: "(uint64 \<Rightarrow> uint64) \<Rightarrow> uint64 \<Rightarrow> uint64" where
  "uaddr f va = upage f va + (va - PGROUNDDOWN va)"

lemma PGROUNDDOWN_idem [simp]: "PGROUNDDOWN (PGROUNDDOWN a) = PGROUNDDOWN a"
  by (simp add: PGROUNDDOWN_aligned)

lemma walkaddr_upage:
  "maps s pt T ps f \<Longrightarrow> walkaddr pt (PGROUNDDOWN va) s e = Ok (upage f va) s e"
  using walkaddr_run [of s pt T "PGROUNDDOWN va" e] by (simp add: maps_def upage_def)

lemma page_offset: "unat (va - PGROUNDDOWN va) < 4096"
  using within_page [of "PGROUNDDOWN va" va] by (simp add: within_def)

lemma chunk_size:
  "unat (PGSIZE - (va - PGROUNDDOWN va)) = 4096 - unat (va - PGROUNDDOWN va)"
  using page_offset [of va] by (simp add: unat_sub word_le_nat_alt PGSIZE_def)

text \<open>The addresses of one chunk are on one page, and their bytes are consecutive.\<close>

lemma chunk_page:
  assumes "i < 4096 - unat (va - PGROUNDDOWN va)"
  shows "PGROUNDDOWN (va + of_nat i) = PGROUNDDOWN va"
    "uaddr f (va + of_nat i) = upage f va + (va - PGROUNDDOWN va) + of_nat i"
proof -
  have "unat (of_nat i :: uint64) = i" using assms by (simp add: unat_of_nat)
  then have "unat (va - PGROUNDDOWN va + of_nat i) = unat (va - PGROUNDDOWN va) + i"
  proof -
    have "unat (va - PGROUNDDOWN va) + i < 4096" using assms by linarith
    then show ?thesis using \<open>unat (of_nat i) = i\<close> by (subst unat_plus_if') simp
  qed
  then have "within (PGROUNDDOWN va) 4096 (va + of_nat i)"
    using assms unfolding within_def by (simp add: algebra_simps)
  then show p: "PGROUNDDOWN (va + of_nat i) = PGROUNDDOWN va"
    using within_page [of "PGROUNDDOWN va"] by simp
  show "uaddr f (va + of_nat i) = upage f va + (va - PGROUNDDOWN va) + of_nat i"
    by (simp add: uaddr_def upage_def p algebra_simps)
qed

lemma next_chunk:
  "PGROUNDDOWN va + PGSIZE = va + of_nat (4096 - unat (va - PGROUNDDOWN va))"
proof -
  have "of_nat (4096 - unat (va - PGROUNDDOWN va)) = PGSIZE - (va - PGROUNDDOWN va)"
    unfolding chunk_size [symmetric] by simp
  then show ?thesis by simp
qed

definition mapped_range :: "(uint64 \<Rightarrow> uint64) \<Rightarrow> uint64 \<Rightarrow> nat \<Rightarrow> bool" where
  "mapped_range f va n \<longleftrightarrow> (\<forall>i < n. upage f (va + of_nat i) \<noteq> 0)"

definition user_bytes :: "bytemem \<Rightarrow> (uint64 \<Rightarrow> uint64) \<Rightarrow> uint64 \<Rightarrow> nat \<Rightarrow> uchar list" where
  "user_bytes m f va n = map (\<lambda>i. m (uaddr f (va + of_nat i))) [0..<n]"

lemma user_bytes_split:
  "k \<le> n \<Longrightarrow> user_bytes m f va n = user_bytes m f va k @ user_bytes m f (va + of_nat k) (n - k)"
  by (rule nth_equalityI) (auto simp: user_bytes_def nth_append algebra_simps)

lemma mapped_range_0 [simp]: "mapped_range f va 0"
  by (simp add: mapped_range_def)

lemma mapped_range_split:
  assumes "k \<le> n"
  shows "mapped_range f va n \<longleftrightarrow> mapped_range f va k \<and> mapped_range f (va + of_nat k) (n - k)"
proof -
  have "(\<forall>i < n. P i) \<longleftrightarrow> (\<forall>i < k. P i) \<and> (\<forall>i < n - k. P (k + i))" for P
  proof safe
    fix i assume "\<forall>i < k. P i" "\<forall>i < n - k. P (k + i)" "i < n"
    then show "P i" using assms by (cases "i < k") (auto dest: spec [of _ "i - k"])
  qed (use assms in auto)
  from this [of "\<lambda>i. upage f (va + of_nat i) \<noteq> 0"] show ?thesis
    by (simp add: mapped_range_def add.assoc)
qed

lemma mapped_range_chunk:
  assumes "upage f va \<noteq> 0" "k \<le> 4096 - unat (va - PGROUNDDOWN va)"
  shows "mapped_range f va k"
  using assms chunk_page(1) [of _ va] unfolding mapped_range_def upage_def by (metis order_less_le_trans)

section \<open>copyin\<close>

lemma copyin_while:
  "whileM (\<lambda>(srcva, len, dst, r) _. r = None \<and> len > 0) c (va, 0 :: nat, dst, r) s e = Ok (va, 0, dst, r) s e"
  "whileM (\<lambda>(srcva, len, dst, r) _. r = None \<and> len > 0) c (va, n :: nat, dst, Some v) s e = Ok (va, n, dst, Some v) s e"
  "n > 0 \<Longrightarrow> whileM (\<lambda>(srcva, len, dst, r) _. r = None \<and> len > 0) c (va, n :: nat, dst, None) s e =
     bind (c (va, n, dst, None)) (whileM (\<lambda>(srcva, len, dst, r) _. r = None \<and> len > 0) c) s e"
  by (subst whileM_unfold, simp)+

lemma copyin_step_run:
  assumes "maps s pt T ps f" "n > 0"
  shows "copyin_step pt (va, n, dst, None) s e =
    (if upage f va = 0 then Ok (va, n, dst, Some (-1)) s e
     else let k = min (4096 - unat (va - PGROUNDDOWN va)) n
       in Ok (PGROUNDDOWN va + PGSIZE, n - k, dst @ user_bytes (mem s) f va k, None) s e)"
proof -
  have "read_bytes (mem s) (upage f va + (va - PGROUNDDOWN va)) k = user_bytes (mem s) f va k"
    if "k \<le> 4096 - unat (va - PGROUNDDOWN va)" for k
    using that chunk_page(2) [of _ va f] by (simp add: read_bytes_def user_bytes_def)
  then show ?thesis
    using assms by (simp add: copyin_step_def walkaddr_upage chunk_size Let_def)
qed

lemma copyin_loop:
  assumes "maps s pt T ps f"
  shows "\<exists>x y bs r. whileM (\<lambda>(srcva, len, dst, r) _. r = None \<and> len > 0) (copyin_step pt) (va, n, dst, None) s e =
      Ok (x, y, dst @ bs, r) s e \<and>
      (if mapped_range f va n then r = None \<and> bs = user_bytes (mem s) f va n else r = Some (-1))"
proof (induction n arbitrary: va dst rule: less_induct)
  case (less n)
  let ?k = "min (4096 - unat (va - PGROUNDDOWN va)) n"
  show ?case
  proof (cases "n = 0 \<or> upage f va = 0")
    case True
    then show ?thesis
      by (cases "n = 0") (auto simp: copyin_while copyin_step_run [OF assms] mapped_range_def user_bytes_def intro!: exI [of _ "[]"] exI [of _ 0])
  next
    case False
    then have n: "n > 0" and up: "upage f va \<noteq> 0" by auto
    have k: "0 < ?k" "?k \<le> n" using n page_offset [of va] by auto
    have nxt: "n - ?k = 0 \<or> PGROUNDDOWN va + PGSIZE = va + of_nat ?k"
      using next_chunk [of va] by (cases "n \<le> 4096 - unat (va - PGROUNDDOWN va)") auto
    have "mapped_range f (PGROUNDDOWN va + PGSIZE) (n - ?k) = mapped_range f (va + of_nat ?k) (n - ?k)"
      using nxt by (elim disjE) (simp_all only: mapped_range_0)
    then have rest: "mapped_range f va n \<longleftrightarrow> mapped_range f (PGROUNDDOWN va + PGSIZE) (n - ?k)"
      using mapped_range_split [OF k(2), of f va] mapped_range_chunk [OF up, of ?k] by simp
    have bytes: "user_bytes (mem s) f va n = user_bytes (mem s) f va ?k @ user_bytes (mem s) f (PGROUNDDOWN va + PGSIZE) (n - ?k)"
      using nxt user_bytes_split [OF k(2), of "mem s" f va] by (auto simp: user_bytes_def)
    obtain x y bs r where IH: "whileM (\<lambda>(srcva, len, dst, r) _. r = None \<and> len > 0) (copyin_step pt)
        (PGROUNDDOWN va + PGSIZE, n - ?k, dst @ user_bytes (mem s) f va ?k, None) s e =
        Ok (x, y, (dst @ user_bytes (mem s) f va ?k) @ bs, r) s e"
      "if mapped_range f (PGROUNDDOWN va + PGSIZE) (n - ?k) then r = None \<and> bs = user_bytes (mem s) f (PGROUNDDOWN va + PGSIZE) (n - ?k)
       else r = Some (-1)"
      using less [of "n - ?k" "PGROUNDDOWN va + PGSIZE" "dst @ user_bytes (mem s) f va ?k"] n k(1) by auto
    have "whileM (\<lambda>(srcva, len, dst, r) _. r = None \<and> len > 0) (copyin_step pt) (va, n, dst, None) s e =
       Ok (x, y, dst @ (user_bytes (mem s) f va ?k @ bs), r) s e"
      using IH(1) n up by (simp add: copyin_while(3) copyin_step_run [OF assms n] Let_def)
    then show ?thesis using IH(2) rest bytes by (intro exI [of _ x] exI [of _ y] exI [of _ "user_bytes (mem s) f va ?k @ bs"] exI [of _ r]) auto
  qed
qed

text \<open>
  \<^verbatim>\<open>copyin\<close> succeeds exactly if every byte of the range is in a user page, and then gives those bytes.
\<close>

lemma copyin_run:
  assumes "maps s pt T ps f"
  shows "\<exists>bs. copyin pt va n s e =
    Ok (if mapped_range f va n then (0, user_bytes (mem s) f va n) else (-1, bs)) s e"
proof -
  obtain x y bs r where "whileM (\<lambda>(srcva, len, dst, r) _. r = None \<and> len > 0) (copyin_step pt) (va, n, [], None) s e =
      Ok (x, y, [] @ bs, r) s e"
     "if mapped_range f va n then r = None \<and> bs = user_bytes (mem s) f va n else r = Some (-1)"
    using copyin_loop [OF assms] by blast
  then show ?thesis by (intro exI [of _ bs]) (auto simp: copyin_def split: if_splits)
qed

section \<open>copyout\<close>

text \<open>\<open>user_range\<close>: the bytes of the range are user bytes outside the table and the free pages, each once.\<close>

definition user_range :: "(uint64 \<Rightarrow> uint64) \<Rightarrow> uint64 set \<Rightarrow> uint64 \<Rightarrow> nat \<Rightarrow> bool" where
  "user_range f K va n \<longleftrightarrow> mapped_range f va n \<and> (\<forall>i < n. PGROUNDDOWN (uaddr f (va + of_nat i)) \<notin> K) \<and>
     inj_on (\<lambda>i. uaddr f (va + of_nat i)) {..<n}"

lemma maps_write:
  assumes "maps s pt T ps f" "\<And>x. PGROUNDDOWN x \<in> T \<union> set ps \<Longrightarrow> m x = mem s x"
  shows "maps (s\<lparr>mem := m\<rparr>) pt T ps f"
proof -
  have tr: "tree (mem s) 2 pt T" "vm_ok T ps s" using assms(1) by (auto simp: maps_def)
  have t: "tree m 2 pt T" "slot m 2 pt va = slot (mem s) 2 pt va" for va
    using tree_cong [OF tr(1), of m] assms(2) by auto
  have "load64 m a = load64 (mem s) a" if sl: "slot (mem s) 2 pt va = Some a" for a va
  proof -
    obtain p where p: "p \<in> T" "page_aligned p" "a = p + 8 * PX 0 va"
      using slot_page [OF tr(1) sl] by blast
    then show ?thesis using assms(2) entry_in_page [OF p(2) PX_less] by (intro load64_cong) blast
  qed
  then have "pte m 2 pt va = pte (mem s) 2 pt va" for va
    using t(2) by (auto simp: pte_def split: option.splits)
  moreover have "free_pages (s\<lparr>mem := m\<rparr>) ps"
    using tr(2) assms(2) by (intro free_pages_frame) (auto simp: vm_ok_def in_page_def)
  ultimately show ?thesis using assms(1) t(1) tr(2) by (simp add: maps_def vm_ok_def)
qed

lemma write_bytes_at:
  assumes "length bs \<le> 2 ^ 64" "i < length bs"
  shows "write_bytes m a bs (a + of_nat i) = bs ! i"
  using assms by (simp add: write_bytes_def within_off unat_of_nat)

lemma write_bytes_outside:
  assumes "length bs \<le> 2 ^ 64" "\<forall>i < length bs. x \<noteq> a + of_nat i"
  shows "write_bytes m a bs x = m x"
proof -
  have "\<not> within a (length bs) x"
  proof
    assume w: "within a (length bs) x"
    have "x = a + of_nat (unat (x - a))" by simp
    with w assms(2) show False unfolding within_def by blast
  qed
  then show ?thesis by (simp add: write_bytes_def)
qed

lemma copyout_while:
  "whileM (\<lambda>(dstva, src, r) _. r = None \<and> src \<noteq> []) c (va, [], None) s e = Ok (va, [], None) s e"
  "src \<noteq> [] \<Longrightarrow> whileM (\<lambda>(dstva, src, r) _. r = None \<and> src \<noteq> []) c (va, src, None) s e =
     bind (c (va, src, None)) (whileM (\<lambda>(dstva, src, r) _. r = None \<and> src \<noteq> []) c) s e"
  by (subst whileM_unfold, simp)+

lemma user_range_split:
  assumes "user_range f K va n" "k \<le> n"
  shows "user_range f K va k" "user_range f K (va + of_nat k) (n - k)"
    "\<And>i j. i < k \<Longrightarrow> j < n - k \<Longrightarrow> uaddr f (va + of_nat i) \<noteq> uaddr f (va + of_nat k + of_nat j)"
proof -
  have m: "mapped_range f va k" "mapped_range f (va + of_nat k) (n - k)"
    and o: "\<forall>i < n. PGROUNDDOWN (uaddr f (va + of_nat i)) \<notin> K"
    and inj: "inj_on (\<lambda>i. uaddr f (va + of_nat i)) {..<n}"
    using assms mapped_range_split [OF assms(2)] by (auto simp: user_range_def)
  have add: "va + of_nat k + of_nat j = va + of_nat (k + j)" for j by (simp add: add.assoc)
  show "user_range f K va k"
    using m(1) o inj assms(2) by (auto simp: user_range_def inj_on_def)
  show "uaddr f (va + of_nat i) \<noteq> uaddr f (va + of_nat k + of_nat j)" if "i < k" "j < n - k" for i j
  proof -
    have "i \<in> {..<n}" "k + j \<in> {..<n}" "i \<noteq> k + j" using that assms(2) by auto
    then show ?thesis using inj unfolding add inj_on_def by blast
  qed
  have "inj_on (\<lambda>j. uaddr f (va + of_nat (k + j))) {..<n - k}"
  proof (rule inj_onI)
    fix x y assume "x \<in> {..<n - k}" "y \<in> {..<n - k}"
      and eq: "uaddr f (va + of_nat (k + x)) = uaddr f (va + of_nat (k + y))"
    then have "k + x \<in> {..<n}" "k + y \<in> {..<n}" by auto
    then have "k + x = k + y" using inj eq unfolding inj_on_def by blast
    then show "x = y" by simp
  qed
  then show "user_range f K (va + of_nat k) (n - k)"
    using m(2) o assms(2) unfolding user_range_def add by (simp del: of_nat_add)
qed

lemma copyout_step_run:
  assumes "maps s pt T ps f" "user_range f (T \<union> set ps) va (length src)" "length src < 2 ^ 64"
    and k: "k = min (4096 - unat (va - PGROUNDDOWN va)) (length src)" and ne: "src \<noteq> []"
  shows "\<exists>m. copyout_step pt (va, src, None) s e = Ok (PGROUNDDOWN va + PGSIZE, drop k src, None) (s\<lparr>mem := m\<rparr>) e \<and>
    maps (s\<lparr>mem := m\<rparr>) pt T ps f \<and> (\<forall>i < k. m (uaddr f (va + of_nat i)) = src ! i) \<and>
    (\<forall>x. (\<forall>i < k. x \<noteq> uaddr f (va + of_nat i)) \<longrightarrow> m x = mem s x)"
proof -
  let ?a = "upage f va + (va - PGROUNDDOWN va)"
  let ?m = "write_bytes (mem s) ?a (take k src)"
  have a: "uaddr f (va + of_nat i) = ?a + of_nat i" if "i < k" for i
    using chunk_page(2) [of i va f] that k by simp
  have len: "length (take k src) = k" "k \<le> 2 ^ 64" "k > 0"
    using k assms(3) ne page_offset [of va] by auto
  have r: "user_range f (T \<union> set ps) va k"
    using user_range_split(1) [OF assms(2), of k] k by simp
  then have "upage f (va + of_nat 0) \<noteq> 0"
    using len(3) unfolding user_range_def mapped_range_def by blast
  then have run: "copyout_step pt (va, src, None) s e = Ok (PGROUNDDOWN va + PGSIZE, drop k src, None) (s\<lparr>mem := ?m\<rparr>) e"
    using assms(1) k by (simp add: copyout_step_def walkaddr_upage chunk_size Let_def)
  have at: "?m (uaddr f (va + of_nat i)) = src ! i" if "i < k" for i
    using write_bytes_at [of "take k src" i "mem s" ?a] len that a by simp
  have out: "?m x = mem s x" if "\<forall>i < k. x \<noteq> uaddr f (va + of_nat i)" for x
    using write_bytes_outside [of "take k src" x ?a "mem s"] len that a by simp
  have "maps (s\<lparr>mem := ?m\<rparr>) pt T ps f"
  proof (rule maps_write [OF assms(1)])
    fix x assume "PGROUNDDOWN x \<in> T \<union> set ps"
    then show "?m x = mem s x" using r by (intro out) (auto simp: user_range_def)
  qed
  with run at out show ?thesis by blast
qed

lemma copyout_loop:
  assumes "maps s pt T ps f" "user_range f (T \<union> set ps) va (length src)" "length src < 2 ^ 64"
  shows "\<exists>x m. whileM (\<lambda>(dstva, src, r) _. r = None \<and> src \<noteq> []) (copyout_step pt) (va, src, None) s e =
      Ok (x, [], None) (s\<lparr>mem := m\<rparr>) e \<and> maps (s\<lparr>mem := m\<rparr>) pt T ps f \<and>
    (\<forall>i < length src. m (uaddr f (va + of_nat i)) = src ! i) \<and>
    (\<forall>x. (\<forall>i < length src. x \<noteq> uaddr f (va + of_nat i)) \<longrightarrow> m x = mem s x)"
  using assms
proof (induction "length src" arbitrary: va src s rule: less_induct)
  case less
  show ?case
  proof (cases "src = []")
    case True
    then show ?thesis
      using less.prems by (intro exI [of _ va] exI [of _ "mem s"]) (simp add: copyout_while)
  next
    case False
    define k where "k = min (4096 - unat (va - PGROUNDDOWN va)) (length src)"
    have k: "0 < k" "k \<le> length src" using False page_offset [of va] by (auto simp: k_def)
    obtain m where m: "copyout_step pt (va, src, None) s e = Ok (PGROUNDDOWN va + PGSIZE, drop k src, None) (s\<lparr>mem := m\<rparr>) e"
      "maps (s\<lparr>mem := m\<rparr>) pt T ps f" "\<forall>i < k. m (uaddr f (va + of_nat i)) = src ! i"
      "\<forall>x. (\<forall>i < k. x \<noteq> uaddr f (va + of_nat i)) \<longrightarrow> m x = mem s x"
      using copyout_step_run [OF less.prems k_def False] by blast
    show ?thesis
    proof (cases "k = length src")
      case True
      then show ?thesis using m False by (intro exI [of _ "PGROUNDDOWN va + PGSIZE"] exI [of _ m]) (simp add: copyout_while)
    next
      case lt: False
      then have nxt: "PGROUNDDOWN va + PGSIZE = va + of_nat k"
        using next_chunk [of va] by (simp add: k_def min_def split: if_splits)
      note r = user_range_split [OF less.prems(2) k(2)]
      obtain y m' where m': "whileM (\<lambda>(dstva, src, r) _. r = None \<and> src \<noteq> []) (copyout_step pt) (va + of_nat k, drop k src, None) (s\<lparr>mem := m\<rparr>) e =
          Ok (y, [], None) ((s\<lparr>mem := m\<rparr>)\<lparr>mem := m'\<rparr>) e" "maps ((s\<lparr>mem := m\<rparr>)\<lparr>mem := m'\<rparr>) pt T ps f"
        "\<forall>i < length (drop k src). m' (uaddr f (va + of_nat k + of_nat i)) = drop k src ! i"
        "\<forall>x. (\<forall>i < length (drop k src). x \<noteq> uaddr f (va + of_nat k + of_nat i)) \<longrightarrow> m' x = mem (s\<lparr>mem := m\<rparr>) x"
      proof -
        have "length (drop k src) < length src" "user_range f (T \<union> set ps) (va + of_nat k) (length (drop k src))"
          "length (drop k src) < 2 ^ 64"
          using k r(2) less.prems(3) by (simp_all del: of_nat_add)
        from less.hyps [OF this(1) m(2) this(2,3)] show ?thesis using that by blast
      qed
      have low: "m' (uaddr f (va + of_nat i)) = src ! i" if "i < k" for i
      proof -
        have "\<forall>j < length (drop k src). uaddr f (va + of_nat i) \<noteq> uaddr f (va + of_nat k + of_nat j)"
          using r(3) [OF that] by simp
        then show ?thesis using m'(4) m(3) that by simp
      qed
      have at: "m' (uaddr f (va + of_nat i)) = src ! i" if "i < length src" for i
      proof (cases "i < k")
        case False
        then have "m' (uaddr f (va + of_nat k + of_nat (i - k))) = drop k src ! (i - k)"
          using that m'(3) by (metis diff_less_mono length_drop not_less)
        then show ?thesis using False k(2) by simp
      qed (rule low)
      have out: "m' x = mem s x" if o: "\<forall>i < length src. x \<noteq> uaddr f (va + of_nat i)" for x
      proof -
        have "x \<noteq> uaddr f (va + of_nat k + of_nat j)" if "j < length (drop k src)" for j
        proof -
          have "k + j < length src" using that by simp
          from o [rule_format, OF this] show ?thesis by (simp add: add.assoc)
        qed
        then show ?thesis using m'(4) m(4) o k(2) by simp
      qed
      show ?thesis
        using m(1) m'(1,2) at out False nxt
        by (intro exI [of _ y] exI [of _ m']) (simp add: copyout_while)
    qed
  qed
qed

text \<open>
  C21: what the kernel copies out it can copy in again.  On a range of mapped user
  bytes, each backed by its own physical byte outside the page table and the free
  list, \<^verbatim>\<open>copyout\<close> returns 0 and a following \<^verbatim>\<open>copyin\<close> of the same range returns 0
  and the same bytes, whatever pages the range spans; no other byte of memory has changed.
\<close>

theorem copyout_copyin:
  assumes "maps s pt T ps f" "user_range f (T \<union> set ps) va (length src)" "length src < 2 ^ 64"
  shows "\<exists>m. copyout pt va src s e = Ok 0 (s\<lparr>mem := m\<rparr>) e \<and>
    copyin pt va (length src) (s\<lparr>mem := m\<rparr>) e = Ok (0, src) (s\<lparr>mem := m\<rparr>) e \<and>
    (\<forall>x. (\<forall>i < length src. x \<noteq> uaddr f (va + of_nat i)) \<longrightarrow> m x = mem s x)"
proof -
  obtain x m where m: "whileM (\<lambda>(dstva, src, r) _. r = None \<and> src \<noteq> []) (copyout_step pt) (va, src, None) s e =
      Ok (x, [], None) (s\<lparr>mem := m\<rparr>) e" "maps (s\<lparr>mem := m\<rparr>) pt T ps f"
    "\<forall>i < length src. m (uaddr f (va + of_nat i)) = src ! i"
    "\<forall>x. (\<forall>i < length src. x \<noteq> uaddr f (va + of_nat i)) \<longrightarrow> m x = mem s x"
    using copyout_loop [OF assms] by blast
  have "user_bytes m f va (length src) = src"
    using m(3) by (intro nth_equalityI) (simp_all add: user_bytes_def)
  moreover have "mapped_range f va (length src)" using assms(2) by (simp add: user_range_def)
  ultimately show ?thesis
    using m(1,4) copyin_run [OF m(2), of va "length src" e] by (auto simp: copyout_def)
qed

text \<open>One byte, and the parts of the state the map depends on.\<close>

lemma copyout_byte:
  assumes "maps s pt T ps f" "user_range f (T \<union> set ps) va 1"
  shows "copyout pt va [c] s e = Ok 0 (s\<lparr>mem := (mem s)(uaddr f va := c)\<rparr>) e"
    "maps (s\<lparr>mem := (mem s)(uaddr f va := c)\<rparr>) pt T ps f"
proof -
  obtain x m where m: "whileM (\<lambda>(dstva, src, r) _. r = None \<and> src \<noteq> []) (copyout_step pt) (va, [c], None) s e =
      Ok (x, [], None) (s\<lparr>mem := m\<rparr>) e" "maps (s\<lparr>mem := m\<rparr>) pt T ps f"
    "m (uaddr f va) = c" "\<forall>x. x \<noteq> uaddr f va \<longrightarrow> m x = mem s x"
    using copyout_loop [of s pt T ps f va "[c]" e] assms by auto
  then have "m = (mem s)(uaddr f va := c)" by auto
  with m show "copyout pt va [c] s e = Ok 0 (s\<lparr>mem := (mem s)(uaddr f va := c)\<rparr>) e"
    "maps (s\<lparr>mem := (mem s)(uaddr f va := c)\<rparr>) pt T ps f"
    by (simp_all add: copyout_def)
qed

lemma maps_cong:
  assumes "maps s pt T ps f" "mem t = mem s" "kend t = kend s" "freelist t = freelist s" "cpu_ok t" "lock_free L_kmem t"
  shows "maps t pt T ps f"
  using assms by (simp add: maps_def vm_ok_def free_pages_def)

section \<open>An example\<close>

text \<open>A table at \<open>0x80021000\<close> that maps the page \<open>0x1000\<close> to the frame \<open>0x80024000\<close>, user readable and writable.\<close>

lemma entry_store:
  assumes "page_aligned p" "page_aligned q" "i < 512" "j < 512"
  shows "load64 (store64 m (q + 8 * j) v) (p + 8 * i) = (if p = q \<and> i = j then v else load64 m (p + 8 * i))"
proof (cases "p = q \<and> i = j")
  case False
  have "\<not> within (q + 8 * j) 8 x" if "within (p + 8 * i) 8 x" for x
  proof (cases "p = q")
    case True
    then show ?thesis using entry_disjoint [OF assms(3,4) _ that] False by blast
  next
    case neq: False
    then show ?thesis using entry_in_page [OF assms(1,3) that] entry_in_page [OF assms(2,4), of x] by blast
  qed
  then show ?thesis using False by (subst load64_store64_other) auto
qed auto

definition ue_mem :: bytemem where
  "ue_mem = store64 (store64 (store64 (\<lambda>_. 0)
       (0x80021000 + 8 * 0) (PA2PTE 0x80022000 OR PTE_V))
       (0x80022000 + 8 * 0) (PA2PTE 0x80023000 OR PTE_V))
       (0x80023000 + 8 * 1) (PA2PTE 0x80024000 OR (PTE_R OR PTE_W OR PTE_U) OR PTE_V)"

definition user_example :: kmach where
  "user_example = (kboot 0x80020000)\<lparr>mem := ue_mem\<rparr>"

lemma zero_entry: "load64 (\<lambda>_. 0) a = 0"
  by (rule load64_zero) simp

lemma ue_entries:
  assumes "page_aligned p" "i < 512"
  shows "entry ue_mem p i =
    (if p = 0x80023000 \<and> i = 1 then 0x20009017 else if p = 0x80022000 \<and> i = 0 then 0x20008c01
     else if p = 0x80021000 \<and> i = 0 then 0x20008801 else 0)"
proof -
  have al: "page_aligned 0x80021000" "page_aligned 0x80022000" "page_aligned 0x80023000"
    by (simp_all add: page_aligned_def PGSIZE_def)
  have v: "PA2PTE 0x80022000 OR PTE_V = 0x20008801" "PA2PTE 0x80023000 OR PTE_V = 0x20008c01"
    "PA2PTE 0x80024000 OR (PTE_R OR PTE_W OR PTE_U) OR PTE_V = 0x20009017"
    by (simp_all add: PA2PTE_def PTE_V_def PTE_R_def PTE_W_def PTE_U_def)
  have i: "(0 :: uint64) < 512" "(1 :: uint64) < 512" by simp_all
  show ?thesis
    unfolding ue_mem_def
    by (simp only: v entry_store [OF assms(1) al(3) assms(2) i(2)] entry_store [OF assms(1) al(2) assms(2) i(1)]
        entry_store [OF assms(1) al(1) assms(2) i(1)] zero_entry)
qed

lemma ue_maps:
  "maps user_example 0x80021000 {0x80021000, 0x80022000, 0x80023000} [] (pte ue_mem 2 0x80021000)"
proof -
  have al: "page_aligned 0x80021000" "page_aligned 0x80022000" "page_aligned 0x80023000"
    by (simp_all add: page_aligned_def PGSIZE_def)
  have pa: "PTE2PA 0x20008801 = 0x80022000" "PTE2PA 0x20008c01 = 0x80023000"
    by (simp_all add: PTE2PA_def)
  have b: "bit (0x20008801 :: uint64) 0" "bit (0x20008c01 :: uint64) 0"
    by (simp_all add: bit_0)
  have l1: "tree ue_mem (Suc 0) 0x80022000 {0x80022000, 0x80023000}"
    unfolding tree.simps
    by (intro conjI al(2) exI [of _ "\<lambda>i. if i = 0 then {0x80023000} else {}"])
       (auto simp: ue_entries [OF al(2)] pa b al split: if_splits)
  have "tree ue_mem (Suc (Suc 0)) 0x80021000 {0x80021000, 0x80022000, 0x80023000}"
    unfolding tree.simps(2) [of _ "Suc 0"]
    by (intro conjI al(1) exI [of _ "\<lambda>i. if i = 0 then {0x80022000, 0x80023000} else {}"])
       (use l1 in \<open>auto simp: ue_entries [OF al(1)] pa b simp del: tree.simps split: if_splits\<close>)
  moreover have "cpu_ok user_example" "lock_free L_kmem user_example" "free_pages user_example []"
    by (simp_all add: user_example_def kboot_def boot_mach_def mach.defs kmach.defs cpu_ok_def lock_free_def
        mycpu_def cpuid_def free_pages_def)
  moreover have "mem user_example = ue_mem" by (simp add: user_example_def)
  ultimately show ?thesis
    unfolding maps_def vm_ok_def by (simp only: numeral_2_eq_2) simp
qed

lemma ue_page: "upage (pte ue_mem 2 0x80021000) 0x1003 = 0x80024000"
proof -
  have al: "page_aligned 0x80021000" "page_aligned 0x80022000" "page_aligned 0x80023000"
    by (simp_all add: page_aligned_def PGSIZE_def)
  have px: "PX 0 0x1000 = 1" "PX (Suc 0) 0x1000 = 0" "PX (Suc (Suc 0)) 0x1000 = 0"
    by (simp_all add: PX_def PXSHIFT_def PGSHIFT_def PXMASK_def)
  have i: "(0 :: uint64) < 512" "(1 :: uint64) < 512" by simp_all
  have e: "entry ue_mem 0x80021000 0 = 0x20008801" "entry ue_mem 0x80022000 0 = 0x20008c01"
    "entry ue_mem 0x80023000 1 = 0x20009017"
    using ue_entries [OF al(1) i(1)] ue_entries [OF al(2) i(1)] ue_entries [OF al(3) i(2)] by simp_all
  have b: "bit (0x20008801 :: uint64) 0" "bit (0x20008c01 :: uint64) 0" by (simp_all add: bit_0)
  have pa: "PTE2PA 0x20008801 = 0x80022000" "PTE2PA 0x20008c01 = 0x80023000"
    by (simp_all add: PTE2PA_def)
  have "slot ue_mem (Suc (Suc 0)) 0x80021000 0x1000 = Some (0x80023000 + 8 * 1)"
    by (simp only: slot.simps px e b pa if_True)
  then have "pte ue_mem 2 0x80021000 0x1000 = 0x20009017"
    unfolding pte_def numeral_2_eq_2 by (simp only: option.case e)
  moreover have "PGROUNDDOWN 0x1003 = 0x1000" "(0x1000 :: uint64) < MAXVA"
    by (simp_all add: PGROUNDDOWN_def PGSIZE_def MAXVA_exp)
  ultimately show ?thesis
    by (simp add: upage_def user_pa_def PTE_V_def PTE_U_def PTE2PA_def)
qed

lemma ue_range:
  "user_range (pte ue_mem 2 0x80021000) {0x80021000, 0x80022000, 0x80023000} 0x1003 3"
proof -
  have d: "PGROUNDDOWN 0x1003 = 0x1000" by (simp add: PGROUNDDOWN_def PGSIZE_def)
  have u: "uaddr (pte ue_mem 2 0x80021000) (0x1003 + of_nat i) = 0x80024003 + of_nat i \<and>
      PGROUNDDOWN (0x80024003 + of_nat i) = 0x80024000" if "i < 3" for i
  proof -
    have "i < 4096 - unat ((0x1003 :: uint64) - PGROUNDDOWN 0x1003)" using that by (simp add: d)
    from chunk_page(2) [OF this, of "pte ue_mem 2 0x80021000"]
    have "uaddr (pte ue_mem 2 0x80021000) (0x1003 + of_nat i) = 0x80024003 + of_nat i"
      by (simp add: ue_page d)
    moreover have "within 0x80024000 4096 (0x80024003 + of_nat i)"
      using that by (simp add: within_def) (subst unat_plus_if', simp add: unat_of_nat)
    then have "PGROUNDDOWN (0x80024003 + of_nat i) = 0x80024000"
      using within_page [of "0x80024000"] by (simp add: page_aligned_def PGSIZE_def)
    ultimately show ?thesis by blast
  qed
  have "mapped_range (pte ue_mem 2 0x80021000) 0x1003 3"
    by (rule mapped_range_chunk) (simp_all add: ue_page d)
  moreover have "inj_on (\<lambda>i. 0x80024003 + of_nat i :: uint64) {..<3}"
    by (auto simp: inj_on_def less_Suc_eq numeral_eq_Suc)
  then have "inj_on (\<lambda>i. uaddr (pte ue_mem 2 0x80021000) (0x1003 + of_nat i)) {..<3}"
    using u by (auto simp: inj_on_def)
  ultimately show ?thesis using u by (simp add: user_range_def)
qed

theorem copyout_copyin_witness:
  "\<exists>m. copyout 0x80021000 0x1003 [7, 8, 9] user_example [] = Ok 0 (user_example\<lparr>mem := m\<rparr>) [] \<and>
     copyin 0x80021000 0x1003 3 (user_example\<lparr>mem := m\<rparr>) [] = Ok (0, [7, 8, 9]) (user_example\<lparr>mem := m\<rparr>) []"
proof -
  have len: "length [7, 8, 9 :: uchar] = 3" by simp
  show ?thesis
    using copyout_copyin [OF ue_maps, of "0x1003" "[7, 8, 9]" "[]", unfolded len] ue_range by auto
qed

end
