(* ===== verification/Ring.thy ===== *)
theory Ring
  imports Prelude
begin

text \<open>
  Bounded FIFO queues.  The kernel keeps three of them (the UART's output, the
  console's input, the bytes of a pipe), each as an array with a read and a
  write counter that only ever grow and wrap around at the width of the counter.
  The locale states what a client may rely on; the lemmas of the first part show that
  an array with wrapping counters keeps that promise if its size divides the
  range of the counters.
\<close>

section \<open>The contract\<close>

datatype 'a fifo_op = Put 'a | Get

text \<open>
  A run of puts and gets: a put on a full queue and a get on an empty one are
  refused and change nothing.  The result has what was accepted and what was delivered.
\<close>

primrec fifo_run ::
  "('q \<Rightarrow> 'a list) \<Rightarrow> ('a \<Rightarrow> 'q \<Rightarrow> 'q) \<Rightarrow> ('q \<Rightarrow> 'a \<times> 'q) \<Rightarrow> nat \<Rightarrow> 'a fifo_op list \<Rightarrow> 'q \<Rightarrow> 'a list \<times> 'a list \<times> 'q" where
  "fifo_run contents put get cap [] q = ([], [], q)"
| "fifo_run contents put get cap (op # ops) q =
     (case op of
        Put a \<Rightarrow> if length (contents q) < cap
                 then let (i, out, q') = fifo_run contents put get cap ops (put a q) in (a # i, out, q')
                 else fifo_run contents put get cap ops q
      | Get \<Rightarrow> if contents q \<noteq> []
               then let (a, q1) = get q; (i, out, q') = fifo_run contents put get cap ops q1 in (i, a # out, q')
               else fifo_run contents put get cap ops q)"

locale fifo =
  fixes contents :: "'q \<Rightarrow> 'a list"
    and put :: "'a \<Rightarrow> 'q \<Rightarrow> 'q"
    and get :: "'q \<Rightarrow> 'a \<times> 'q"
    and cap :: nat
  assumes put_law: "length (contents q) < cap \<Longrightarrow> contents (put a q) = contents q @ [a]"
    and get_law: "contents q \<noteq> [] \<Longrightarrow> contents q = fst (get q) # contents (snd (get q))"
begin

lemma puts_law: "length (contents q) + length xs \<le> cap \<Longrightarrow> contents (fold put xs q) = contents q @ xs"
  by (induction xs arbitrary: q) (simp_all add: put_law)

text \<open>Nothing is lost, duplicated or reordered, and the bound is kept.\<close>

lemma run_fifo:
  assumes "fifo_run contents put get cap ops q = (i, out, q')"
  shows "contents q @ i = out @ contents q'"
  using assms
proof (induction ops arbitrary: q i out)
  case Nil
  then show ?case by simp
next
  case (Cons op ops)
  show ?case
  proof (cases op)
    case (Put a)
    then show ?thesis
      using Cons.IH [of "put a q"] Cons.IH [of q] Cons.prems put_law [of q a]
      by (fastforce split: if_splits prod.splits)
  next
    case Get
    then show ?thesis
      using Cons.IH [of "snd (get q)"] Cons.IH [of q] Cons.prems get_law [of q]
      by (fastforce split: if_splits prod.splits)
  qed
qed

lemma run_bound:
  assumes "fifo_run contents put get cap ops q = (i, out, q')" "length (contents q) \<le> cap"
  shows "length (contents q') \<le> cap"
  using assms
proof (induction ops arbitrary: q i out)
  case Nil
  then show ?case by simp
next
  case (Cons op ops)
  show ?case
  proof (cases op)
    case (Put a)
    then show ?thesis
      using Cons put_law [of q a] by (auto split: if_splits prod.splits)
  next
    case Get
    have "length (contents (snd (get q))) \<le> cap" if "contents q \<noteq> []"
      using get_law [OF that] Cons.prems(2) by (metis Suc_leD length_Cons)
    then show ?thesis
      using Cons Get by (auto split: if_splits prod.splits)
  qed
qed

end

section \<open>Arrays with wrapping counters\<close>

text \<open>The elements between the read counter \<open>r\<close> and the write counter \<open>w\<close> of an array of \<open>n\<close> slots.\<close>

definition ring :: "nat \<Rightarrow> (nat \<Rightarrow> 'a) \<Rightarrow> 'w::len word \<Rightarrow> 'w word \<Rightarrow> 'a list" where
  "ring n buf r w = map (\<lambda>i. buf (unat (r + of_nat i) mod n)) [0..<unat (w - r)]"

lemma length_ring [simp]: "length (ring n buf r w) = unat (w - r)"
  by (simp add: ring_def)

lemma ring_eq_Nil [simp]: "ring n buf r w = [] \<longleftrightarrow> w = r"
  by (metis length_ring length_0_conv eq_iff_diff_eq_0 unat_eq_zero)

lemma ring_self [simp]: "ring n buf r r = []"
  by (simp add: ring_def)

lemma counter_succ:
  fixes r w :: "'w::len word"
  assumes "w \<noteq> r"
  shows "unat (w - (r + 1)) = unat (w - r) - 1"
proof -
  have "w - r \<noteq> 0" using assms by simp
  then have "unat (w - r - 1) = unat (w - r) - 1" by (rule unat_minus_one)
  then show ?thesis by (simp add: diff_diff_eq)
qed

lemma ring_pop:
  assumes "w \<noteq> r"
  shows "ring n buf r w = buf (unat r mod n) # ring n buf (r + 1) w"
proof -
  have "unat (w - r) \<noteq> 0" using assms by (simp add: unat_eq_zero)
  then obtain k where k: "unat (w - r) = Suc k" by (cases "unat (w - r)") auto
  then have "unat (w - (r + 1)) = k" using counter_succ [OF assms] by simp
  then show ?thesis
    by (simp add: ring_def k upt_conv_Cons add.assoc map_Suc_upt [symmetric] del: upt_Suc)
qed

text \<open>
  Adding at the write counter: the slot is not one of those in use, because fewer
  than \<open>n\<close> are and \<open>n\<close> divides the range of the counters.
\<close>

lemma unat_word_mod:
  fixes a :: "'w::len word"
  assumes "n dvd 2 ^ LENGTH('w)"
  shows "unat (a + of_nat i) mod n = (unat a + i) mod n"
proof -
  have "unat (a + of_nat i) = (unat a + i) mod 2 ^ LENGTH('w)"
    by (simp add: unat_word_ariths unat_of_nat mod_simps)
  then show ?thesis using assms by (simp add: mod_mod_cancel)
qed

lemma mod_eq_small:
  assumes "(a + i) mod n = (a + j) mod n" "i < n" "j < (n::nat)"
  shows "i = j"
proof -
  have "i = j" if "(a + i) mod n = (a + j) mod n" "i \<le> j" "j < n" for i j
  proof -
    have "n dvd (a + j) - (a + i)"
      using that mod_eq_dvd_iff_nat [of "a + i" "a + j" n] by simp
    then have "n dvd j - i" by simp
    moreover have "j - i < n" using that by simp
    ultimately have "j - i = 0" by (metis gr0I nat_dvd_not_less)
    then show ?thesis using that by simp
  qed
  then show ?thesis using assms by (cases "i \<le> j") (metis, metis nat_le_linear)
qed

lemma ring_push:
  fixes r w :: "'w::len word"
  assumes "n dvd 2 ^ LENGTH('w)" "unat (w - r) < n" "n < 2 ^ LENGTH('w)"
  shows "ring n (buf(unat w mod n := c)) r (w + 1) = ring n buf r w @ [c]"
proof -
  let ?k = "unat (w - r)"
  have w: "unat w mod n = (unat r + ?k) mod n"
    using unat_word_mod [OF assms(1), of r ?k] by simp
  have "unat (w + 1 - r) = Suc ?k"
  proof -
    have "Suc ?k < 2 ^ LENGTH('w)" using assms(2,3) by linarith
    then have "unat ((w - r) + 1) = Suc ?k" by (simp only: unat_word_ariths) simp
    moreover have "w + 1 - r = (w - r) + 1" by simp
    ultimately show ?thesis by metis
  qed
  moreover have "unat (r + of_nat i) mod n \<noteq> unat w mod n" if "i < ?k" for i
    using mod_eq_small [of "unat r" i n ?k] that assms(2) unfolding w unat_word_mod [OF assms(1)] by auto
  ultimately show ?thesis
    by (simp add: ring_def)
qed

lemma ring_append:
  fixes r w e :: "'w::len word"
  assumes "unat (w - r) \<le> unat (e - r)"
  shows "ring n buf r e = ring n buf r w @ ring n buf w e"
proof -
  have d: "unat (e - w) = unat (e - r) - unat (w - r)"
    using assms by (metis diff_diff_eq2 diff_add_cancel unat_sub word_le_nat_alt)
  show ?thesis
  proof (rule nth_equalityI)
    show "length (ring n buf r e) = length (ring n buf r w @ ring n buf w e)"
      using d assms by simp
    fix i assume "i < length (ring n buf r e)"
    then show "ring n buf r e ! i = (ring n buf r w @ ring n buf w e) ! i"
      using d assms by (auto simp: ring_def nth_append add.commute)
  qed
qed

end
