(* ===== verification/Uart.thy ===== *)
theory Uart
  imports Usermem Ring
begin

text \<open>
  The serial port driver: \<^verbatim>\<open>kernel/uart.c\<close> without \<open>uartintr\<close>, which needs the
  console.  The device is seen through its registers.  \<open>uart_idle n\<close> is what the
  n-th read of \<^verbatim>\<open>LSR_TX_IDLE\<close> finds, so any behaviour of the transmitter is some
  function \<open>uart_idle\<close>; \<open>uart_rx\<close> are the bytes that \<^verbatim>\<open>RHR\<close> delivers before
  \<^verbatim>\<open>LSR_RX_READY\<close> is found clear; \<open>uart_sent\<close> are the bytes written to \<^verbatim>\<open>THR\<close>, in
  order, and \<open>uart_ctl\<close> the writes to the control registers.
\<close>

record uart_dev =
  uart_idle :: "nat \<Rightarrow> bool"
  uart_reads :: nat
  uart_rx :: "uchar list"
  uart_sent :: "uchar list"
  uart_ctl :: "(nat \<times> uchar) list"

definition UART_TX_BUF_SIZE :: nat where "UART_TX_BUF_SIZE = 32"

record txq =
  uart_tx_buf :: "nat \<Rightarrow> uchar"
  uart_tx_w :: uint64
  uart_tx_r :: uint64

text \<open>\<open>panicked\<close> is the global of \<^verbatim>\<open>kernel/printf.c\<close>.\<close>

record umach = vmach +
  uart :: uart_dev
  tx :: txq
  panicked :: bool

section \<open>Registers\<close>

definition THR :: nat where "THR = 0"
definition IER :: nat where "IER = 1"
definition FCR :: nat where "FCR = 2"
definition LCR :: nat where "LCR = 3"

definition read_tx_idle :: "('m umach_scheme, bool) kern" where
  "read_tx_idle =
     bind (gets (\<lambda>s. uart_idle (uart s) (uart_reads (uart s)))) (\<lambda>b.
     seq (modify (\<lambda>s. s\<lparr>uart := (uart s)\<lparr>uart_reads := uart_reads (uart s) + 1\<rparr>\<rparr>)) (
     ret b))"

definition write_thr :: "uchar \<Rightarrow> ('m umach_scheme, unit) kern" where
  "write_thr c = modify (\<lambda>s. s\<lparr>uart := (uart s)\<lparr>uart_sent := uart_sent (uart s) @ [c]\<rparr>\<rparr>)"

definition write_ctl :: "nat \<Rightarrow> uchar \<Rightarrow> ('m umach_scheme, unit) kern" where
  "write_ctl r v = modify (\<lambda>s. s\<lparr>uart := (uart s)\<lparr>uart_ctl := uart_ctl (uart s) @ [(r, v)]\<rparr>\<rparr>)"

section \<open>The code\<close>

definition uartinit :: "('m umach_scheme, unit) kern" where
  "uartinit =
     seq (write_ctl IER 0x00) (
     seq (write_ctl LCR 0x80) (
     seq (write_ctl 0 0x03) (
     seq (write_ctl 1 0x00) (
     seq (write_ctl LCR 0x03) (
     seq (write_ctl FCR 0x07) (
     seq (write_ctl IER 0x03) (
     initlock L_uart ''uart'')))))))"

text \<open>The two statements that take a byte out of the buffer and put one into it.\<close>

definition tx_put :: "uchar \<Rightarrow> txq \<Rightarrow> txq" where
  "tx_put c q = q\<lparr>uart_tx_buf := (uart_tx_buf q)(unat (uart_tx_w q) mod UART_TX_BUF_SIZE := c),
     uart_tx_w := uart_tx_w q + 1\<rparr>"

definition tx_get :: "txq \<Rightarrow> uchar \<times> txq" where
  "tx_get q = (uart_tx_buf q (unat (uart_tx_r q) mod UART_TX_BUF_SIZE), q\<lparr>uart_tx_r := uart_tx_r q + 1\<rparr>)"

definition uartstart_step :: "('m umach_scheme, bool) kern" where
  "uartstart_step =
     bind (gets tx) (\<lambda>q.
     if uart_tx_w q = uart_tx_r q then ret True else
     bind read_tx_idle (\<lambda>idle.
     if \<not> idle then ret True else
     seq (modify (\<lambda>s. s\<lparr>tx := snd (tx_get q)\<rparr>)) (
     seq (wakeup Ch_uart_tx_r) (
     seq (write_thr (fst (tx_get q))) (
     ret False)))))"

definition uartstart :: "('m umach_scheme, unit) kern" where
  "uartstart = bind (whileM (\<lambda>returned _. \<not> returned) (\<lambda>_. uartstart_step) False) (\<lambda>_. ret ())"

definition uartputc :: "uchar \<Rightarrow> ('m umach_scheme, unit) kern" where
  "uartputc c =
     seq (acquire L_uart) (
     bind (gets panicked) (\<lambda>p.
     seq (whenM p (whileM (\<lambda>_ _. True) (\<lambda>_. ret ()) ())) (
     seq (whileM (\<lambda>_ s. uart_tx_w (tx s) = uart_tx_r (tx s) + of_nat UART_TX_BUF_SIZE)
            (\<lambda>_. sleep Ch_uart_tx_r L_uart) ()) (
     seq (modify (\<lambda>s. s\<lparr>tx := tx_put c (tx s)\<rparr>)) (
     seq uartstart (
     release L_uart))))))"

definition uartputc_sync :: "uchar \<Rightarrow> ('m umach_scheme, unit) kern" where
  "uartputc_sync c =
     seq push_off (
     bind (gets panicked) (\<lambda>p.
     seq (whenM p (whileM (\<lambda>_ _. True) (\<lambda>_. ret ()) ())) (
     bind (whileM (\<lambda>idle _. \<not> idle) (\<lambda>_. read_tx_idle) False) (\<lambda>_.
     seq (write_thr c) (
     pop_off)))))"

definition uartgetc :: "('m umach_scheme, int) kern" where
  "uartgetc =
     bind (gets (\<lambda>s. uart_rx (uart s))) (\<lambda>rx.
     case rx of
       c # cs \<Rightarrow> seq (modify (\<lambda>s. s\<lparr>uart := (uart s)\<lparr>uart_rx := cs\<rparr>\<rparr>)) (ret (uint c))
     | [] \<Rightarrow> ret (-1))"

section \<open>The transmit buffer is a queue\<close>

text \<open>The lock operations and the new fields do not interfere.\<close>

lemma umach_sel [simp]:
  "uart (acquired lk s) = uart s"
  "uart (touched s) = uart s"
  "uart (set_proc p g s) = uart s"
  "uart (set_sleeplock l h s) = uart s"
  "tx (acquired lk s) = tx s"
  "tx (touched s) = tx s"
  "tx (set_proc p g s) = tx s"
  "tx (set_sleeplock l h s) = tx s"
  "panicked (acquired lk s) = panicked s"
  "panicked (touched s) = panicked s"
  "panicked (set_proc p g s) = panicked s"
  "panicked (set_sleeplock l h s) = panicked s"
  by (simp_all add: acquired_def pushed_def touched_def mach_upd_defs)

lemma umach_upd [simp]:
  "uart_update uuart (acquired lk s) = acquired lk (uart_update uuart s)"
  "uart_update uuart (touched s) = touched (uart_update uuart s)"
  "tx_update utx (acquired lk s) = acquired lk (tx_update utx s)"
  "tx_update utx (touched s) = touched (tx_update utx s)"
  "panicked_update upanicked (acquired lk s) = acquired lk (panicked_update upanicked s)"
  "panicked_update upanicked (touched s) = touched (panicked_update upanicked s)"
  by (simp_all add: acquired_def pushed_def touched_def mach_upd_defs intr_get_def)

lemma umach_ok [simp]:
  "cpu_ok (uart_update uuart s) = cpu_ok s"
  "lock_free lk (uart_update uuart s) = lock_free lk s"
  "mycpu (uart_update uuart s) = mycpu s"
  "intr_get (uart_update uuart s) = intr_get s"
  "holding lk (uart_update uuart s) = holding lk s"
  "proc_locks_free (uart_update uuart s) = proc_locks_free s"
  "running p (uart_update uuart s) = running p s"
  "cpu_ok (tx_update utx s) = cpu_ok s"
  "lock_free lk (tx_update utx s) = lock_free lk s"
  "mycpu (tx_update utx s) = mycpu s"
  "intr_get (tx_update utx s) = intr_get s"
  "holding lk (tx_update utx s) = holding lk s"
  "proc_locks_free (tx_update utx s) = proc_locks_free s"
  "running p (tx_update utx s) = running p s"
  "cpu_ok (panicked_update upanicked s) = cpu_ok s"
  "lock_free lk (panicked_update upanicked s) = lock_free lk s"
  "mycpu (panicked_update upanicked s) = mycpu s"
  "intr_get (panicked_update upanicked s) = intr_get s"
  "holding lk (panicked_update upanicked s) = holding lk s"
  "proc_locks_free (panicked_update upanicked s) = proc_locks_free s"
  "running p (panicked_update upanicked s) = running p s"
  by (simp_all add: cpu_ok_def lock_free_def mach_upd_defs intr_get_def holding_def proc_locks_free_def running_def)



definition tx_contents :: "txq \<Rightarrow> uchar list" where
  "tx_contents q = ring UART_TX_BUF_SIZE (uart_tx_buf q) (uart_tx_r q) (uart_tx_w q)"

lemma tx_put_contents:
  "length (tx_contents q) < UART_TX_BUF_SIZE \<Longrightarrow> tx_contents (tx_put c q) = tx_contents q @ [c]"
  using ring_push [of UART_TX_BUF_SIZE "uart_tx_w q" "uart_tx_r q" "uart_tx_buf q" c]
  by (simp add: tx_contents_def tx_put_def UART_TX_BUF_SIZE_def)

lemma tx_get_contents:
  "tx_contents q \<noteq> [] \<Longrightarrow> tx_contents q = fst (tx_get q) # tx_contents (snd (tx_get q))"
  by (simp add: tx_contents_def tx_get_def ring_pop)

interpretation txfifo: fifo tx_contents tx_put tx_get UART_TX_BUF_SIZE
  by unfold_locales (rule tx_put_contents, assumption, rule tx_get_contents)

section \<open>Bytes reach the device in order\<close>

text \<open>\<open>uart_frame s t\<close>: \<open>t\<close> differs from \<open>s\<close> at most in the device, the buffer and the process states.\<close>

definition uart_frame :: "'m umach_scheme \<Rightarrow> 'm umach_scheme \<Rightarrow> bool" where
  "uart_frame s t \<longleftrightarrow> t = s\<lparr>procs := procs t, tx := tx t, uart := uart t\<rparr>"

lemma uart_frame_refl [simp]: "uart_frame s s"
  by (simp add: uart_frame_def)

lemma uart_frame_trans: "uart_frame s t \<Longrightarrow> uart_frame t u \<Longrightarrow> uart_frame s u"
proof -
  assume st: "uart_frame s t" and tu: "uart_frame t u"
  have "u = t\<lparr>procs := procs u, tx := tx u, uart := uart u\<rparr>" using tu by (simp add: uart_frame_def)
  also have "\<dots> = (s\<lparr>procs := procs t, tx := tx t, uart := uart t\<rparr>)\<lparr>procs := procs u, tx := tx u, uart := uart u\<rparr>"
    using st by (simp add: uart_frame_def)
  also have "\<dots> = s\<lparr>procs := procs u, tx := tx u, uart := uart u\<rparr>" by simp
  finally show ?thesis by (simp add: uart_frame_def)
qed

lemma uart_frameI [simp, intro]:
  "uart_frame s (s\<lparr>uart := u\<rparr>)"
  "uart_frame s (s\<lparr>tx := q, procs := ps, uart := u\<rparr>)"
  "uart_frame s (s\<lparr>tx := q, uart := u, procs := ps\<rparr>)"
  "uart_frame s (s\<lparr>uart := u, tx := q, procs := ps\<rparr>)"
  "uart_frame s (s\<lparr>tx := q\<rparr>)"
  unfolding uart_frame_def by (rule umach.equality; simp)+

lemma uart_frameD:
  assumes "uart_frame s t"
  shows "cpu_ok t = cpu_ok s" "lock_free lk t = lock_free lk s" "mycpu t = mycpu s" "intr_get t = intr_get s"
    "holding lk t = holding lk s" "proc_locks_free t = proc_locks_free s" "running p t = running p s"
    "mem t = mem s" "sleeplocks t = sleeplocks s" "panicked t = panicked s" "freelist t = freelist s"
    "kend t = kend s"
proof -
  obtain ps q u where "t = s\<lparr>procs := ps, tx := q, uart := u\<rparr>"
    using assms unfolding uart_frame_def by blast
  then show "cpu_ok t = cpu_ok s" "lock_free lk t = lock_free lk s" "mycpu t = mycpu s" "intr_get t = intr_get s"
    "holding lk t = holding lk s" "proc_locks_free t = proc_locks_free s" "running p t = running p s"
    "mem t = mem s" "sleeplocks t = sleeplocks s" "panicked t = panicked s" "freelist t = freelist s"
    "kend t = kend s"
    by simp_all
qed

definition uart_log :: "'m umach_scheme \<Rightarrow> uchar list" where
  "uart_log s = uart_sent (uart s) @ tx_contents (tx s)"

lemma read_tx_idle_run:
  "read_tx_idle s e = Ok (uart_idle (uart s) (uart_reads (uart s)))
     (s\<lparr>uart := (uart s)\<lparr>uart_reads := uart_reads (uart s) + 1\<rparr>\<rparr>) e"
  by (simp add: read_tx_idle_def)

lemma write_thr_run: "write_thr c s e = Ok () (s\<lparr>uart := (uart s)\<lparr>uart_sent := uart_sent (uart s) @ [c]\<rparr>\<rparr>) e"
  by (simp add: write_thr_def)

lemma uartstart_step_run:
  assumes "cpu_ok s" "proc_locks_free s"
  shows "\<exists>r t. uartstart_step (acquired L_uart s) e = Ok r (acquired L_uart t) e \<and> uart_frame s t \<and>
    uart_log t = uart_log s \<and> uart_idle (uart t) = uart_idle (uart s) \<and> uart_rx (uart t) = uart_rx (uart s) \<and>
    (\<not> r \<longrightarrow> length (tx_contents (tx t)) < length (tx_contents (tx s))) \<and>
    length (tx_contents (tx t)) \<le> length (tx_contents (tx s))"
proof (cases "uart_tx_w (tx s) = uart_tx_r (tx s)")
  case True
  then show ?thesis by (intro exI [of _ True] exI [of _ s]) (simp add: uartstart_step_def)
next
  case False
  let ?u = "(uart s)\<lparr>uart_reads := uart_reads (uart s) + 1\<rparr>"
  show ?thesis
  proof (cases "uart_idle (uart s) (uart_reads (uart s))")
    case idle: False
    then show ?thesis
      using False by (intro exI [of _ True] exI [of _ "s\<lparr>uart := ?u\<rparr>"])
        (simp add: uartstart_step_def read_tx_idle_run uart_log_def)
  next
    case idle: True
    let ?q = "snd (tx_get (tx s))"
    let ?t = "s\<lparr>tx := ?q, procs := woken Ch_uart_tx_r (cpu_proc (mycpu s)) (procs s),
      uart := ?u\<lparr>uart_sent := uart_sent (uart s) @ [fst (tx_get (tx s))]\<rparr>\<rparr>"
    have "tx_contents (tx s) \<noteq> []" using False by (simp add: tx_contents_def)
    note get = tx_get_contents [OF this]
    have "uartstart_step (acquired L_uart s) e = Ok False (acquired L_uart ?t) e"
      using False idle assms
      by (simp add: uartstart_step_def read_tx_idle_run wakeup_run write_thr_run)
    moreover have "uart_log ?t = uart_log s" using get by (simp add: uart_log_def)
    moreover have "length (tx_contents (tx s)) = Suc (length (tx_contents ?q))" using get by (metis length_Cons)
    ultimately show ?thesis by (intro exI [of _ False] exI [of _ ?t]) simp
  qed
qed

lemma uartstart_run:
  assumes "cpu_ok s" "proc_locks_free s"
  shows "\<exists>t. uartstart (acquired L_uart s) e = Ok () (acquired L_uart t) e \<and> uart_frame s t \<and>
    uart_log t = uart_log s \<and> uart_idle (uart t) = uart_idle (uart s) \<and> uart_rx (uart t) = uart_rx (uart s) \<and>
    length (tx_contents (tx t)) \<le> length (tx_contents (tx s))"
proof -
  let ?I = "\<lambda>(r :: bool) x u. u = e \<and> (\<exists>t. x = acquired L_uart t \<and> uart_frame s t \<and> uart_log t = uart_log s \<and>
    uart_idle (uart t) = uart_idle (uart s) \<and> uart_rx (uart t) = uart_rx (uart s) \<and>
    length (tx_contents (tx t)) \<le> length (tx_contents (tx s)))"
  have "returns (whileM (\<lambda>returned _. \<not> returned) (\<lambda>_. uartstart_step) False) (acquired L_uart s) e (\<lambda>r x u. ?I r x u)"
  proof (rule returns_while [where I = ?I and m = "\<lambda>r x _. if r then 0 else Suc (length (tx_contents (tx x)))"])
    show "?I False (acquired L_uart s) e" by auto
    fix r u and x :: "'a umach_scheme" assume I: "?I r x u" and r: "\<not> r"
    then obtain t where t: "x = acquired L_uart t" "uart_frame s t" "uart_log t = uart_log s" "u = e"
      "uart_idle (uart t) = uart_idle (uart s)" "uart_rx (uart t) = uart_rx (uart s)"
      "length (tx_contents (tx t)) \<le> length (tx_contents (tx s))"
      by blast
    have "cpu_ok t" "proc_locks_free t" using uart_frameD [OF t(2)] assms by auto
    from uartstart_step_run [OF this, of e] obtain r' t' where
      t': "uartstart_step (acquired L_uart t) e = Ok r' (acquired L_uart t') e" "uart_frame t t'"
      "uart_log t' = uart_log t" "uart_idle (uart t') = uart_idle (uart t)" "uart_rx (uart t') = uart_rx (uart t)"
      "\<not> r' \<longrightarrow> length (tx_contents (tx t')) < length (tx_contents (tx t))"
      "length (tx_contents (tx t')) \<le> length (tx_contents (tx t))"
      by blast
    have "?I r' (acquired L_uart t') e"
      using t t' uart_frame_trans by (intro conjI exI [of _ t']) auto
    then show "returns uartstart_step x u (\<lambda>r' x' u'. ?I r' x' u' \<and>
        (if r' then 0 else Suc (length (tx_contents (tx x')))) < (if r then 0 else Suc (length (tx_contents (tx x)))))"
      using t(1,4) t'(1,6,7) r by (auto simp: returns_def)
  qed
  then show ?thesis by (auto simp: uartstart_def returns_iff bind_run)
qed

lemma tx_full: "uart_tx_w q = uart_tx_r q + of_nat UART_TX_BUF_SIZE \<longleftrightarrow> length (tx_contents q) = UART_TX_BUF_SIZE"
proof -
  have "uart_tx_w q = uart_tx_r q + 32 \<longleftrightarrow> uart_tx_w q - uart_tx_r q = 32" by (auto simp: algebra_simps)
  also have "\<dots> \<longleftrightarrow> unat (uart_tx_w q - uart_tx_r q) = 32" by (simp add: word_unat_eq_iff)
  finally show ?thesis by (simp add: tx_contents_def UART_TX_BUF_SIZE_def)
qed

lemma uartputc_room:
  assumes "cpu_ok s" "proc_locks_free s" "lock_free L_uart s" "\<not> panicked s"
    and "length (tx_contents (tx s)) < UART_TX_BUF_SIZE"
  shows "\<exists>t. uartputc c s e = Ok () (touched t) e \<and> uart_frame s t \<and> uart_log t = uart_log s @ [c] \<and>
    length (tx_contents (tx t)) \<le> UART_TX_BUF_SIZE"
proof -
  let ?s = "s\<lparr>tx := tx_put c (tx s)\<rparr>"
  have put: "tx_contents (tx_put c (tx s)) = tx_contents (tx s) @ [c]"
    using tx_put_contents assms(5) by blast
  obtain t where t: "uartstart (acquired L_uart ?s) e = Ok () (acquired L_uart t) e" "uart_frame ?s t"
      "uart_log t = uart_log ?s" "length (tx_contents (tx t)) \<le> length (tx_contents (tx ?s))"
    using uartstart_run [of ?s e] assms by auto
  have fr: "uart_frame s t" using t(2) by (rule uart_frame_trans [OF uart_frameI(5)])
  have "\<not> uart_tx_w (tx s) = uart_tx_r (tx s) + of_nat UART_TX_BUF_SIZE"
    using assms(5) by (simp add: tx_full)
  then have "uartputc c s e = Ok () (touched t) e"
    using assms t(1) uart_frameD(1,2) [OF fr] by (simp add: uartputc_def acquire_run whileM_stop)
  then show ?thesis using fr t(3,4) put assms(5) by (auto simp: uart_log_def)
qed


text \<open>The synchronous version waits for the device, so it returns if the device is ready at some later read.\<close>

definition uart_live :: "'m umach_scheme \<Rightarrow> bool" where
  "uart_live s \<longleftrightarrow> (\<forall>n. \<exists>k \<ge> n. uart_idle (uart s) k)"

lemma wait_idle:
  assumes "uart_idle (uart s) (uart_reads (uart s) + k)"
  shows "\<exists>n. whileM (\<lambda>idle _. \<not> idle) (\<lambda>_. read_tx_idle) False s e =
    Ok True (s\<lparr>uart := (uart s)\<lparr>uart_reads := n\<rparr>\<rparr>) e"
  using assms
proof (induction k arbitrary: s)
  case 0
  then show ?case
    by (intro exI [of _ "uart_reads (uart s) + 1"]) (subst whileM_unfold, simp add: read_tx_idle_run whileM_stop)
next
  case (Suc k)
  let ?s = "s\<lparr>uart := (uart s)\<lparr>uart_reads := uart_reads (uart s) + 1\<rparr>\<rparr>"
  show ?case
  proof (cases "uart_idle (uart s) (uart_reads (uart s))")
    case True
    then show ?thesis
      by (intro exI [of _ "uart_reads (uart s) + 1"]) (subst whileM_unfold, simp add: read_tx_idle_run whileM_stop)
  next
    case False
    obtain n where "whileM (\<lambda>idle _. \<not> idle) (\<lambda>_. read_tx_idle) False ?s e =
        Ok True (?s\<lparr>uart := (uart ?s)\<lparr>uart_reads := n\<rparr>\<rparr>) e"
      using Suc.IH [of ?s] Suc.prems by auto
    then show ?thesis
      using False by (intro exI [of _ n]) (subst whileM_unfold, simp add: read_tx_idle_run)
  qed
qed

lemma pushed_uart [simp]:
  "uart (pushed s) = uart s" "panicked (pushed s) = panicked s"
  "uart_update f (pushed s) = pushed (uart_update f s)"
  by (simp_all add: pushed_def mach_upd_defs intr_get_def)

lemma uartputc_sync_run:
  assumes "cpu_ok s" "\<not> panicked s" "uart_live s"
  shows "\<exists>n. uartputc_sync c s e =
    Ok () (touched (s\<lparr>uart := (uart s)\<lparr>uart_reads := n, uart_sent := uart_sent (uart s) @ [c]\<rparr>\<rparr>)) e"
proof -
  obtain k where "uart_idle (uart s) (uart_reads (uart s) + k)"
    using assms(3) unfolding uart_live_def by (metis le_iff_add)
  then obtain n where w: "whileM (\<lambda>idle _. \<not> idle) (\<lambda>_. read_tx_idle) False (pushed s) e =
    Ok True ((pushed s)\<lparr>uart := (uart s)\<lparr>uart_reads := n\<rparr>\<rparr>) e"
    using wait_idle [of "pushed s" k e] by auto
  let ?s = "s\<lparr>uart := (uart s)\<lparr>uart_reads := n, uart_sent := uart_sent (uart s) @ [c]\<rparr>\<rparr>"
  have "\<not> intr_get (pushed ?s)" "1 \<le> noff (mycpu (pushed ?s))"
    using assms sie_off by (simp_all add: cpu_ok_def intr_get_bit pushed_def mach_upd_defs)
  then have "pop_off (pushed ?s) e = Ok () (touched ?s) e"
    using assms by (simp add: pop_off_run popped_pushed)
  then show ?thesis
    using assms w by (intro exI [of _ n]) (simp add: uartputc_sync_def push_off_run write_thr_run)
qed

section \<open>An example state\<close>

text \<open>The machine after boot with process 0 current on hart 0 and a device that is always ready.\<close>

definition vboot :: vmach where
  "vboot = kmach.extend (kboot 0x80020000) (vmach.fields 0 0 0 (\<lambda>_. 0))"

definition uboot :: umach where
  "uboot = vmach.extend (vboot\<lparr>cpus := (\<lambda>_. \<lparr>cpu_proc = Some 0, noff = 0, intena = False\<rparr>)\<rparr>)
     (umach.fields
       \<lparr>uart_idle = (\<lambda>_. True), uart_reads = 0, uart_rx = [], uart_sent = [], uart_ctl = []\<rparr>
       \<lparr>uart_tx_buf = (\<lambda>_. 0), uart_tx_w = 0, uart_tx_r = 0\<rparr> False)"

lemmas boot_defs = kboot_def vboot_def boot_mach_def mach.defs kmach.defs vmach.defs

lemma uboot_simps:
  "running 0 uboot" "lock_free lk uboot" "\<not> panicked uboot" "tx_contents (tx uboot) = []" "uart_log uboot = []"
  "uart_live uboot"
  by (simp_all add: uboot_def boot_defs umach.defs running_def cpu_ok_def lock_free_def proc_locks_free_def
      mycpu_def cpuid_def NPROC_def tx_contents_def uart_log_def uart_live_def intr_get_def) blast


end
