(* ===== verification/Printf.thy ===== *)
theory Printf
  imports Kstring
begin

text \<open>
  Formatted output: the formatting part of \<^verbatim>\<open>printf\<close> in \<^verbatim>\<open>kernel/printf.c\<close> and of
  \<^verbatim>\<open>vprintf\<close> in \<^verbatim>\<open>user/printf.c\<close>.  A format and the text it produces are lists of
  characters, the variable arguments are a list; reading an argument that is
  not there, or of another kind, has no defined result and gives \<open>None\<close>.
\<close>

datatype parg = A_int uint | A_ptr uint64 | A_str "string option"

section \<open>Numbers\<close>

definition digits :: string where "digits = ''0123456789abcdef''"
definition user_digits :: string where "user_digits = ''0123456789ABCDEF''"

text \<open>
  The do loop of \<^verbatim>\<open>printint\<close>: the digits as they are stored in \<^verbatim>\<open>buf\<close>, the lowest
  first.  It is only called with the bases 10 and 16.
\<close>

function buf_digits :: "string \<Rightarrow> nat \<Rightarrow> nat \<Rightarrow> string" where
  "buf_digits ds base x =
     ds ! (x mod base) # (if x div base = 0 \<or> base < 2 then [] else buf_digits ds base (x div base))"
  by pat_completeness auto
termination
  by (relation "measure (\<lambda>(ds, base, x). x)") (auto simp: div_greater_zero_iff)

declare buf_digits.simps [simp del]

definition printint :: "uint \<Rightarrow> nat \<Rightarrow> bool \<Rightarrow> string" where
  "printint xx base sign =
     (let neg = sign \<and> sint xx < 0;
          x = (if neg then - xx else xx);
          buf = buf_digits digits base (unat x) @ (if neg then ''-'' else [])
      in rev buf)"

definition user_printint :: "uint \<Rightarrow> nat \<Rightarrow> bool \<Rightarrow> string" where
  "user_printint xx base sg =
     (let neg = sg \<and> sint xx < 0;
          x = (if neg then - xx else xx);
          buf = buf_digits user_digits base (unat x) @ (if neg then ''-'' else [])
      in rev buf)"

text \<open>Sixteen turns of the loop of \<^verbatim>\<open>printptr\<close>.\<close>

primrec nibbles :: "string \<Rightarrow> nat \<Rightarrow> uint64 \<Rightarrow> string" where
  "nibbles ds 0 x = []"
| "nibbles ds (Suc n) x = ds ! unat (drop_bit 60 x) # nibbles ds n (push_bit 4 x)"

definition printptr :: "uint64 \<Rightarrow> string" where
  "printptr x = ''0x'' @ nibbles digits 16 x"

definition user_printptr :: "uint64 \<Rightarrow> string" where
  "user_printptr x = ''0x'' @ nibbles user_digits 16 x"

section \<open>Formats\<close>

definition print_str :: "string option \<Rightarrow> string" where
  "print_str s = (case s of None \<Rightarrow> ''(null)'' | Some t \<Rightarrow> t)"

fun printf_text :: "string \<Rightarrow> parg list \<Rightarrow> string option" where
  "printf_text [] args = Some []"
| "printf_text [c] args = (if c \<noteq> CHR ''%'' then Some [c] else Some [])"
| "printf_text (c # d # fmt) args =
     (if c \<noteq> CHR ''%'' then map_option (Cons c) (printf_text (d # fmt) args)
      else if d = CHR ''d'' then
        (case args of A_int x # args' \<Rightarrow> map_option ((@) (printint x 10 True)) (printf_text fmt args') | _ \<Rightarrow> None)
      else if d = CHR ''x'' then
        (case args of A_int x # args' \<Rightarrow> map_option ((@) (printint x 16 True)) (printf_text fmt args') | _ \<Rightarrow> None)
      else if d = CHR ''p'' then
        (case args of A_ptr x # args' \<Rightarrow> map_option ((@) (printptr x)) (printf_text fmt args') | _ \<Rightarrow> None)
      else if d = CHR ''s'' then
        (case args of A_str s # args' \<Rightarrow> map_option ((@) (print_str s)) (printf_text fmt args') | _ \<Rightarrow> None)
      else if d = CHR ''%'' then map_option (Cons (CHR ''%'')) (printf_text fmt args)
      else map_option ((@) [CHR ''%'', d]) (printf_text fmt args))"

text \<open>\<open>st\<close> is true in the state \<^verbatim>\<open>'%'\<close>.  \<^verbatim>\<open>%l\<close> passes its 64-bit argument to an \<^verbatim>\<open>int\<close> parameter.\<close>

fun vprintf :: "bool \<Rightarrow> string \<Rightarrow> parg list \<Rightarrow> string option" where
  "vprintf st [] args = Some []"
| "vprintf st (c # fmt) args =
     (if \<not> st then
        (if c = CHR ''%'' then vprintf True fmt args else map_option (Cons c) (vprintf False fmt args))
      else if c = CHR ''d'' then
        (case args of A_int x # args' \<Rightarrow> map_option ((@) (user_printint x 10 True)) (vprintf False fmt args') | _ \<Rightarrow> None)
      else if c = CHR ''l'' then
        (case args of A_ptr x # args' \<Rightarrow> map_option ((@) (user_printint (ucast x) 10 False)) (vprintf False fmt args') | _ \<Rightarrow> None)
      else if c = CHR ''x'' then
        (case args of A_int x # args' \<Rightarrow> map_option ((@) (user_printint x 16 False)) (vprintf False fmt args') | _ \<Rightarrow> None)
      else if c = CHR ''p'' then
        (case args of A_ptr x # args' \<Rightarrow> map_option ((@) (user_printptr x)) (vprintf False fmt args') | _ \<Rightarrow> None)
      else if c = CHR ''s'' then
        (case args of A_str s # args' \<Rightarrow> map_option ((@) (print_str s)) (vprintf False fmt args') | _ \<Rightarrow> None)
      else if c = CHR ''c'' then
        (case args of A_int x # args' \<Rightarrow> map_option (Cons (char_of (unat x))) (vprintf False fmt args') | _ \<Rightarrow> None)
      else if c = CHR ''%'' then map_option (Cons c) (vprintf False fmt args)
      else map_option ((@) [CHR ''%'', c]) (vprintf False fmt args))"

definition fprintf_text :: "string \<Rightarrow> parg list \<Rightarrow> string option" where
  "fprintf_text fmt args = vprintf False fmt args"

section \<open>Printing and reading numbers\<close>

text \<open>The value of a list of decimal digits, the highest first.\<close>

definition digit_val :: "char \<Rightarrow> nat" where
  "digit_val c = of_char c - 48"

definition decimal :: "string \<Rightarrow> nat" where
  "decimal cs = foldl (\<lambda>n c. 10 * n + digit_val c) 0 cs"

lemma decimal_snoc: "decimal (cs @ [c]) = 10 * decimal cs + digit_val c"
  by (simp add: decimal_def)

lemma ten_digits: "d < 10 \<Longrightarrow> digit_val (digits ! d) = d \<and> digit_val (user_digits ! d) = d"
  by (auto simp: digits_def user_digits_def digit_val_def less_Suc_eq numeral_eq_Suc)

lemma ten_digit_range:
  "d < 10 \<Longrightarrow> 48 \<le> (of_char (digits ! d) :: nat) \<and> (of_char (digits ! d) :: nat) \<le> 57"
  "d < 10 \<Longrightarrow> user_digits ! d = digits ! d"
  by (auto simp: digits_def user_digits_def less_Suc_eq numeral_eq_Suc)

lemma decimal_buf_digits: "decimal (rev (buf_digits digits 10 x)) = x"
proof (induction x rule: less_induct)
  case (less x)
  show ?case
  proof (cases "x div 10 = 0")
    case True
    then show ?thesis
      by (subst buf_digits.simps) (simp add: decimal_def ten_digits div_eq_0_iff)
  next
    case False
    then have "decimal (rev (buf_digits digits 10 (x div 10))) = x div 10" by (intro less) auto
    then show ?thesis
      using False by (subst buf_digits.simps) (simp add: decimal_snoc ten_digits)
  qed
qed

lemma buf_digits_user: "buf_digits user_digits 10 x = buf_digits digits 10 x"
proof (induction x rule: less_induct)
  case (less x)
  then show ?case
    using ten_digit_range(2) [of "x mod 10"]
    by (subst (1 2) buf_digits.simps) (simp add: div_eq_0_iff)
qed

lemma set_buf_digits: "c \<in> set (buf_digits digits 10 x) \<Longrightarrow> 48 \<le> (of_char c :: nat) \<and> (of_char c :: nat) \<le> 57"
proof (induction x rule: less_induct)
  case (less x)
  show ?case
  proof (cases "c = digits ! (x mod 10)")
    case True
    then show ?thesis using ten_digit_range(1) [of "x mod 10"] by simp
  next
    case False
    with less.prems have "x div 10 \<noteq> 0" "c \<in> set (buf_digits digits 10 (x div 10))"
      by (subst (asm) buf_digits.simps, auto split: if_splits)+
    then show ?thesis by (intro less.IH [of "x div 10"]) auto
  qed
qed

text \<open>The characters \<open>cs\<close> stand at address \<open>a\<close>, with a zero byte behind them.\<close>

primrec string_at :: "bytemem \<Rightarrow> uint64 \<Rightarrow> string \<Rightarrow> bool" where
  "string_at m a [] = (m a = 0)"
| "string_at m a (c # cs) = (m a = of_char c \<and> string_at m (a + 1) cs)"

lemma digit_byte:
  assumes "48 \<le> (of_char c :: nat)" and "(of_char c :: nat) \<le> 57"
  shows "sint (of_char c :: uchar) = int (of_char c)"
    and "scast (of_char c :: uchar) - 48 = (of_nat (digit_val c) :: uint)"
proof -
  have "(of_char c :: uchar) = of_nat (of_char c)" by (simp add: of_nat_of_char)
  moreover have "(of_char c :: nat) < 2 ^ 7" using assms by simp
  ultimately show s: "sint (of_char c :: uchar) = int (of_char c)"
    by (simp add: signed_of_nat signed_take_bit_int_eq_self)
  have "(scast (of_char c :: uchar) :: uint) = word_of_int (sint (of_char c :: uchar))" by simp
  also have "\<dots> = of_nat (of_char c)" by (simp only: s) simp
  finally show "scast (of_char c :: uchar) - 48 = (of_nat (digit_val c) :: uint)"
    using assms by (simp add: digit_val_def of_nat_diff)
qed

lemma atoi_loop_string:
  assumes "string_at m a cs" and "\<forall>c \<in> set cs. 48 \<le> (of_char c :: nat) \<and> (of_char c :: nat) \<le> 57"
  shows "atoi_loop m a (of_nat n) = Some (of_nat (foldl (\<lambda>n c. 10 * n + digit_val c) n cs))"
  using assms
proof (induction cs arbitrary: a n)
  case Nil
  then show ?case by (subst atoi_loop.simps) simp
next
  case (Cons c cs)
  have eq: "of_nat n * 10 + scast (m a) - 48 = (of_nat (10 * n + digit_val c) :: uint)"
    using Cons.prems digit_byte(2) [of c] by (simp add: algebra_simps)
  have "48 \<le> sint (m a) \<and> sint (m a) \<le> 57"
    using Cons.prems by (simp add: digit_byte(1))
  then have "atoi_loop m a (of_nat n) = atoi_loop m (a + 1) (of_nat (10 * n + digit_val c))"
    by (subst atoi_loop.simps) (simp only: eq if_True simp_thms)
  then show ?case
    using Cons.prems Cons.IH [of "a + 1" "10 * n + digit_val c"] by simp
qed



end
