(* ===== verification/Console.thy ===== *)
theory Console
  imports Uart Printf
begin

text \<open>
  The console (\<^verbatim>\<open>kernel/console.c\<close>) with what it needs of its neighbours:
  \<^verbatim>\<open>printf\<close>, \<^verbatim>\<open>printfinit\<close> and \<^verbatim>\<open>panic\<close> of \<^verbatim>\<open>kernel/printf.c\<close>, \<open>either_copyout\<close>,
  \<open>either_copyin\<close> and \<open>procdump\<close> of \<^verbatim>\<open>kernel/proc.c\<close>, and \<open>uartintr\<close> of \<^verbatim>\<open>kernel/uart.c\<close>.
  The lemmas show that the interrupt handler is a line editor and that
  \<open>consoleread\<close> delivers the lines it has finished.
\<close>

section \<open>State\<close>

definition INPUT_BUF_SIZE :: nat where "INPUT_BUF_SIZE = 128"

record consq =
  cons_buf :: "nat \<Rightarrow> uchar"
  cons_r :: uint
  cons_w :: uint
  cons_e :: uint

text \<open>The functions the device switch \<^verbatim>\<open>devsw\<close> of \<^verbatim>\<open>kernel/file.c\<close> points to.\<close>

datatype devfn = Fn_consoleread | Fn_consolewrite

record devsw_entry =
  dev_read :: "devfn option"
  dev_write :: "devfn option"

text \<open>
  The functions that take the pair \<^verbatim>\<open>(user_dst, dst)\<close> get one of a user address, an
  address in the kernel's memory, and, where the kernel passes the address of
  a local variable, an offset into the bytes \<open>klocal\<close> of that variable.
\<close>

datatype addr = User uint64 | Kern uint64 | Local nat

primrec addr_add :: "addr \<Rightarrow> nat \<Rightarrow> addr" where
  "addr_add (User a) n = User (a + of_nat n)"
| "addr_add (Kern a) n = Kern (a + of_nat n)"
| "addr_add (Local a) n = Local (a + n)"

record cmach = umach +
  cons :: consq
  pr_locking :: bool
  devsw :: "nat \<Rightarrow> devsw_entry"
  klocal :: "nat \<Rightarrow> uchar"

definition CONSOLE :: nat where "CONSOLE = 1"

section \<open>printf\<close>

definition BACKSPACE :: int where "BACKSPACE = 0x100"

definition consputc :: "int \<Rightarrow> ('m umach_scheme, unit) kern" where
  "consputc c =
     (if c = BACKSPACE then seq (uartputc_sync 8) (seq (uartputc_sync 32) (uartputc_sync 8))
      else uartputc_sync (word_of_int c))"

text \<open>A call whose arguments do not fit its format has no defined effect.\<close>

definition printf :: "string \<Rightarrow> parg list \<Rightarrow> ('m cmach_scheme, unit) kern" where
  "printf fmt args =
     bind (gets pr_locking) (\<lambda>locking.
     seq (whenM locking (acquire L_pr)) (
     case printf_text fmt args of
       None \<Rightarrow> panic ''printf arguments''
     | Some t \<Rightarrow> seq (for_each t (\<lambda>c. consputc (of_char c))) (whenM locking (release L_pr))))"

definition printfinit :: "('m cmach_scheme, unit) kern" where
  "printfinit = seq (initlock L_pr ''pr'') (modify (\<lambda>s. s\<lparr>pr_locking := True\<rparr>))"

text \<open>
  The body of \<^verbatim>\<open>panic\<close>, up to its endless loop.  Elsewhere a call of \<^verbatim>\<open>panic\<close> is the
  outcome \<open>Panic\<close>, which keeps the message.
\<close>

definition panic_print :: "string \<Rightarrow> ('m cmach_scheme, unit) kern" where
  "panic_print msg =
     seq (modify (\<lambda>s. s\<lparr>pr_locking := False\<rparr>)) (
     seq (printf ''panic: '' []) (
     seq (printf msg []) (
     seq (printf [CHR 0x0A] []) (
     modify (\<lambda>s. s\<lparr>panicked := True\<rparr>)))))"

section \<open>Copying to and from either space\<close>

definition either_copyout :: "addr \<Rightarrow> uchar list \<Rightarrow> ('m cmach_scheme, int) kern" where
  "either_copyout dst src =
     bind curproc (\<lambda>p.
     case dst of
       User va \<Rightarrow> bind (gets (\<lambda>s. pagetable (procs s p))) (\<lambda>pt. copyout pt va src)
     | Kern a \<Rightarrow> seq (modify (\<lambda>s. s\<lparr>mem := write_bytes (mem s) a src\<rparr>)) (ret 0)
     | Local i \<Rightarrow>
         seq (modify (\<lambda>s. s\<lparr>klocal := (\<lambda>j. if i \<le> j \<and> j < i + length src then src ! (j - i) else klocal s j)\<rparr>)) (
         ret 0))"

definition either_copyin :: "addr \<Rightarrow> nat \<Rightarrow> ('m cmach_scheme, int \<times> uchar list) kern" where
  "either_copyin src len =
     bind curproc (\<lambda>p.
     case src of
       User va \<Rightarrow> bind (gets (\<lambda>s. pagetable (procs s p))) (\<lambda>pt. copyin pt va len)
     | Kern a \<Rightarrow> bind (gets (\<lambda>s. read_bytes (mem s) a len)) (\<lambda>bs. ret (0, bs))
     | Local i \<Rightarrow> bind (gets (\<lambda>s. map (klocal s) [i..<i + len])) (\<lambda>bs. ret (0, bs)))"

section \<open>The console\<close>

definition consolewrite :: "addr \<Rightarrow> int \<Rightarrow> ('m cmach_scheme, int) kern" where
  "consolewrite src n =
     bind (whileM (\<lambda>(i, stop) _. \<not> stop \<and> i < n)
       (\<lambda>(i, stop).
          bind (either_copyin (addr_add src (nat i)) 1) (\<lambda>(r, bs).
          if r = -1 then ret (i, True)
          else seq (uartputc (hd bs)) (ret (i + 1, False))))
       (0, False)) (\<lambda>(i, _).
     ret i)"

text \<open>The inner loop of \<^verbatim>\<open>consoleread\<close>; its result says whether the function has returned.\<close>

definition cons_wait :: "('m cmach_scheme, bool) kern" where
  "cons_wait =
     whileM (\<lambda>gone s. \<not> gone \<and> cons_r (cons s) = cons_w (cons s))
       (\<lambda>_. bind curproc (\<lambda>p. bind (killed p) (\<lambda>k.
          if k then seq (release L_cons) (ret True)
          else seq (sleep Ch_cons_r L_cons) (ret False))))
       False"

datatype read_exit = Looping | Broken | Returned

definition cons_get :: "consq \<Rightarrow> uchar \<times> consq" where
  "cons_get q = (cons_buf q (unat (cons_r q) mod INPUT_BUF_SIZE), q\<lparr>cons_r := cons_r q + 1\<rparr>)"

definition consoleread_step ::
  "int \<Rightarrow> addr \<times> int \<times> read_exit \<Rightarrow> ('m cmach_scheme, addr \<times> int \<times> read_exit) kern" where
  "consoleread_step target = (\<lambda>(dst, n, _).
     bind cons_wait (\<lambda>gone.
     if gone then ret (dst, n, Returned) else
     bind (gets (\<lambda>s. fst (cons_get (cons s)))) (\<lambda>c.
     seq (modify (\<lambda>s. s\<lparr>cons := snd (cons_get (cons s))\<rparr>)) (
     if c = 4 then
       seq (whenM (n < target) (modify (\<lambda>s. s\<lparr>cons := (cons s)\<lparr>cons_r := cons_r (cons s) - 1\<rparr>\<rparr>)))
         (ret (dst, n, Broken))
     else
     bind (either_copyout dst [c]) (\<lambda>r.
     if r = -1 then ret (dst, n, Broken) else
     ret (addr_add dst 1, n - 1, if c = 10 then Broken else Looping))))))"

definition consoleread :: "addr \<Rightarrow> int \<Rightarrow> ('m cmach_scheme, int) kern" where
  "consoleread dst n =
     seq (acquire L_cons) (
     bind (whileM (\<lambda>(dst, n, x) _. x = Looping \<and> n > 0) (consoleread_step n) (dst, n, Looping)) (\<lambda>(_, left, x).
     if x = Returned then ret (-1) else
     seq (release L_cons) (
     ret (n - left))))"

primrec state_name :: "procstate \<Rightarrow> string" where
  "state_name UNUSED = ''unused''"
| "state_name USED = ''used''"
| "state_name SLEEPING = ''sleep ''"
| "state_name RUNNABLE = ''runble''"
| "state_name RUNNING = ''run   ''"
| "state_name ZOMBIE = ''zombie''"

definition procdump :: "('m cmach_scheme, unit) kern" where
  "procdump =
     seq (printf [CHR 0x0A] []) (
     for_each [0..<NPROC] (\<lambda>p.
       bind (gets (\<lambda>s. procs s p)) (\<lambda>q.
       if pstate q = UNUSED then ret () else
       seq (printf ''%d %s %s'' [A_int (word_of_int (pid q)), A_str (Some (state_name (pstate q))), A_str (Some (pname q))]) (
       printf [CHR 0x0A] []))))"

definition cons_put :: "uchar \<Rightarrow> consq \<Rightarrow> consq" where
  "cons_put c q = q\<lparr>cons_buf := (cons_buf q)(unat (cons_e q) mod INPUT_BUF_SIZE := c), cons_e := cons_e q + 1\<rparr>"

definition cons_erase :: "('m cmach_scheme, unit) kern" where
  "cons_erase =
     seq (modify (\<lambda>s. s\<lparr>cons := (cons s)\<lparr>cons_e := cons_e (cons s) - 1\<rparr>\<rparr>)) (consputc BACKSPACE)"

definition consoleintr :: "int \<Rightarrow> ('m cmach_scheme, unit) kern" where
  "consoleintr c =
     seq (acquire L_cons) (
     seq (
       if c = 0x10 then procdump
       else if c = 0x15 then
         whileM (\<lambda>_ s. cons_e (cons s) \<noteq> cons_w (cons s) \<and>
             cons_buf (cons s) (unat (cons_e (cons s) - 1) mod INPUT_BUF_SIZE) \<noteq> 10)
           (\<lambda>_. cons_erase) ()
       else if c = 0x08 \<or> c = 0x7f then
         bind (gets cons) (\<lambda>q. whenM (cons_e q \<noteq> cons_w q) cons_erase)
       else
         bind (gets cons) (\<lambda>q.
         whenM (c \<noteq> 0 \<and> unat (cons_e q - cons_r q) < INPUT_BUF_SIZE) (
           let c = (if c = 13 then 10 else c) in
           seq (consputc c) (
           seq (modify (\<lambda>s. s\<lparr>cons := cons_put (word_of_int c) (cons s)\<rparr>)) (
           bind (gets cons) (\<lambda>q.
           whenM (c = 10 \<or> c = 4 \<or> unat (cons_e q - cons_r q) = INPUT_BUF_SIZE) (
             seq (modify (\<lambda>s. s\<lparr>cons := (cons s)\<lparr>cons_w := cons_e (cons s)\<rparr>\<rparr>)) (
             wakeup Ch_cons_r)))))))) (
     release L_cons))"

definition consoleinit :: "('m cmach_scheme, unit) kern" where
  "consoleinit =
     seq (initlock L_cons ''cons'') (
     seq uartinit (
     modify (\<lambda>s. s\<lparr>devsw := (devsw s)(CONSOLE := \<lparr>dev_read = Some Fn_consoleread, dev_write = Some Fn_consolewrite\<rparr>)\<rparr>)))"

definition uartintr :: "('m cmach_scheme, unit) kern" where
  "uartintr =
     bind (whileM (\<lambda>stop _. \<not> stop)
       (\<lambda>_. bind uartgetc (\<lambda>c. if c = -1 then ret True else seq (consoleintr c) (ret False)))
       False) (\<lambda>_.
     seq (acquire L_uart) (
     seq uartstart (
     release L_uart)))"

text \<open>The lock operations and the new fields do not interfere.\<close>

lemma cmach_sel [simp]:
  "cons (acquired lk s) = cons s"
  "cons (touched s) = cons s"
  "cons (set_proc p g s) = cons s"
  "cons (set_sleeplock l h s) = cons s"
  "pr_locking (acquired lk s) = pr_locking s"
  "pr_locking (touched s) = pr_locking s"
  "pr_locking (set_proc p g s) = pr_locking s"
  "pr_locking (set_sleeplock l h s) = pr_locking s"
  "devsw (acquired lk s) = devsw s"
  "devsw (touched s) = devsw s"
  "devsw (set_proc p g s) = devsw s"
  "devsw (set_sleeplock l h s) = devsw s"
  "klocal (acquired lk s) = klocal s"
  "klocal (touched s) = klocal s"
  "klocal (set_proc p g s) = klocal s"
  "klocal (set_sleeplock l h s) = klocal s"
  by (simp_all add: acquired_def pushed_def touched_def mach_upd_defs)

lemma cmach_upd [simp]:
  "cons_update ucons (acquired lk s) = acquired lk (cons_update ucons s)"
  "cons_update ucons (touched s) = touched (cons_update ucons s)"
  "pr_locking_update uprlocking (acquired lk s) = acquired lk (pr_locking_update uprlocking s)"
  "pr_locking_update uprlocking (touched s) = touched (pr_locking_update uprlocking s)"
  "devsw_update udevsw (acquired lk s) = acquired lk (devsw_update udevsw s)"
  "devsw_update udevsw (touched s) = touched (devsw_update udevsw s)"
  "klocal_update uklocal (acquired lk s) = acquired lk (klocal_update uklocal s)"
  "klocal_update uklocal (touched s) = touched (klocal_update uklocal s)"
  by (simp_all add: acquired_def pushed_def touched_def mach_upd_defs intr_get_def)

lemma cmach_ok [simp]:
  "cpu_ok (cons_update ucons s) = cpu_ok s"
  "lock_free lk (cons_update ucons s) = lock_free lk s"
  "mycpu (cons_update ucons s) = mycpu s"
  "intr_get (cons_update ucons s) = intr_get s"
  "holding lk (cons_update ucons s) = holding lk s"
  "proc_locks_free (cons_update ucons s) = proc_locks_free s"
  "running p (cons_update ucons s) = running p s"
  "cpu_ok (pr_locking_update uprlocking s) = cpu_ok s"
  "lock_free lk (pr_locking_update uprlocking s) = lock_free lk s"
  "mycpu (pr_locking_update uprlocking s) = mycpu s"
  "intr_get (pr_locking_update uprlocking s) = intr_get s"
  "holding lk (pr_locking_update uprlocking s) = holding lk s"
  "proc_locks_free (pr_locking_update uprlocking s) = proc_locks_free s"
  "running p (pr_locking_update uprlocking s) = running p s"
  "cpu_ok (devsw_update udevsw s) = cpu_ok s"
  "lock_free lk (devsw_update udevsw s) = lock_free lk s"
  "mycpu (devsw_update udevsw s) = mycpu s"
  "intr_get (devsw_update udevsw s) = intr_get s"
  "holding lk (devsw_update udevsw s) = holding lk s"
  "proc_locks_free (devsw_update udevsw s) = proc_locks_free s"
  "running p (devsw_update udevsw s) = running p s"
  "cpu_ok (klocal_update uklocal s) = cpu_ok s"
  "lock_free lk (klocal_update uklocal s) = lock_free lk s"
  "mycpu (klocal_update uklocal s) = mycpu s"
  "intr_get (klocal_update uklocal s) = intr_get s"
  "holding lk (klocal_update uklocal s) = holding lk s"
  "proc_locks_free (klocal_update uklocal s) = proc_locks_free s"
  "running p (klocal_update uklocal s) = running p s"
  by (simp_all add: cpu_ok_def lock_free_def mach_upd_defs intr_get_def holding_def proc_locks_free_def running_def)


lemma pushed_cmach [simp]:
  "cons (pushed s) = cons s" "klocal (pushed s) = klocal s"
  by (simp_all add: pushed_def mach_upd_defs intr_get_def)

section \<open>Output\<close>

text \<open>\<open>emits m bs\<close>: where the console works, \<open>m\<close> returns and all it does is to send \<open>bs\<close>.\<close>

definition console_ready :: "'m umach_scheme \<Rightarrow> bool" where
  "console_ready s \<longleftrightarrow> cpu_ok s \<and> \<not> panicked s \<and> uart_live s"

definition sent :: "nat \<Rightarrow> uchar list \<Rightarrow> 'm umach_scheme \<Rightarrow> 'm umach_scheme" where
  "sent n bs s = s\<lparr>uart := (uart s)\<lparr>uart_reads := n, uart_sent := uart_sent (uart s) @ bs\<rparr>\<rparr>"

definition emits :: "('m umach_scheme, unit) kern \<Rightarrow> uchar list \<Rightarrow> bool" where
  "emits m bs \<longleftrightarrow> (\<forall>s e. console_ready s \<longrightarrow> (\<exists>n. m s e = Ok () (touched (sent n bs s)) e))"

lemma console_ready_simps [simp]:
  "console_ready (touched s) = console_ready s"
  "cpu_ok s \<Longrightarrow> console_ready (acquired lk s) = console_ready s"
  "console_ready (sent n bs s) = console_ready s"
  "console_ready (tx_update f1 s) = console_ready s"
  "console_ready (procs_update f2 s) = console_ready s"
  by (simp_all add: console_ready_def sent_def uart_live_def)

lemma console_ready_cmach [simp]:
  "console_ready (cons_update f1 s) = console_ready s"
  "console_ready (pr_locking_update f2 s) = console_ready s"
  "console_ready (klocal_update f3 s) = console_ready s"
  by (simp_all add: console_ready_def uart_live_def)

lemma sent_simps [simp]:
  "sent n bs (sent k as s) = sent n (as @ bs) s"
  "sent n bs (touched s) = touched (sent n bs s)"
  "sent n bs (acquired lk s) = acquired lk (sent n bs s)"
  "cpu_ok (sent n bs s) = cpu_ok s"
  "lock_free lk (sent n bs s) = lock_free lk s"
  "proc_locks_free (sent n bs s) = proc_locks_free s"
  "mycpu (sent n bs s) = mycpu s"
  "procs (sent n bs s) = procs s"
  "uart_sent (uart (sent n bs s)) = uart_sent (uart s) @ bs"
  "procs_update f (sent n bs s) = sent n bs (procs_update f s)"
  by (simp_all add: sent_def)

lemma sent_cmach [simp]:
  "cons (sent n bs s) = cons s"
  "pr_locking (sent n bs s) = pr_locking s"
  "cons_update f (sent n bs s) = sent n bs (cons_update f s)"
  "pr_locking_update g (sent n bs s) = sent n bs (pr_locking_update g s)"
  by (simp_all add: sent_def)

lemma console_ready_cpu: "console_ready s \<Longrightarrow> cpu_ok s"
  by (simp add: console_ready_def)

lemma emits_putc: "emits (uartputc_sync c) [c]"
  using uartputc_sync_run unfolding emits_def console_ready_def sent_def by blast

lemma emits_seq:
  assumes "emits m bs" "emits k cs"
  shows "emits (seq m k) (bs @ cs)"
  unfolding emits_def
proof (intro allI impI)
  fix s :: "'a umach_scheme" and e assume "console_ready s"
  then obtain n where n: "m s e = Ok () (touched (sent n bs s)) e" using assms(1) unfolding emits_def by blast
  have "console_ready (touched (sent n bs s))" using \<open>console_ready s\<close> by simp
  then obtain n' where "k (touched (sent n bs s)) e = Ok () (touched (sent n' cs (touched (sent n bs s)))) e"
    using assms(2) unfolding emits_def by blast
  with n show "\<exists>n. seq m k s e = Ok () (touched (sent n (bs @ cs) s)) e" by auto
qed

definition cons_bytes :: "int \<Rightarrow> uchar list" where
  "cons_bytes c = (if c = BACKSPACE then [8, 32, 8] else [word_of_int c])"

lemma emits_consputc: "emits (consputc c) (cons_bytes c)"
proof (cases "c = BACKSPACE")
  case True
  then show ?thesis
    using emits_seq [OF emits_putc [of 8] emits_seq [OF emits_putc [of 32] emits_putc [of 8]]]
    by (simp add: consputc_def cons_bytes_def)
next
  case False
  then show ?thesis by (simp add: consputc_def cons_bytes_def emits_putc)
qed

lemma emitsE:
  assumes "emits m bs" "console_ready s"
  obtains n where "m s e = Ok () (touched (sent n bs s)) e"
  using assms unfolding emits_def by blast

lemma emits_for_each:
  assumes "\<And>x. x \<in> set xs \<Longrightarrow> emits (f x) (g x)" "xs \<noteq> []"
  shows "emits (for_each xs f) (concat (map g xs))"
  using assms
proof (induction xs)
  case (Cons x xs)
  show ?case
  proof (cases "xs = []")
    case True
    have "seq (f x) (ret ()) = f x"
      by (rule ext, rule ext) (auto simp: seq_run split: outcome.splits)
    then show ?thesis using True Cons.prems(1) [of x] by simp
  next
    case False
    then have "emits (for_each xs f) (concat (map g xs))" using Cons by simp
    then show ?thesis using emits_seq [OF Cons.prems(1) [of x]] by simp
  qed
qed simp

definition text_bytes :: "string \<Rightarrow> uchar list" where
  "text_bytes t = map of_char t"

lemma of_char_byte: "(word_of_int (of_char c) :: uchar) = of_char c"
proof -
  have "(of_char c :: int) = int (of_char c)" by (simp add: of_nat_of_char)
  then have "(word_of_int (of_char c) :: uchar) = of_nat (of_char c)" by simp
  then show ?thesis by (simp add: of_nat_of_char)
qed

lemma of_char_not_backspace: "(of_char c :: int) \<noteq> BACKSPACE"
proof
  assume "(of_char c :: int) = BACKSPACE"
  then show False using of_char_mod_256 [of c, where 'a = int] by (simp add: BACKSPACE_def)
qed

lemma emits_text: "t \<noteq> [] \<Longrightarrow> emits (for_each t (\<lambda>c. consputc (of_char c))) (text_bytes t)"
  using emits_for_each [of t "\<lambda>c. consputc (of_char c)" "\<lambda>c. cons_bytes (of_char c)", OF emits_consputc]
  by (simp add: cons_bytes_def of_char_byte of_char_not_backspace text_bytes_def)

lemma printf_run:
  assumes "console_ready s" "pr_locking s \<longrightarrow> lock_free L_pr s" "printf_text fmt args = Some t" "t \<noteq> []"
  obtains n where "printf fmt args s e = Ok () (touched (sent n (text_bytes t) s)) e"
proof (cases "pr_locking s")
  case True
  obtain n where "for_each t (\<lambda>c. consputc (of_char c)) (acquired L_pr s) e =
      Ok () (touched (sent n (text_bytes t) (acquired L_pr s))) e"
    using emits_text [OF assms(4)] console_ready_simps(2) [OF console_ready_cpu [OF assms(1)]] assms(1)
    unfolding emits_def by blast
  then show thesis
    using that [of n] assms True console_ready_cpu [OF assms(1)] by (simp add: printf_def acquire_run)
next
  case False
  obtain n where "for_each t (\<lambda>c. consputc (of_char c)) s e = Ok () (touched (sent n (text_bytes t) s)) e"
    using emits_text [OF assms(4)] assms(1) by (rule emitsE)
  then show thesis using that [of n] assms False by (simp add: printf_def)
qed

section \<open>The line editor\<close>

text \<open>
  What the ring holds: the bytes of finished lines that no reader has taken,
  and the line being edited.
\<close>

definition committed :: "consq \<Rightarrow> uchar list" where
  "committed q = ring INPUT_BUF_SIZE (cons_buf q) (cons_r q) (cons_w q)"

definition pending :: "consq \<Rightarrow> uchar list" where
  "pending q = ring INPUT_BUF_SIZE (cons_buf q) (cons_w q) (cons_e q)"

definition cons_inv :: "consq \<Rightarrow> bool" where
  "cons_inv q \<longleftrightarrow> unat (cons_w q - cons_r q) \<le> unat (cons_e q - cons_r q) \<and>
     unat (cons_e q - cons_r q) \<le> INPUT_BUF_SIZE \<and> 10 \<notin> set (pending q)"

text \<open>The editor on those two lists.\<close>

definition line_edit :: "int \<Rightarrow> uchar list \<times> uchar list \<Rightarrow> uchar list \<times> uchar list" where
  "line_edit c = (\<lambda>(old, cur).
     if c = 0x10 then (old, cur)
     else if c = 0x15 then (old, [])
     else if c = 0x08 \<or> c = 0x7f then (old, butlast cur)
     else if c = 0 \<or> length (old @ cur) \<ge> INPUT_BUF_SIZE then (old, cur)
     else let c = (if c = 13 then 10 else c); cur = cur @ [word_of_int c]
       in if c = 10 \<or> c = 4 \<or> length (old @ cur) = INPUT_BUF_SIZE then (old @ cur, []) else (old, cur))"

lemma ring_all: "cons_inv q \<Longrightarrow> ring INPUT_BUF_SIZE (cons_buf q) (cons_r q) (cons_e q) = committed q @ pending q"
  unfolding cons_inv_def committed_def pending_def by (intro ring_append) simp

lemma length_all: "cons_inv q \<Longrightarrow> length (committed q) + length (pending q) = unat (cons_e q - cons_r q)"
  using arg_cong [OF ring_all, of q length] by simp

lemma pending_Nil: "pending q = [] \<longleftrightarrow> cons_e q = cons_w q"
  by (simp add: pending_def)

lemma ring_snoc:
  fixes w e :: "'w::len word"
  assumes "e \<noteq> w"
  shows "ring n buf w e = ring n buf w (e - 1) @ [buf (unat (e - 1) mod n)]"
proof -
  have "unat (e - w) \<noteq> 0" using assms by (simp add: unat_eq_zero)
  moreover have u: "unat (e - w - 1) = unat (e - w) - 1" using assms by (intro unat_minus_one) simp
  moreover have d: "e - 1 - w = e - w - 1" by simp
  ultimately have "unat (e - w) = Suc (unat (e - 1 - w))" by (simp only: d)
  then show ?thesis by (simp add: ring_def)
qed

lemma erase_law:
  assumes "cons_inv q" "cons_e q \<noteq> cons_w q"
  shows "cons_inv (q\<lparr>cons_e := cons_e q - 1\<rparr>)"
    "committed (q\<lparr>cons_e := cons_e q - 1\<rparr>) = committed q"
    "pending (q\<lparr>cons_e := cons_e q - 1\<rparr>) = butlast (pending q)"
proof -
  have p: "pending q = pending (q\<lparr>cons_e := cons_e q - 1\<rparr>) @ [cons_buf q (unat (cons_e q - 1) mod INPUT_BUF_SIZE)]"
    using ring_snoc [OF assms(2)] by (simp add: pending_def)
  then show "pending (q\<lparr>cons_e := cons_e q - 1\<rparr>) = butlast (pending q)" by simp
  show "committed (q\<lparr>cons_e := cons_e q - 1\<rparr>) = committed q" by (simp add: committed_def)
  have ne: "cons_e q \<noteq> cons_r q"
    using assms unfolding cons_inv_def by (metis le_zero_eq unat_0 unat_eq_zero eq_iff_diff_eq_0)
  have "unat (cons_e q - 1 - cons_r q) = unat (cons_e q - cons_r q) - 1"
  proof -
    have "cons_e q - 1 - cons_r q = cons_e q - cons_r q - 1" by simp
    moreover have "unat (cons_e q - cons_r q - 1) = unat (cons_e q - cons_r q) - 1"
      using ne by (intro unat_minus_one) simp
    ultimately show ?thesis by metis
  qed
  moreover have "length (committed q) < unat (cons_e q - cons_r q)"
    using length_all [OF assms(1)] assms(2) pending_Nil [of q] by (cases "pending q") auto
  ultimately show "cons_inv (q\<lparr>cons_e := cons_e q - 1\<rparr>)"
    using assms(1) p unfolding cons_inv_def committed_def by auto
qed

lemma cons_put_law:
  assumes "cons_inv q" "unat (cons_e q - cons_r q) < INPUT_BUF_SIZE"
  shows "committed (cons_put c q) = committed q" "pending (cons_put c q) = pending q @ [c]"
    "unat (cons_e (cons_put c q) - cons_r q) = Suc (unat (cons_e q - cons_r q))"
proof -
  let ?q = "cons_put c q"
  have "ring INPUT_BUF_SIZE (cons_buf ?q) (cons_r q) (cons_e ?q) = (committed q @ pending q) @ [c]"
    using ring_push [of INPUT_BUF_SIZE "cons_e q" "cons_r q" "cons_buf q" c] assms(2) ring_all [OF assms(1)]
    by (simp add: cons_put_def INPUT_BUF_SIZE_def)
  moreover from arg_cong [OF this, of length]
  show n: "unat (cons_e ?q - cons_r q) = Suc (unat (cons_e q - cons_r q))"
    using length_all [OF assms(1)] by simp
  then have "ring INPUT_BUF_SIZE (cons_buf ?q) (cons_r q) (cons_e ?q) = committed ?q @ pending ?q"
    using assms(1) ring_append [of "cons_w q" "cons_r q" "cons_e ?q" INPUT_BUF_SIZE "cons_buf ?q"]
    by (simp add: cons_inv_def committed_def pending_def) (simp add: cons_put_def)
  ultimately have "committed ?q @ pending ?q = committed q @ (pending q @ [c])" by simp
  moreover have "length (committed ?q) = length (committed q)" by (simp add: committed_def cons_put_def)
  ultimately show "committed ?q = committed q" "pending ?q = pending q @ [c]"
    by simp_all
qed

text \<open>What a key press shows on the screen.\<close>

definition proc_line :: "proc \<Rightarrow> string" where
  "proc_line q = (if pstate q = UNUSED then [] else
     printint (word_of_int (pid q)) 10 True @ CHR '' '' # state_name (pstate q) @ CHR '' '' # pname q @ [CHR 0x0A])"

definition dump_text :: "(nat \<Rightarrow> proc) \<Rightarrow> string" where
  "dump_text ps = CHR 0x0A # concat (map (\<lambda>p. proc_line (ps p)) [0..<NPROC])"

definition line_echo :: "int \<Rightarrow> (nat \<Rightarrow> proc) \<Rightarrow> uchar list \<times> uchar list \<Rightarrow> uchar list" where
  "line_echo c ps = (\<lambda>(old, cur).
     if c = 0x10 then text_bytes (dump_text ps)
     else if c = 0x15 then concat (replicate (length cur) [8, 32, 8])
     else if c = 0x08 \<or> c = 0x7f then (if cur = [] then [] else [8, 32, 8])
     else if c = 0 \<or> length (old @ cur) \<ge> INPUT_BUF_SIZE then []
     else [word_of_int (if c = 13 then 10 else c)])"

text \<open>\<open>cons_emits ps m bs\<close>: with the console's lock held, and \<open>ps\<close> the process table, \<open>m\<close> sends \<open>bs\<close>.\<close>

definition cons_emits :: "(nat \<Rightarrow> proc) \<Rightarrow> ('m cmach_scheme, unit) kern \<Rightarrow> uchar list \<Rightarrow> bool" where
  "cons_emits ps m bs \<longleftrightarrow> (\<forall>s e. console_ready s \<longrightarrow> lock_free L_pr s \<longrightarrow> procs s = ps \<longrightarrow>
     (\<exists>n. m (acquired L_cons s) e = Ok () (acquired L_cons (sent n bs s)) e))"

lemma sent_Nil: "sent (uart_reads (uart s)) [] s = s"
  by (simp add: sent_def)

lemma cons_emits_ret: "cons_emits ps (ret ()) []"
  unfolding cons_emits_def using sent_Nil by (metis ret_run)

lemma cons_emits_seq:
  assumes "cons_emits ps m bs" "cons_emits ps k cs"
  shows "cons_emits ps (seq m k) (bs @ cs)"
  unfolding cons_emits_def
proof (intro allI impI)
  fix s :: "'a cmach_scheme" and e assume s: "console_ready s" "lock_free L_pr s" "procs s = ps"
  then obtain n where n: "m (acquired L_cons s) e = Ok () (acquired L_cons (sent n bs s)) e"
    using assms(1) unfolding cons_emits_def by blast
  have "console_ready (sent n bs s)" "lock_free L_pr (sent n bs s)" "procs (sent n bs s) = ps" using s by simp_all
  then obtain n' where "k (acquired L_cons (sent n bs s)) e = Ok () (acquired L_cons (sent n' cs (sent n bs s))) e"
    using assms(2) unfolding cons_emits_def by blast
  with n show "\<exists>n. seq m k (acquired L_cons s) e = Ok () (acquired L_cons (sent n (bs @ cs) s)) e" by auto
qed

lemma cons_emits_for_each:
  "(\<And>x. x \<in> set xs \<Longrightarrow> cons_emits ps (f x) (g x)) \<Longrightarrow> cons_emits ps (for_each xs f) (concat (map g xs))"
  by (induction xs) (auto intro: cons_emits_ret cons_emits_seq)

lemma cons_emits_putc: "cons_emits ps (consputc c) (cons_bytes c)"
  unfolding cons_emits_def
proof (intro allI impI)
  fix s :: "'a cmach_scheme" and e assume s: "console_ready s" "lock_free L_pr s" "procs s = ps"
  have "console_ready (acquired L_cons s)" using s console_ready_cpu [OF s(1)] by simp
  then obtain n where "consputc c (acquired L_cons s) e = Ok () (touched (sent n (cons_bytes c) (acquired L_cons s))) e"
    using emits_consputc unfolding emits_def by blast
  then show "\<exists>n. consputc c (acquired L_cons s) e = Ok () (acquired L_cons (sent n (cons_bytes c) s)) e"
    using console_ready_cpu [OF s(1)] by auto
qed

lemma cons_emits_printf:
  assumes "printf_text fmt args = Some t" "t \<noteq> []"
  shows "cons_emits ps (printf fmt args) (text_bytes t)"
  unfolding cons_emits_def
proof (intro allI impI)
  fix s :: "'a cmach_scheme" and e assume s: "console_ready s" "lock_free L_pr s" "procs s = ps"
  have "console_ready (acquired L_cons s)" "lock_free L_pr (acquired L_cons s)" using s console_ready_cpu [OF s(1)] by simp_all
  then obtain n where "printf fmt args (acquired L_cons s) e = Ok () (touched (sent n (text_bytes t) (acquired L_cons s))) e"
    using printf_run assms by metis
  then show "\<exists>n. printf fmt args (acquired L_cons s) e = Ok () (acquired L_cons (sent n (text_bytes t) s)) e"
    using console_ready_cpu [OF s(1)] by auto
qed

lemma printf_plain: "CHR ''%'' \<notin> set fmt \<Longrightarrow> printf_text fmt args = Some fmt"
  by (induction fmt args rule: printf_text.induct) auto

lemma printf_newline: "printf_text [CHR 0x0A] [] = Some [CHR 0x0A]"
  by simp

lemma cons_emits_proc:
  "cons_emits ps (bind (gets (\<lambda>s. procs s p)) (\<lambda>q.
       if pstate q = UNUSED then ret () else
       seq (printf ''%d %s %s'' [A_int (word_of_int (pid q)), A_str (Some (state_name (pstate q))), A_str (Some (pname q))]) (
       printf [CHR 0x0A] []))) (text_bytes (proc_line (ps p)))"
proof (cases "pstate (ps p) = UNUSED")
  case True
  then show ?thesis using cons_emits_ret [of ps] unfolding cons_emits_def by (simp add: proc_line_def text_bytes_def)
next
  case False
  let ?q = "ps p"
  have t: "printf_text ''%d %s %s'' [A_int (word_of_int (pid ?q)), A_str (Some (state_name (pstate ?q))), A_str (Some (pname ?q))]
      = Some (printint (word_of_int (pid ?q)) 10 True @ CHR '' '' # state_name (pstate ?q) @ CHR '' '' # pname ?q)"
    by (simp add: print_str_def)
  have "cons_emits ps (seq (printf ''%d %s %s''
        [A_int (word_of_int (pid ?q)), A_str (Some (state_name (pstate ?q))), A_str (Some (pname ?q))]) (printf [CHR 0x0A] []))
      (text_bytes (proc_line ?q))"
    using cons_emits_seq [OF cons_emits_printf [OF t] cons_emits_printf [OF printf_newline], of ps] False
    by (simp add: proc_line_def text_bytes_def)
  then show ?thesis using False unfolding cons_emits_def by simp
qed

lemma cons_emits_procdump: "cons_emits ps procdump (text_bytes (dump_text ps))"
  using cons_emits_seq [OF cons_emits_printf [OF printf_newline] cons_emits_for_each [where xs = "[0..<NPROC]", OF cons_emits_proc], of ps]
  by (simp add: procdump_def dump_text_def text_bytes_def map_concat comp_def)

text \<open>Erasing one character, and all of them.\<close>

lemma cons_erase_run:
  assumes "console_ready s"
  obtains n where "cons_erase (acquired L_cons s) e =
    Ok () (acquired L_cons (sent n [8, 32, 8] (s\<lparr>cons := (cons s)\<lparr>cons_e := cons_e (cons s) - 1\<rparr>\<rparr>))) e"
proof -
  let ?s = "s\<lparr>cons := (cons s)\<lparr>cons_e := cons_e (cons s) - 1\<rparr>\<rparr>"
  have r: "console_ready (acquired L_cons ?s)" using assms console_ready_cpu [OF assms] by simp
  obtain n where "consputc BACKSPACE (acquired L_cons ?s) e =
      Ok () (touched (sent n (cons_bytes BACKSPACE) (acquired L_cons ?s))) e"
    using emitsE [OF emits_consputc r] by blast
  then show thesis
    using that [of n] console_ready_cpu [OF assms] by (simp add: cons_erase_def cons_bytes_def)
qed

lemma kill_line_run:
  assumes "console_ready s" "cons_inv (cons s)"
  shows "\<exists>n q. whileM (\<lambda>_ s. cons_e (cons s) \<noteq> cons_w (cons s) \<and>
        cons_buf (cons s) (unat (cons_e (cons s) - 1) mod INPUT_BUF_SIZE) \<noteq> 10) (\<lambda>_. cons_erase) () (acquired L_cons s) e =
      Ok () (acquired L_cons (sent n (concat (replicate (length (pending (cons s))) [8, 32, 8])) (s\<lparr>cons := q\<rparr>))) e \<and>
    cons_inv q \<and> committed q = committed (cons s) \<and> pending q = []"
  using assms
proof (induction "length (pending (cons s))" arbitrary: s)
  case 0
  then show ?case
    using sent_Nil [of s] pending_Nil [of "cons s"]
    by (intro exI [of _ "uart_reads (uart s)"] exI [of _ "cons s"]) (simp add: whileM_stop)
next
  case (Suc k)
  let ?q = "(cons s)\<lparr>cons_e := cons_e (cons s) - 1\<rparr>"
  have ne: "cons_e (cons s) \<noteq> cons_w (cons s)" using Suc.hyps(2) pending_Nil [of "cons s"] by auto
  note er = erase_law [OF Suc.prems(2) ne]
  have "pending (cons s) = pending ?q @ [cons_buf (cons s) (unat (cons_e (cons s) - 1) mod INPUT_BUF_SIZE)]"
    using ring_snoc [OF ne] by (simp add: pending_def)
  then have nl: "cons_buf (cons s) (unat (cons_e (cons s) - 1) mod INPUT_BUF_SIZE) \<noteq> 10"
    using Suc.prems(2) by (auto simp: cons_inv_def)
  obtain n where n: "cons_erase (acquired L_cons s) e = Ok () (acquired L_cons (sent n [8, 32, 8] (s\<lparr>cons := ?q\<rparr>))) e"
    using cons_erase_run [OF Suc.prems(1)] by blast
  let ?t = "sent n [8, 32, 8] (s\<lparr>cons := ?q\<rparr>)"
  have t: "k = length (pending (cons ?t))" "console_ready ?t" "cons_inv (cons ?t)" "length (pending (cons s)) = Suc k"
    using Suc er by simp_all
  obtain n' q' where "whileM (\<lambda>_ s. cons_e (cons s) \<noteq> cons_w (cons s) \<and>
        cons_buf (cons s) (unat (cons_e (cons s) - 1) mod INPUT_BUF_SIZE) \<noteq> 10) (\<lambda>_. cons_erase) () (acquired L_cons ?t) e =
      Ok () (acquired L_cons (sent n' (concat (replicate k [8, 32, 8])) (?t\<lparr>cons := q'\<rparr>))) e"
     "cons_inv q'" "committed q' = committed (cons s)" "pending q' = []"
    using Suc.hyps(1) [OF t(1-3)] t(1) er(2) by auto
  then show ?case
    using ne nl n t(4) by (intro exI [of _ n'] exI [of _ q']) (subst whileM_unfold, simp)
qed

text \<open>An ordinary character.\<close>

definition committing :: "int \<Rightarrow> consq \<Rightarrow> bool" where
  "committing c q \<longleftrightarrow> c = 10 \<or> c = 4 \<or> unat (cons_e q - cons_r q) = INPUT_BUF_SIZE"

lemma commit_law:
  assumes "unat (cons_w q - cons_r q) \<le> unat (cons_e q - cons_r q)" "unat (cons_e q - cons_r q) \<le> INPUT_BUF_SIZE"
  shows "cons_inv (q\<lparr>cons_w := cons_e q\<rparr>)" "committed (q\<lparr>cons_w := cons_e q\<rparr>) = committed q @ pending q"
    "pending (q\<lparr>cons_w := cons_e q\<rparr>) = []"
  using assms ring_append [OF assms(1), of INPUT_BUF_SIZE "cons_buf q"]
  by (simp_all add: cons_inv_def committed_def pending_def)

definition stored :: "int \<Rightarrow> consq \<Rightarrow> consq" where
  "stored c q = (let q = cons_put (word_of_int c) q in if committing c q then q\<lparr>cons_w := cons_e q\<rparr> else q)"

lemma char_byte_10: "0 \<le> c \<Longrightarrow> c < 256 \<Longrightarrow> (word_of_int c :: uchar) = 10 \<Longrightarrow> c = 10"
  using uint_word_of_int [of c, where 'a = 8] by simp

lemma stored_law:
  assumes "cons_inv q" "unat (cons_e q - cons_r q) < INPUT_BUF_SIZE" "0 \<le> c" "c < 256"
  shows "cons_inv (stored c q)"
    "(committed (stored c q), pending (stored c q)) =
      (let cur = pending q @ [word_of_int c]
       in if c = 10 \<or> c = 4 \<or> length (committed q @ cur) = INPUT_BUF_SIZE then (committed q @ cur, []) else (committed q, cur))"
proof -
  let ?q = "cons_put (word_of_int c) q"
  note p = cons_put_law [OF assms(1,2), of "word_of_int c"]
  have r: "cons_r ?q = cons_r q" "cons_w ?q = cons_w q" by (simp_all add: cons_put_def)
  have b: "unat (cons_w ?q - cons_r ?q) \<le> unat (cons_e ?q - cons_r ?q)" "unat (cons_e ?q - cons_r ?q) \<le> INPUT_BUF_SIZE"
    using p(3) assms(1,2) r by (simp_all add: cons_inv_def)
  have len: "length (committed q @ pending q @ [word_of_int c]) = unat (cons_e ?q - cons_r ?q)"
    using length_all [OF assms(1)] p(3) r by simp
  have "10 \<notin> set (pending ?q)" if "c \<noteq> 10"
    using assms that char_byte_10 [of c] p(2) by (auto simp: cons_inv_def)
  then show "cons_inv (stored c q)"
    using commit_law(1) [OF b] b by (auto simp: stored_def Let_def committing_def cons_inv_def)
  show "(committed (stored c q), pending (stored c q)) =
      (let cur = pending q @ [word_of_int c]
       in if c = 10 \<or> c = 4 \<or> length (committed q @ cur) = INPUT_BUF_SIZE then (committed q @ cur, []) else (committed q, cur))"
    using commit_law(2,3) [OF b] p(1,2) len by (auto simp: stored_def Let_def committing_def)
qed

lemma consoleintr_char:
  assumes "console_ready s" "proc_locks_free s" "lock_free L_cons s" "cons_inv (cons s)"
    and c: "c \<noteq> 0x10" "c \<noteq> 0x15" "c \<noteq> 8" "c \<noteq> 0x7f" "c \<noteq> 0"
    and room: "unat (cons_e (cons s) - cons_r (cons s)) < INPUT_BUF_SIZE" and d: "d = (if c = 13 then 10 else c)"
    and range: "0 \<le> c" "c < 256"
  shows "\<exists>n. consoleintr c s e = Ok () (touched (sent n [word_of_int d] (s\<lparr>cons := stored d (cons s),
      procs := (if committing d (cons_put (word_of_int d) (cons s)) then woken Ch_cons_r (cpu_proc (mycpu s)) (procs s)
        else procs s)\<rparr>))) e"
proof -
  have ok: "cpu_ok s" using assms(1) by (rule console_ready_cpu)
  have "console_ready (acquired L_cons s)" using assms(1) ok by simp
  then obtain n where "consputc d (acquired L_cons s) e = Ok () (touched (sent n (cons_bytes d) (acquired L_cons s))) e"
    using emitsE [OF emits_consputc] by blast
  moreover have "cons_bytes d = [word_of_int d]" using range d by (simp add: cons_bytes_def BACKSPACE_def)
  ultimately have n: "consputc d (acquired L_cons s) e = Ok () (acquired L_cons (sent n [word_of_int d] s)) e"
    using ok by simp
  show ?thesis
    unfolding consoleintr_def Let_def d [symmetric]
    using assms(2,3) ok c room n
    by (intro exI [of _ n]) (simp add: acquire_run wakeup_run whenM_def committing_def stored_def Let_def)
qed

text \<open>
  C22: the console's interrupt handler is a line editor.  With the console working and
  its lock free, \<^verbatim>\<open>consoleintr(c)\<close> returns for every byte \<open>c\<close>; the finished lines and
  the line being edited are changed as by \<open>line_edit\<close>, the screen shows \<open>line_echo\<close>,
  processes waiting for input are woken exactly if a line was finished, and the
  indices keep their invariant.
\<close>

theorem consoleintr_edits:
  assumes "console_ready s" "proc_locks_free s" "lock_free L_cons s" "lock_free L_pr s" "cons_inv (cons s)"
    and "0 \<le> c" "c < 256"
  shows "\<exists>n q. consoleintr c s e =
      Ok () (touched (sent n (line_echo c (procs s) (committed (cons s), pending (cons s))) (s\<lparr>cons := q,
        procs := (if committed q \<noteq> committed (cons s) then woken Ch_cons_r (cpu_proc (mycpu s)) (procs s) else procs s)\<rparr>))) e \<and>
    cons_inv q \<and> (committed q, pending q) = line_edit c (committed (cons s), pending (cons s))"
proof -
  have ok: "cpu_ok s" using assms(1) by (rule console_ready_cpu)
  have room: "length (committed (cons s) @ pending (cons s)) = unat (cons_e (cons s) - cons_r (cons s))"
    using length_all [OF assms(5)] by simp
  consider (dump) "c = 0x10" | (kill) "c = 0x15" | (rub) "c = 8 \<or> c = 0x7f"
    | (skip) "c \<noteq> 0x10" "c \<noteq> 0x15" "c \<noteq> 8" "c \<noteq> 0x7f" "c = 0 \<or> INPUT_BUF_SIZE \<le> unat (cons_e (cons s) - cons_r (cons s))"
    | (key) "c \<noteq> 0x10" "c \<noteq> 0x15" "c \<noteq> 8" "c \<noteq> 0x7f" "c \<noteq> 0" "unat (cons_e (cons s) - cons_r (cons s)) < INPUT_BUF_SIZE"
    by linarith
  then show ?thesis
  proof cases
    case dump
    obtain n where "procdump (acquired L_cons s) e = Ok () (acquired L_cons (sent n (text_bytes (dump_text (procs s))) s)) e"
      using cons_emits_procdump assms(1,4) unfolding cons_emits_def by blast
    then show ?thesis
      using dump ok assms by (intro exI [of _ n] exI [of _ "cons s"])
        (simp add: consoleintr_def acquire_run line_echo_def line_edit_def)
  next
    case kill
    obtain n q where "whileM (\<lambda>_ s. cons_e (cons s) \<noteq> cons_w (cons s) \<and>
        cons_buf (cons s) (unat (cons_e (cons s) - 1) mod INPUT_BUF_SIZE) \<noteq> 10) (\<lambda>_. cons_erase) () (acquired L_cons s) e =
      Ok () (acquired L_cons (sent n (concat (replicate (length (pending (cons s))) [8, 32, 8])) (s\<lparr>cons := q\<rparr>))) e"
      "cons_inv q" "committed q = committed (cons s)" "pending q = []"
      using kill_line_run [OF assms(1,5)] by blast
    then show ?thesis
      using kill ok assms by (intro exI [of _ n] exI [of _ q])
        (simp add: consoleintr_def acquire_run line_echo_def line_edit_def)
  next
    case rub
    show ?thesis
    proof (cases "pending (cons s) = []")
      case True
      then show ?thesis
        using rub ok assms pending_Nil [of "cons s"] sent_Nil [of s]
        by (intro exI [of _ "uart_reads (uart s)"] exI [of _ "cons s"])
          (auto simp: consoleintr_def acquire_run line_echo_def line_edit_def)
    next
      case False
      then have ne: "cons_e (cons s) \<noteq> cons_w (cons s)" using pending_Nil by metis
      obtain n where "cons_erase (acquired L_cons s) e =
          Ok () (acquired L_cons (sent n [8, 32, 8] (s\<lparr>cons := (cons s)\<lparr>cons_e := cons_e (cons s) - 1\<rparr>\<rparr>))) e"
        using cons_erase_run [OF assms(1)] by blast
      then show ?thesis
        using rub ok assms ne False erase_law [OF assms(5) ne]
        by (intro exI [of _ n] exI [of _ "(cons s)\<lparr>cons_e := cons_e (cons s) - 1\<rparr>"])
          (auto simp: consoleintr_def acquire_run line_echo_def line_edit_def)
    qed
  next
    case skip
    then show ?thesis
      using ok assms sent_Nil [of s] room
      by (intro exI [of _ "uart_reads (uart s)"] exI [of _ "cons s"])
        (auto simp: consoleintr_def acquire_run line_echo_def line_edit_def)
  next
    case key
    let ?d = "if c = 13 then 10 else c"
    obtain n where n: "consoleintr c s e = Ok () (touched (sent n [word_of_int ?d] (s\<lparr>cons := stored ?d (cons s),
      procs := (if committing ?d (cons_put (word_of_int ?d) (cons s)) then woken Ch_cons_r (cpu_proc (mycpu s)) (procs s)
        else procs s)\<rparr>))) e"
      using consoleintr_char [OF assms(1-3,5) key refl assms(6,7)] by blast
    have d: "0 \<le> ?d" "?d < 256" using assms(6,7) by auto
    note st = stored_law [OF assms(5) key(6) d]
    have "committed (stored ?d (cons s)) \<noteq> committed (cons s) \<longleftrightarrow> committing ?d (cons_put (word_of_int ?d) (cons s))"
      using st(2) cons_put_law(3) [OF assms(5) key(6), of "word_of_int ?d"] room
      by (auto simp: Let_def committing_def cons_put_def split: if_splits)
    then show ?thesis
      using n key room st
      by (intro exI [of _ n] exI [of _ "stored ?d (cons s)"]) (simp add: line_echo_def line_edit_def Let_def)
  qed
qed

section \<open>Reading lines\<close>

text \<open>
  What \<open>consoleread\<close> should deliver from the finished lines: up to \<open>n\<close> bytes, up to
  the end of a line, and up to a control-D, which stays for the next call unless
  nothing came before it.  \<open>None\<close>: the reader has to wait for more input.
\<close>

fun read_line :: "nat \<Rightarrow> bool \<Rightarrow> uchar list \<Rightarrow> (uchar list \<times> uchar list) option" where
  "read_line 0 started bs = Some ([], bs)"
| "read_line (Suc n) started [] = None"
| "read_line (Suc n) started (c # cs) =
     (if c = 4 then Some ([], if started then c # cs else cs)
      else if c = 10 then Some ([c], cs)
      else map_option (\<lambda>(out, rest). (c # out, rest)) (read_line n True cs))"

lemma cons_get_law:
  assumes "committed q = c # cs"
  shows "cons_r q \<noteq> cons_w q" "fst (cons_get q) = c" "committed (snd (cons_get q)) = cs"
    "pending (snd (cons_get q)) = pending q" "(snd (cons_get q))\<lparr>cons_r := cons_r (snd (cons_get q)) - 1\<rparr> = q"
proof -
  have "ring INPUT_BUF_SIZE (cons_buf q) (cons_r q) (cons_w q) = c # cs" using assms by (simp add: committed_def)
  then have ne: "cons_w q \<noteq> cons_r q" by (metis list.distinct(1) ring_eq_Nil)
  then show "cons_r q \<noteq> cons_w q" by simp
  show "fst (cons_get q) = c" "committed (snd (cons_get q)) = cs" "pending (snd (cons_get q)) = pending q"
    using ring_pop [OF ne, of INPUT_BUF_SIZE "cons_buf q"] assms by (simp_all add: cons_get_def committed_def pending_def)
  show "(snd (cons_get q))\<lparr>cons_r := cons_r (snd (cons_get q)) - 1\<rparr> = q" by (simp add: cons_get_def)
qed

lemma either_copyout_byte:
  assumes "cpu_ok s" "cpu_proc (mycpu s) = Some p" "maps s (pagetable (procs s p)) T ps f" "user_range f (T \<union> set ps) va 1"
  shows "either_copyout (User va) [c] (acquired L_cons s) e = Ok 0 (acquired L_cons (s\<lparr>mem := (mem s)(uaddr f va := c)\<rparr>)) e"
proof -
  have "lock_free L_kmem s" using assms(3) by (simp add: maps_def vm_ok_def)
  then have "maps (acquired L_cons s) (pagetable (procs s p)) T ps f"
    using assms(1) by (intro maps_cong [OF assms(3)]) simp_all
  then show ?thesis
    using assms copyout_byte(1) [of "acquired L_cons s" "pagetable (procs s p)" T ps f va c e]
    by (simp add: either_copyout_def)
qed

lemma consoleread_loop:
  assumes "cpu_ok s" "cpu_proc (mycpu s) = Some p" "read_line n (int n < target) (committed (cons s)) = Some (out, rest)"
    and "maps s (pagetable (procs s p)) T ps f" "user_range f (T \<union> set ps) va (length out)" "int n \<le> target"
  shows "\<exists>dst left x q m. whileM (\<lambda>(dst, n, x) _. x = Looping \<and> n > 0) (consoleread_step target) (User va, int n, Looping)
        (acquired L_cons s) e = Ok (dst, left, x) (acquired L_cons (s\<lparr>cons := q, mem := m\<rparr>)) e \<and>
      x \<noteq> Returned \<and> int n - left = int (length out) \<and> committed q = rest \<and> pending q = pending (cons s) \<and>
      (\<forall>i < length out. m (uaddr f (va + of_nat i)) = out ! i) \<and>
      (\<forall>a. (\<forall>i < length out. a \<noteq> uaddr f (va + of_nat i)) \<longrightarrow> m a = mem s a)"
  using assms
proof (induction n arbitrary: s va out)
  case 0
  then show ?case
    by (intro exI [of _ "User va"] exI [of _ 0] exI [of _ Looping] exI [of _ "cons s"] exI [of _ "mem s"])
      (simp add: whileM_stop)
next
  case (Suc n)
  obtain c cs where cm: "committed (cons s) = c # cs" using Suc.prems(3) by (cases "committed (cons s)") auto
  note g = cons_get_law [OF cm]
  let ?q = "snd (cons_get (cons s))"
  have w: "cons_wait (acquired L_cons s) e = Ok False (acquired L_cons s) e"
    using g(1) by (simp add: cons_wait_def whileM_stop)
  have unfold: "whileM (\<lambda>(dst, n, x) _. x = Looping \<and> n > 0) (consoleread_step target) (User va, int (Suc n), Looping) (acquired L_cons s) e =
      bind (consoleread_step target (User va, int (Suc n), Looping))
        (whileM (\<lambda>(dst, n, x) _. x = Looping \<and> n > 0) (consoleread_step target)) (acquired L_cons s) e"
    by (subst whileM_unfold) simp
  show ?case
  proof (cases "c = 4")
    case True
    let ?q' = "if int (Suc n) < target then cons s else ?q"
    have "consoleread_step target (User va, int (Suc n), Looping) (acquired L_cons s) e =
        Ok (User va, int (Suc n), Broken) (acquired L_cons (s\<lparr>cons := ?q'\<rparr>)) e"
      using w g True by (simp add: consoleread_step_def whenM_def)
    then show ?thesis
      unfolding unfold using Suc.prems(3) True cm g
      by (intro exI [of _ "User va"] exI [of _ "int (Suc n)"] exI [of _ Broken] exI [of _ ?q'] exI [of _ "mem s"])
        (auto simp: whileM_stop)
  next
    case False
    obtain out' where out: "out = c # out'" using Suc.prems(3) cm False by (auto split: if_splits)
    let ?s = "s\<lparr>cons := ?q, mem := (mem s)(uaddr f va := c)\<rparr>"
    have r1: "user_range f (T \<union> set ps) va 1" "user_range f (T \<union> set ps) (va + 1) (length out')"
      "\<And>j. j < length out' \<Longrightarrow> uaddr f va \<noteq> uaddr f (va + 1 + of_nat j)"
      using user_range_split [OF Suc.prems(5), of 1] out by auto
    have mq: "maps (s\<lparr>cons := ?q\<rparr>) (pagetable (procs s p)) T ps f"
      using Suc.prems(1,4) by (intro maps_cong [OF Suc.prems(4)]) (simp_all add: maps_def vm_ok_def)
    have "either_copyout (User va) [c] (acquired L_cons (s\<lparr>cons := ?q\<rparr>)) e = Ok 0 (acquired L_cons ?s) e"
      using either_copyout_byte [of "s\<lparr>cons := ?q\<rparr>" p T ps f va c e] Suc.prems(1,2) mq r1(1) by simp
    then have step: "consoleread_step target (User va, int (Suc n), Looping) (acquired L_cons s) e =
        Ok (User (va + 1), int n, if c = 10 then Broken else Looping) (acquired L_cons ?s) e"
      using w g False by (simp add: consoleread_step_def)
    show ?thesis
    proof (cases "c = 10")
      case nl: True
      define m where "m = (mem s)(uaddr f va := c)"
      have m: "m (uaddr f va) = c" "\<forall>a. a \<noteq> uaddr f va \<longrightarrow> m a = mem s a" by (simp_all add: m_def)
      show ?thesis
        unfolding unfold using step [folded m_def] nl Suc.prems(3) cm out g m
        by (intro exI [of _ "User (va + 1)"] exI [of _ "int n"] exI [of _ Broken] exI [of _ ?q] exI [of _ m])
          (auto simp: whileM_stop)
    next
      case nl: False
      have rl: "read_line n (int n < target) (committed (cons ?s)) = Some (out', rest)"
        using Suc.prems(3,6) cm out g(3) False nl by (auto split: if_splits)
      have "maps ?s (pagetable (procs ?s p)) T ps f" using copyout_byte(2) [OF mq r1(1)] by simp
      with Suc.IH [of ?s out' "va + 1"] Suc.prems(1,2,6) rl r1(2) obtain dst left x q m where IH:
        "whileM (\<lambda>(dst, n, x) _. x = Looping \<and> n > 0) (consoleread_step target) (User (va + 1), int n, Looping)
          (acquired L_cons ?s) e = Ok (dst, left, x) (acquired L_cons (?s\<lparr>cons := q, mem := m\<rparr>)) e"
        "x \<noteq> Returned" "int n - left = int (length out')" "committed q = rest" "pending q = pending (cons ?s)"
        "\<forall>i < length out'. m (uaddr f (va + 1 + of_nat i)) = out' ! i"
        "\<forall>a. (\<forall>i < length out'. a \<noteq> uaddr f (va + 1 + of_nat i)) \<longrightarrow> m a = mem ?s a"
        by auto
      have at: "m (uaddr f (va + of_nat i)) = out ! i" if "i < length out" for i
        using that IH(6,7) r1(3) out by (cases i) (auto simp: algebra_simps)
      have off: "m a = mem s a" if o: "\<forall>i < length out. a \<noteq> uaddr f (va + of_nat i)" for a
      proof -
        have "a \<noteq> uaddr f va" using o [rule_format, of 0] out by simp
        moreover have "a \<noteq> uaddr f (va + 1 + of_nat i)" if "i < length out'" for i
          using o [rule_format, of "Suc i"] that out by (simp add: algebra_simps)
        ultimately show ?thesis using IH(7) by simp
      qed
      have "?s\<lparr>cons := q, mem := m\<rparr> = s\<lparr>cons := q, mem := m\<rparr>" by simp
      then show ?thesis
        unfolding unfold using step nl IH(1-5) g(4) at off out
        by (intro exI [of _ dst] exI [of _ left] exI [of _ x] exI [of _ q] exI [of _ m]) simp
    qed
  qed
qed

lemma consoleread_waits:
  assumes "running p s" "lock_free L_cons s" "\<not> pkilled (procs s p)" "committed (cons s) = []" "0 < n"
  shows "consoleread dst n s [] = Blocked (acquired (L_proc p) (asleep Ch_cons_r p s))"
proof -
  have ok: "cpu_ok s" "cpu_proc (mycpu s) = Some p" using assms(1) by (simp_all add: running_def)
  have "sleep Ch_cons_r L_cons (acquired L_cons s) [] = Blocked (acquired (L_proc p) (asleep Ch_cons_r p s))"
    using assms by (intro sleep_blocks) (simp_all add: running_def)
  moreover have "cons_r (cons s) = cons_w (cons s)"
    using assms(4) unfolding committed_def by (metis ring_eq_Nil)
  ultimately have "cons_wait (acquired L_cons s) [] = Blocked (acquired (L_proc p) (asleep Ch_cons_r p s))"
    using assms ok by (simp add: cons_wait_def) (subst whileM_unfold, simp add: running_def)
  then have "consoleread_step n (dst, n, Looping) (acquired L_cons s) [] = Blocked (acquired (L_proc p) (asleep Ch_cons_r p s))"
    by (simp add: consoleread_step_def)
  then show ?thesis
    using assms(2,5) ok by (simp add: consoleread_def acquire_run) (subst bind_run, subst whileM_unfold, simp)
qed

text \<open>
  C23: \<^verbatim>\<open>consoleread\<close> delivers the finished lines.  When they suffice for the call, it
  returns the number of bytes that \<open>read_line\<close> gives, exactly those bytes are at the
  user address, the rest of the lines and the line being edited stay, and no other
  memory has changed.
\<close>

theorem consoleread_delivers:
  assumes "running p s" "lock_free L_cons s" "maps s (pagetable (procs s p)) T ps f"
    and rl: "read_line (nat n) False (committed (cons s)) = Some (out, rest)"
    and ur: "user_range f (T \<union> set ps) va (length out)"
  shows "\<exists>q m. consoleread (User va) n s e = Ok (int (length out)) (touched (s\<lparr>cons := q, mem := m\<rparr>)) e \<and>
    committed q = rest \<and> pending q = pending (cons s) \<and> user_bytes m f va (length out) = out \<and>
    (\<forall>a. (\<forall>i < length out. a \<noteq> uaddr f (va + of_nat i)) \<longrightarrow> m a = mem s a)"
proof (cases "n \<le> 0")
  case True
  then show ?thesis
    using rl assms(1,2) by (intro exI [of _ "cons s"] exI [of _ "mem s"])
      (auto simp: consoleread_def acquire_run whileM_stop user_bytes_def running_def)
next
  case False
  have ok: "cpu_ok s" "cpu_proc (mycpu s) = Some p" using assms(1) by (simp_all add: running_def)
  from False have "read_line (nat n) (int (nat n) < n) (committed (cons s)) = Some (out, rest)" "int (nat n) \<le> n" "int (nat n) = n"
    using rl by simp_all
  with consoleread_loop [OF ok this(1) assms(3) ur this(2), of e] obtain dst left x q m where m:
    "whileM (\<lambda>(dst, n, x) _. x = Looping \<and> n > 0) (consoleread_step n) (User va, n, Looping)
      (acquired L_cons s) e = Ok (dst, left, x) (acquired L_cons (s\<lparr>cons := q, mem := m\<rparr>)) e"
    "x \<noteq> Returned" "n - left = int (length out)" "committed q = rest" "pending q = pending (cons s)"
    "\<forall>i < length out. m (uaddr f (va + of_nat i)) = out ! i"
    "\<forall>a. (\<forall>i < length out. a \<noteq> uaddr f (va + of_nat i)) \<longrightarrow> m a = mem s a"
    by (simp only:) blast
  have "user_bytes m f va (length out) = out"
    using m(6) by (intro nth_equalityI) (simp_all add: user_bytes_def)
  then show ?thesis
    using m ok assms(2) by (intro exI [of _ q] exI [of _ m]) (simp add: consoleread_def acquire_run)
qed

section \<open>The ring of the console as a queue\<close>

definition cons_contents :: "consq \<Rightarrow> uchar list" where
  "cons_contents q = ring INPUT_BUF_SIZE (cons_buf q) (cons_r q) (cons_e q)"

lemma cons_contents_laws:
  "length (cons_contents q) < INPUT_BUF_SIZE \<Longrightarrow> cons_contents (cons_put c q) = cons_contents q @ [c]"
  "cons_contents q \<noteq> [] \<Longrightarrow> cons_contents q = fst (cons_get q) # cons_contents (snd (cons_get q))"
  using ring_push [of INPUT_BUF_SIZE "cons_e q" "cons_r q" "cons_buf q" c]
  by (simp_all add: cons_contents_def cons_put_def cons_get_def INPUT_BUF_SIZE_def ring_pop)

interpretation consfifo: fifo cons_contents cons_put cons_get INPUT_BUF_SIZE
  by unfold_locales (simp_all add: cons_contents_laws(1) cons_contents_laws(2) [symmetric])

section \<open>Panics\<close>

lemma printf_sends:
  assumes "console_ready s" "\<not> pr_locking s" "CHR ''%'' \<notin> set fmt" "fmt \<noteq> []"
  shows "\<exists>n. printf fmt [] s e = Ok () (touched (sent n (text_bytes fmt) s)) e"
  using printf_run [OF assms(1) _ printf_plain [OF assms(3)] assms(4)] assms(2) by blast

lemma frozen_uart: "panicked s \<Longrightarrow> uartputc_sync c s e = Diverges"
proof -
  assume p: "panicked s"
  have "whileM (\<lambda>_ _. True) (\<lambda>_. ret ()) () t e = Diverges" for t :: "'a umach_scheme" and e
    by (rule whileM_forever [where I = "\<lambda>_ _ _. True"]) simp_all
  then have "seq (whileM (\<lambda>_ _. True) (\<lambda>_. ret ()) ()) k t e = Diverges"
    for k :: "('a umach_scheme, unit) kern" and t e by (simp add: seq_run)
  then show ?thesis using p by (simp add: uartputc_sync_def push_off_run del: ret_run)
qed


section \<open>An example state\<close>

text \<open>Process 0 runs with the table of the last example; two bytes of a line are in the console's buffer.\<close>

definition cboot :: cmach where
  "cboot = umach.extend (uboot\<lparr>mem := ue_mem, procs := (\<lambda>_. zero_proc\<lparr>pagetable := 0x80021000\<rparr>)\<rparr>)
     (cmach.fields \<lparr>cons_buf = (\<lambda>_. 0)(0 := 104, 1 := 105, 2 := 10), cons_r = 0, cons_w = 3, cons_e = 3\<rparr> True
       (\<lambda>_. \<lparr>dev_read = None, dev_write = None\<rparr>) (\<lambda>_. 0))"

lemma cboot_simps:
  "running 0 cboot" "lock_free lk cboot" "console_ready cboot" "proc_locks_free cboot"
  "pagetable (procs cboot 0) = 0x80021000" "mem cboot = ue_mem" "uart_sent (uart cboot) = []"
  "committed (cons cboot) = [104, 105, 10]" "pending (cons cboot) = []" "cons_inv (cons cboot)"
  by (simp_all add: cboot_def uboot_def boot_defs umach.defs cmach.defs running_def cpu_ok_def lock_free_def proc_locks_free_def
      mycpu_def cpuid_def NPROC_def console_ready_def uart_live_def intr_get_def committed_def pending_def cons_inv_def
      ring_def INPUT_BUF_SIZE_def upt_rec) auto

lemma cboot_maps:
  "maps cboot 0x80021000 {0x80021000, 0x80022000, 0x80023000} [] (pte ue_mem 2 0x80021000)"
proof -
  have "kend cboot = kend user_example" "freelist cboot = freelist user_example" "mem cboot = mem user_example"
    by (simp_all add: cboot_def uboot_def boot_defs umach.defs cmach.defs user_example_def)
  then show ?thesis
    using ue_maps cboot_simps(1,2) unfolding maps_def vm_ok_def free_pages_def running_def by simp
qed

theorem consoleread_delivers_witness:
  "\<exists>q m. consoleread (User 0x1003) 20 cboot [] = Ok 3 (touched (cboot\<lparr>cons := q, mem := m\<rparr>)) [] \<and>
     committed q = [] \<and> user_bytes m (pte ue_mem 2 0x80021000) 0x1003 3 = [104, 105, 10]"
proof -
  have rl: "read_line (nat 20) False (committed (cons cboot)) = Some ([104, 105, 10], [])"
  proof -
    have "read_line 20 False [104, 105, 10] = Some ([104, 105, 10], [])" by code_simp
    then show ?thesis by (simp add: cboot_simps)
  qed
  have len: "length [104, 105, 10 :: uchar] = 3" by simp
  show ?thesis
    using consoleread_delivers [of 0 cboot "{0x80021000, 0x80022000, 0x80023000}" "[]" "pte ue_mem 2 0x80021000" 20,
      OF _ _ _ rl, unfolded len, of "0x1003" "[]"] cboot_simps cboot_maps ue_range
    by auto
qed

theorem consoleintr_edits_witness:
  "\<exists>n q. consoleintr 97 cboot [] = Ok () (touched (sent n [97] (cboot\<lparr>cons := q\<rparr>))) [] \<and>
     committed q = [104, 105, 10] \<and> pending q = [97]"
proof -
  have "line_edit 97 ([104, 105, 10], []) = ([104, 105, 10], [97])" "line_echo 97 (procs cboot) ([104, 105, 10], []) = [97]"
    by (simp_all add: line_edit_def line_echo_def INPUT_BUF_SIZE_def)
  then show ?thesis
    using consoleintr_edits [of cboot 97 "[]"] by (auto simp: cboot_simps) blast
qed


end
