(* ===== verification/Runs.thy ===== *)
theory Runs
  imports Prelude
begin

text \<open>
  Runs in which the rest of the machine always does the same thing.  A process that
  waits for the disk gives up the hart once per request, and each time the interference
  \<open>f\<close> is what the device, the interrupt handler and the scheduler do until it continues.
  With \<open>k\<close> turns of \<open>f\<close> the run either ends or is left waiting after exactly \<open>k\<close> requests:
  the state it is then in is the state in which a crash would find the machine.
\<close>

text \<open>
  \<open>disk_run f n m s C Q\<close>: \<open>m\<close> never panics or diverges; given at least \<open>n\<close> turns it returns,
  with \<open>Q\<close> for its value and state; given fewer it may be waiting, in a state with \<open>C\<close>.
\<close>

definition disk_run ::
  "('s \<Rightarrow> 's) \<Rightarrow> nat \<Rightarrow> ('s, 'a) kern \<Rightarrow> 's \<Rightarrow> ('s \<Rightarrow> bool) \<Rightarrow> ('a \<Rightarrow> 's \<Rightarrow> bool) \<Rightarrow> bool" where
  "disk_run f n m s C Q \<longleftrightarrow> (\<forall>k. case m s (replicate k f) of
       Ok x t e \<Rightarrow> (\<exists>j. e = replicate j f \<and> j \<le> k \<and> k \<le> j + n \<and> Q x t)
     | Blocked t \<Rightarrow> k < n \<and> C t
     | _ \<Rightarrow> False)"

lemma disk_runI:
  assumes "\<And>k. (\<exists>x t j. m s (replicate k f) = Ok x t (replicate j f) \<and> j \<le> k \<and> k \<le> j + n \<and> Q x t) \<or>
    (\<exists>t. m s (replicate k f) = Blocked t \<and> k < n \<and> C t)"
  shows "disk_run f n m s C Q"
  unfolding disk_run_def
proof
  fix k
  from assms [of k] show "case m s (replicate k f) of
       Ok x t e \<Rightarrow> (\<exists>j. e = replicate j f \<and> j \<le> k \<and> k \<le> j + n \<and> Q x t)
     | Blocked t \<Rightarrow> k < n \<and> C t
     | _ \<Rightarrow> False"
    by auto
qed

lemma disk_runE:
  assumes "disk_run f n m s C Q"
  obtains (returns) x t j where "m s (replicate k f) = Ok x t (replicate j f)" "j \<le> k" "k \<le> j + n" "Q x t"
    | (waits) t where "m s (replicate k f) = Blocked t" "k < n" "C t"
proof (cases "m s (replicate k f)")
  case (Ok x t e)
  with assms that(1) show ?thesis unfolding disk_run_def by (auto dest!: spec [of _ k])
next
  case (Blocked t)
  with assms that(2) show ?thesis unfolding disk_run_def by (auto dest!: spec [of _ k])
qed (use assms in \<open>auto simp: disk_run_def dest!: spec [of _ k]\<close>)

lemma disk_run_mono:
  assumes "disk_run f n m s C Q" "n \<le> n'" "\<And>t. C t \<Longrightarrow> C' t" "\<And>x t. Q x t \<Longrightarrow> Q' x t"
  shows "disk_run f n' m s C' Q'"
proof (rule disk_runI)
  fix k
  show "(\<exists>x t j. m s (replicate k f) = Ok x t (replicate j f) \<and> j \<le> k \<and> k \<le> j + n' \<and> Q' x t) \<or>
    (\<exists>t. m s (replicate k f) = Blocked t \<and> k < n' \<and> C' t)"
    by (rule disk_runE [OF assms(1), of k]) (use assms(2-4) in auto)
qed

lemma disk_run_conseq:
  "disk_run f n m s C Q \<Longrightarrow> (\<And>x t. Q x t \<Longrightarrow> Q' x t) \<Longrightarrow> disk_run f n m s C Q'"
  by (erule disk_run_mono) auto

lemma disk_run_weaken: "disk_run f n m s C Q \<Longrightarrow> n \<le> n' \<Longrightarrow> disk_run f n' m s C Q"
  by (erule disk_run_mono) auto

text \<open>A statement that does not wait.\<close>

lemma disk_run_det: "(\<And>e. m s e = Ok x t e) \<Longrightarrow> Q x t \<Longrightarrow> disk_run f n m s C Q"
  by (rule disk_runI) auto

lemma disk_run_ret [simp]: "disk_run f n (ret x) s C Q = Q x s"
  by (auto simp: disk_run_def)

lemma disk_run_Ok [simp]: "disk_run f n (Ok x) s C Q = Q x s"
  by (auto simp: disk_run_def)

lemma disk_run_gets [simp]: "disk_run f n (gets g) s C Q = Q (g s) s"
  by (auto simp: disk_run_def)

lemma disk_run_modify [simp]: "disk_run f n (modify g) s C Q = Q () (g s)"
  by (auto simp: disk_run_def)

lemma disk_run_bind:
  assumes "disk_run f n m s C (\<lambda>x t. disk_run f n' (h x) t C Q)"
  shows "disk_run f (n + n') (bind m h) s C Q"
proof (rule disk_runI)
  fix k
  let ?goal = "(\<exists>x t j. bind m h s (replicate k f) = Ok x t (replicate j f) \<and> j \<le> k \<and> k \<le> j + (n + n') \<and> Q x t) \<or>
    (\<exists>t. bind m h s (replicate k f) = Blocked t \<and> k < n + n' \<and> C t)"
  show ?goal
  proof (rule disk_runE [OF assms, of k])
    fix x t j
    assume run: "m s (replicate k f) = Ok x t (replicate j f)" "j \<le> k" "k \<le> j + n"
      and cont: "disk_run f n' (h x) t C Q"
    show ?goal
      by (rule disk_runE [OF cont, of j]) (use run in auto)
  qed auto
qed

lemma disk_run_bind_eq:
  "(\<And>e. m s e = Ok x t e) \<Longrightarrow> disk_run f n (h x) t C Q \<Longrightarrow> disk_run f n (bind m h) s C Q"
  using disk_run_bind [of f 0 m s C n h Q, OF disk_run_det] by auto

lemma disk_run_seq:
  "disk_run f n m s C (\<lambda>_ t. disk_run f n' h t C Q) \<Longrightarrow> disk_run f (n + n') (seq m h) s C Q"
  unfolding seq_def by (rule disk_run_bind)

lemma disk_run_seq_eq:
  "(\<And>e. m s e = Ok () t e) \<Longrightarrow> disk_run f n h t C Q \<Longrightarrow> disk_run f n (seq m h) s C Q"
  unfolding seq_def by (rule disk_run_bind_eq)

lemma disk_run_bind_gets [simp]: "disk_run f n (bind (gets g) h) s C Q = disk_run f n (h (g s)) s C Q"
  by (simp add: disk_run_def)

lemma disk_run_seq_modify [simp]: "disk_run f n (seq (modify g) h) s C Q = disk_run f n h (g s) C Q"
  by (simp add: disk_run_def)

text \<open>Loops.\<close>

lemma disk_run_for_each:
  assumes step: "\<And>i s. i < length xs \<Longrightarrow> I i s \<Longrightarrow> disk_run f n (g (xs ! i)) s C (\<lambda>_ t. I (Suc i) t)"
    and "I 0 s"
  shows "disk_run f (length xs * n) (for_each xs g) s C (\<lambda>_ t. I (length xs) t)"
  using assms
proof (induction xs arbitrary: I s)
  case Nil
  then show ?case by simp
next
  case (Cons x xs)
  have first: "disk_run f n (g x) s C (\<lambda>_ t. I (Suc 0) t)" using Cons.prems(1) [of 0 s] Cons.prems(2) by simp
  have "disk_run f (length xs * n) (for_each xs g) t C (\<lambda>_ u. I (Suc (length xs)) u)" if "I (Suc 0) t" for t
  proof (rule Cons.IH [where I = "\<lambda>i. I (Suc i)"])
    fix i u assume "i < length xs" "I (Suc i) u"
    then show "disk_run f n (g (xs ! i)) u C (\<lambda>_. I (Suc (Suc i)))" using Cons.prems(1) [of "Suc i" u] by simp
  qed (rule that)
  then have "disk_run f (n + length xs * n) (seq (g x) (for_each xs g)) s C (\<lambda>_ u. I (Suc (length xs)) u)"
    by (intro disk_run_seq disk_run_conseq [OF first])
  then show ?case by simp
qed

lemma disk_run_while_stop: "\<not> b x s \<Longrightarrow> Q x s \<Longrightarrow> disk_run f n (whileM b c x) s C Q"
  by (rule disk_run_det [of _ _ x s]) (simp_all add: whileM_stop)

lemma disk_run_while_step:
  assumes "b x s" "disk_run f n (c x) s C (\<lambda>y t. disk_run f n' (whileM b c y) t C Q)"
  shows "disk_run f (n + n') (whileM b c x) s C Q"
proof -
  have "disk_run f (n + n') (bind (c x) (whileM b c)) s C Q" using assms(2) by (rule disk_run_bind)
  then show ?thesis unfolding disk_run_def by (subst whileM_unfold) (simp add: assms(1))
qed

text \<open>A loop that makes at most \<open>m x s\<close> turns of at most \<open>n\<close> requests.\<close>

lemma disk_run_while:
  fixes m :: "'x \<Rightarrow> 's \<Rightarrow> nat"
  assumes "I x s"
    and step: "\<And>x s. I x s \<Longrightarrow> b x s \<Longrightarrow> disk_run f n (c x) s C (\<lambda>y t. I y t \<and> m y t < m x s)"
    and final: "\<And>x s. I x s \<Longrightarrow> \<not> b x s \<Longrightarrow> Q x s"
  shows "disk_run f (m x s * n) (whileM b c x) s C Q"
  using assms(1)
proof (induction "m x s" arbitrary: x s rule: less_induct)
  case less
  show ?case
  proof (cases "b x s")
    case False
    with less.prems final show ?thesis by (intro disk_run_while_stop) auto
  next
    case True
    have "disk_run f n (c x) s C (\<lambda>y t. disk_run f ((m x s - 1) * n) (whileM b c y) t C Q)"
    proof (rule disk_run_conseq [OF step [OF less.prems True]], elim conjE)
      fix y t assume "I y t" and lt: "m y t < m x s"
      then have "m y t * n \<le> (m x s - 1) * n" by (intro mult_right_mono) auto
      with less.hyps [OF lt \<open>I y t\<close>] show "disk_run f ((m x s - 1) * n) (whileM b c y) t C Q"
        by (rule disk_run_weaken)
    qed
    from disk_run_while_step [of b, OF True this]
    have "disk_run f (n + (m x s - 1) * n) (whileM b c x) s C Q" .
    moreover have "n + (m x s - 1) * n \<le> m x s * n \<or> m x s = 0" by (cases "m x s") simp_all
    moreover have "m x s \<noteq> 0"
    proof -
      show ?thesis
        by (rule disk_runE [OF step [OF less.prems True], of n]) auto
    qed
    ultimately show ?thesis by (metis disk_run_weaken)
  qed
qed

text \<open>A loop over a table that is left at entry \<open>i\<close>.\<close>

lemma disk_run_for_ret:
  assumes "i < length xs" "\<And>j s. j < i \<Longrightarrow> I s \<Longrightarrow> disk_run f n (g (xs ! j)) s C (\<lambda>r t. r = None \<and> I t)"
    and "\<And>s. I s \<Longrightarrow> disk_run f n' (g (xs ! i)) s C (\<lambda>r t. r \<noteq> None \<and> Q r t)" "I s"
  shows "disk_run f (i * n + n') (for_ret xs g) s C Q"
  using assms
proof (induction xs arbitrary: i s)
  case (Cons x xs)
  show ?case
  proof (cases i)
    case 0
    have "disk_run f n' (g x) s C (\<lambda>r t. r \<noteq> None \<and> Q r t)" using Cons.prems(3) [OF Cons.prems(4)] 0 by simp
    then have "disk_run f n' (g x) s C (\<lambda>r t. disk_run f 0 (case r of None \<Rightarrow> for_ret xs g | Some y \<Rightarrow> ret (Some y)) t C Q)"
      by (rule disk_run_conseq) auto
    from disk_run_bind [OF this] show ?thesis using 0 by simp
  next
    case (Suc k)
    have "disk_run f n (g x) s C (\<lambda>r t. r = None \<and> I t)" using Cons.prems(2) [of 0 s] Cons.prems(4) Suc by simp
    moreover have "disk_run f (k * n + n') (for_ret xs g) t C Q" if "I t" for t
      using Cons.prems(1) Suc that by (intro Cons.IH [of k t]) (use Cons.prems(2) [of "Suc _"] Cons.prems(3) in auto)
    ultimately have "disk_run f n (g x) s C
        (\<lambda>r t. disk_run f (k * n + n') (case r of None \<Rightarrow> for_ret xs g | Some y \<Rightarrow> ret (Some y)) t C Q)"
      by (elim disk_run_conseq) auto
    from disk_run_bind [OF this] show ?thesis using Suc by (simp add: add_ac)
  qed
qed simp

text \<open>What a run with enough turns gives.\<close>

lemma disk_run_returns:
  assumes "disk_run f n m s C Q" "n \<le> k"
  shows "\<exists>x t j. m s (replicate k f) = Ok x t (replicate j f) \<and> j \<le> k \<and> Q x t"
  by (rule disk_runE [OF assms(1), of k]) (use assms(2) in auto)

end
