(* ===== verification/Virtio.thy ===== *)
theory Virtio
  imports Console Runs
begin

text \<open>
  The disk driver \<^verbatim>\<open>kernel/virtio_disk.c\<close> with the structures of \<^verbatim>\<open>kernel/virtio.h\<close>
  and \<^verbatim>\<open>struct buf\<close> of \<^verbatim>\<open>kernel/buf.h\<close>.  The rings are typed objects, and the physical
  addresses the driver puts into a descriptor are names of the object they point to.
  The device itself is not part of the program: what it does with a request is a
  parameter of the second half.
\<close>

section \<open>Structures\<close>

definition BSIZE :: nat where "BSIZE = 1024"
definition NUM :: nat where "NUM = 8"

definition VRING_DESC_F_NEXT :: ushort where "VRING_DESC_F_NEXT = 1"
definition VRING_DESC_F_WRITE :: ushort where "VRING_DESC_F_WRITE = 2"
definition VIRTIO_BLK_T_IN :: uint where "VIRTIO_BLK_T_IN = 0"
definition VIRTIO_BLK_T_OUT :: uint where "VIRTIO_BLK_T_OUT = 1"

datatype dma = Dma_null | Dma_op nat | Dma_data nat | Dma_status nat

record virtq_desc =
  d_addr :: dma
  d_len :: uint
  d_flags :: ushort
  d_next :: ushort

record virtq_avail =
  av_idx :: ushort
  av_ring :: "nat \<Rightarrow> ushort"

record virtq_used =
  us_idx :: ushort
  us_ring :: "nat \<Rightarrow> uint"

record virtio_blk_req =
  req_type :: uint
  req_reserved :: uint
  req_sector :: uint64

record disk =
  desc_page :: uint64
  avail_page :: uint64
  used_page :: uint64
  desc :: "nat \<Rightarrow> virtq_desc"
  avail :: virtq_avail
  used :: virtq_used
  dfree :: "nat \<Rightarrow> bool"
  used_idx :: ushort
  info_b :: "nat \<Rightarrow> nat option"
  info_status :: "nat \<Rightarrow> uchar"
  ops :: "nat \<Rightarrow> virtio_blk_req"

text \<open>
  \<open>b_prev\<close> and \<open>b_next\<close> are indices of \<open>bufs\<close>; the list head \<^verbatim>\<open>bcache.head\<close> is the entry
  behind the \<^verbatim>\<open>NBUF\<close> buffers.
\<close>

record buf =
  b_valid :: bool
  b_disk :: bool
  b_dev :: uint
  b_blockno :: uint
  b_refcnt :: uint
  b_prev :: nat
  b_next :: nat
  b_data :: "uchar list"

text \<open>
  The registers of the device: what it answers to a read, given the writes so
  far.  \<open>sectors\<close> is the contents of the disk, 512 bytes each.
\<close>

record mmio =
  vregs :: "(nat \<times> uint) list \<Rightarrow> nat \<Rightarrow> uint"
  vwrites :: "(nat \<times> uint) list"

record bmach = cmach +
  vmmio :: mmio
  vdisk :: disk
  bufs :: "nat \<Rightarrow> buf"
  sectors :: "nat \<Rightarrow> uchar list"

section \<open>Registers\<close>

definition VIRTIO_MMIO_MAGIC_VALUE :: nat where "VIRTIO_MMIO_MAGIC_VALUE = 0x000"
definition VIRTIO_MMIO_VERSION :: nat where "VIRTIO_MMIO_VERSION = 0x004"
definition VIRTIO_MMIO_DEVICE_ID :: nat where "VIRTIO_MMIO_DEVICE_ID = 0x008"
definition VIRTIO_MMIO_VENDOR_ID :: nat where "VIRTIO_MMIO_VENDOR_ID = 0x00c"
definition VIRTIO_MMIO_DEVICE_FEATURES :: nat where "VIRTIO_MMIO_DEVICE_FEATURES = 0x010"
definition VIRTIO_MMIO_DRIVER_FEATURES :: nat where "VIRTIO_MMIO_DRIVER_FEATURES = 0x020"
definition VIRTIO_MMIO_QUEUE_SEL :: nat where "VIRTIO_MMIO_QUEUE_SEL = 0x030"
definition VIRTIO_MMIO_QUEUE_NUM_MAX :: nat where "VIRTIO_MMIO_QUEUE_NUM_MAX = 0x034"
definition VIRTIO_MMIO_QUEUE_NUM :: nat where "VIRTIO_MMIO_QUEUE_NUM = 0x038"
definition VIRTIO_MMIO_QUEUE_READY :: nat where "VIRTIO_MMIO_QUEUE_READY = 0x044"
definition VIRTIO_MMIO_QUEUE_NOTIFY :: nat where "VIRTIO_MMIO_QUEUE_NOTIFY = 0x050"
definition VIRTIO_MMIO_INTERRUPT_STATUS :: nat where "VIRTIO_MMIO_INTERRUPT_STATUS = 0x060"
definition VIRTIO_MMIO_INTERRUPT_ACK :: nat where "VIRTIO_MMIO_INTERRUPT_ACK = 0x064"
definition VIRTIO_MMIO_STATUS :: nat where "VIRTIO_MMIO_STATUS = 0x070"
definition VIRTIO_MMIO_QUEUE_DESC_LOW :: nat where "VIRTIO_MMIO_QUEUE_DESC_LOW = 0x080"
definition VIRTIO_MMIO_QUEUE_DESC_HIGH :: nat where "VIRTIO_MMIO_QUEUE_DESC_HIGH = 0x084"
definition VIRTIO_MMIO_DRIVER_DESC_LOW :: nat where "VIRTIO_MMIO_DRIVER_DESC_LOW = 0x090"
definition VIRTIO_MMIO_DRIVER_DESC_HIGH :: nat where "VIRTIO_MMIO_DRIVER_DESC_HIGH = 0x094"
definition VIRTIO_MMIO_DEVICE_DESC_LOW :: nat where "VIRTIO_MMIO_DEVICE_DESC_LOW = 0x0a0"
definition VIRTIO_MMIO_DEVICE_DESC_HIGH :: nat where "VIRTIO_MMIO_DEVICE_DESC_HIGH = 0x0a4"

definition VIRTIO_CONFIG_S_ACKNOWLEDGE :: uint where "VIRTIO_CONFIG_S_ACKNOWLEDGE = 1"
definition VIRTIO_CONFIG_S_DRIVER :: uint where "VIRTIO_CONFIG_S_DRIVER = 2"
definition VIRTIO_CONFIG_S_DRIVER_OK :: uint where "VIRTIO_CONFIG_S_DRIVER_OK = 4"
definition VIRTIO_CONFIG_S_FEATURES_OK :: uint where "VIRTIO_CONFIG_S_FEATURES_OK = 8"

definition VIRTIO_BLK_F_RO :: nat where "VIRTIO_BLK_F_RO = 5"
definition VIRTIO_BLK_F_SCSI :: nat where "VIRTIO_BLK_F_SCSI = 7"
definition VIRTIO_BLK_F_CONFIG_WCE :: nat where "VIRTIO_BLK_F_CONFIG_WCE = 11"
definition VIRTIO_BLK_F_MQ :: nat where "VIRTIO_BLK_F_MQ = 12"
definition VIRTIO_F_ANY_LAYOUT :: nat where "VIRTIO_F_ANY_LAYOUT = 27"
definition VIRTIO_RING_F_INDIRECT_DESC :: nat where "VIRTIO_RING_F_INDIRECT_DESC = 28"
definition VIRTIO_RING_F_EVENT_IDX :: nat where "VIRTIO_RING_F_EVENT_IDX = 29"

definition vread :: "nat \<Rightarrow> ('m bmach_scheme, uint) kern" where
  "vread r = gets (\<lambda>s. vregs (vmmio s) (vwrites (vmmio s)) r)"

definition vwrite :: "nat \<Rightarrow> uint \<Rightarrow> ('m bmach_scheme, unit) kern" where
  "vwrite r v = modify (\<lambda>s. s\<lparr>vmmio := (vmmio s)\<lparr>vwrites := vwrites (vmmio s) @ [(r, v)]\<rparr>\<rparr>)"

section \<open>Initialisation\<close>

definition zero_desc :: virtq_desc where
  "zero_desc = \<lparr>d_addr = Dma_null, d_len = 0, d_flags = 0, d_next = 0\<rparr>"

definition virtio_features :: "uint \<Rightarrow> uint" where
  "virtio_features features =
     features AND NOT (push_bit VIRTIO_BLK_F_RO 1) AND NOT (push_bit VIRTIO_BLK_F_SCSI 1)
       AND NOT (push_bit VIRTIO_BLK_F_CONFIG_WCE 1) AND NOT (push_bit VIRTIO_BLK_F_MQ 1)
       AND NOT (push_bit VIRTIO_F_ANY_LAYOUT 1) AND NOT (push_bit VIRTIO_RING_F_EVENT_IDX 1)
       AND NOT (push_bit VIRTIO_RING_F_INDIRECT_DESC 1)"

definition virtio_disk_init :: "('m bmach_scheme, unit) kern" where
  "virtio_disk_init =
     seq (initlock L_vdisk ''virtio_disk'') (
     bind (vread VIRTIO_MMIO_MAGIC_VALUE) (\<lambda>magic.
     bind (vread VIRTIO_MMIO_VERSION) (\<lambda>version.
     bind (vread VIRTIO_MMIO_DEVICE_ID) (\<lambda>device.
     bind (vread VIRTIO_MMIO_VENDOR_ID) (\<lambda>vendor.
     if magic \<noteq> 0x74726976 \<or> version \<noteq> 2 \<or> device \<noteq> 2 \<or> vendor \<noteq> 0x554d4551
     then panic ''could not find virtio disk'' else
     seq (vwrite VIRTIO_MMIO_STATUS 0) (
     let status = VIRTIO_CONFIG_S_ACKNOWLEDGE in
     seq (vwrite VIRTIO_MMIO_STATUS status) (
     let status = status OR VIRTIO_CONFIG_S_DRIVER in
     seq (vwrite VIRTIO_MMIO_STATUS status) (
     bind (vread VIRTIO_MMIO_DEVICE_FEATURES) (\<lambda>features.
     seq (vwrite VIRTIO_MMIO_DRIVER_FEATURES (virtio_features features)) (
     let status = status OR VIRTIO_CONFIG_S_FEATURES_OK in
     seq (vwrite VIRTIO_MMIO_STATUS status) (
     bind (vread VIRTIO_MMIO_STATUS) (\<lambda>status.
     if status AND VIRTIO_CONFIG_S_FEATURES_OK = 0 then panic ''virtio disk FEATURES_OK unset'' else
     seq (vwrite VIRTIO_MMIO_QUEUE_SEL 0) (
     bind (vread VIRTIO_MMIO_QUEUE_READY) (\<lambda>ready.
     if ready \<noteq> 0 then panic ''virtio disk should not be ready'' else
     bind (vread VIRTIO_MMIO_QUEUE_NUM_MAX) (\<lambda>most.
     if most = 0 then panic ''virtio disk has no queue 0'' else
     if most < of_nat NUM then panic ''virtio disk max queue too short'' else
     bind kalloc (\<lambda>d.
     bind kalloc (\<lambda>a.
     bind kalloc (\<lambda>u.
     seq (modify (\<lambda>s. s\<lparr>vdisk := (vdisk s)\<lparr>desc_page := d, avail_page := a, used_page := u\<rparr>\<rparr>)) (
     if d = 0 \<or> a = 0 \<or> u = 0 then panic ''virtio disk kalloc'' else
     seq (fill d 0) (
     seq (fill a 0) (
     seq (fill u 0) (
     seq (modify (\<lambda>s. s\<lparr>vdisk := (vdisk s)\<lparr>desc := (\<lambda>_. zero_desc),
         avail := \<lparr>av_idx = 0, av_ring = (\<lambda>_. 0)\<rparr>, used := \<lparr>us_idx = 0, us_ring = (\<lambda>_. 0)\<rparr>\<rparr>\<rparr>)) (
     seq (vwrite VIRTIO_MMIO_QUEUE_NUM (of_nat NUM)) (
     seq (vwrite VIRTIO_MMIO_QUEUE_DESC_LOW (ucast d)) (
     seq (vwrite VIRTIO_MMIO_QUEUE_DESC_HIGH (ucast (drop_bit 32 d))) (
     seq (vwrite VIRTIO_MMIO_DRIVER_DESC_LOW (ucast a)) (
     seq (vwrite VIRTIO_MMIO_DRIVER_DESC_HIGH (ucast (drop_bit 32 a))) (
     seq (vwrite VIRTIO_MMIO_DEVICE_DESC_LOW (ucast u)) (
     seq (vwrite VIRTIO_MMIO_DEVICE_DESC_HIGH (ucast (drop_bit 32 u))) (
     seq (vwrite VIRTIO_MMIO_QUEUE_READY 1) (
     seq (for_each [0..<NUM] (\<lambda>i. modify (\<lambda>s. s\<lparr>vdisk := (vdisk s)\<lparr>dfree := (dfree (vdisk s))(i := True)\<rparr>\<rparr>))) (
     vwrite VIRTIO_MMIO_STATUS (status OR VIRTIO_CONFIG_S_DRIVER_OK)))))))))))))))))))))))))))))))))"

section \<open>Descriptors\<close>

definition alloc_desc :: "('m bmach_scheme, nat option) kern" where
  "alloc_desc = for_ret [0..<NUM] (\<lambda>i.
     bind (gets (\<lambda>s. dfree (vdisk s) i)) (\<lambda>fr.
     if fr then seq (modify (\<lambda>s. s\<lparr>vdisk := (vdisk s)\<lparr>dfree := (dfree (vdisk s))(i := False)\<rparr>\<rparr>)) (ret (Some i))
     else ret None))"

definition free_desc :: "nat \<Rightarrow> ('m bmach_scheme, unit) kern" where
  "free_desc i =
     (if i \<ge> NUM then panic ''free_desc 1'' else
     bind (gets (\<lambda>s. dfree (vdisk s) i)) (\<lambda>fr.
     if fr then panic ''free_desc 2'' else
     seq (modify (\<lambda>s. s\<lparr>vdisk := (vdisk s)\<lparr>desc := (desc (vdisk s))(i := zero_desc),
       dfree := (dfree (vdisk s))(i := True)\<rparr>\<rparr>)) (
     wakeup Ch_disk_free)))"

definition free_chain :: "nat \<Rightarrow> ('m bmach_scheme, unit) kern" where
  "free_chain i =
     bind (whileM (\<lambda>(i, stop) _. \<not> stop)
       (\<lambda>(i, stop).
          bind (gets (\<lambda>s. desc (vdisk s) i)) (\<lambda>d.
          seq (free_desc i) (
          if d_flags d AND VRING_DESC_F_NEXT \<noteq> 0 then ret (unat (d_next d), False) else ret (i, True))))
       (i, False)) (\<lambda>_. ret ())"

primrec alloc_descs :: "nat \<Rightarrow> nat list \<Rightarrow> ('m bmach_scheme, nat list option) kern" where
  "alloc_descs 0 idx = ret (Some idx)"
| "alloc_descs (Suc n) idx =
     bind alloc_desc (\<lambda>r.
     case r of
       None \<Rightarrow> seq (for_each idx free_desc) (ret None)
     | Some i \<Rightarrow> alloc_descs n (idx @ [i]))"

definition alloc3_desc :: "('m bmach_scheme, nat list option) kern" where
  "alloc3_desc = alloc_descs 3 []"

section \<open>Requests\<close>

definition rw_format :: "nat \<Rightarrow> uint \<Rightarrow> bool \<Rightarrow> nat \<Rightarrow> nat \<Rightarrow> nat \<Rightarrow> disk \<Rightarrow> disk" where
  "rw_format b blockno wr i0 i1 i2 d = d\<lparr>
     ops := (ops d)(i0 := \<lparr>req_type = (if wr then VIRTIO_BLK_T_OUT else VIRTIO_BLK_T_IN), req_reserved = 0,
       req_sector = ucast (blockno * of_nat (BSIZE div 512))\<rparr>),
     desc := (desc d)(
       i0 := \<lparr>d_addr = Dma_op i0, d_len = 16, d_flags = VRING_DESC_F_NEXT, d_next = of_nat i1\<rparr>,
       i1 := \<lparr>d_addr = Dma_data b, d_len = of_nat BSIZE,
         d_flags = (if wr then 0 else VRING_DESC_F_WRITE) OR VRING_DESC_F_NEXT, d_next = of_nat i2\<rparr>,
       i2 := \<lparr>d_addr = Dma_status i0, d_len = 1, d_flags = VRING_DESC_F_WRITE, d_next = 0\<rparr>),
     info_status := (info_status d)(i0 := 0xff),
     info_b := (info_b d)(i0 := Some b),
     avail := \<lparr>av_idx = av_idx (avail d) + 1, av_ring = (av_ring (avail d))(unat (av_idx (avail d)) mod NUM := of_nat i0)\<rparr>\<rparr>"

definition set_buf :: "nat \<Rightarrow> (buf \<Rightarrow> buf) \<Rightarrow> 'm bmach_scheme \<Rightarrow> 'm bmach_scheme" where
  "set_buf b f s = s\<lparr>bufs := (bufs s)(b := f (bufs s b))\<rparr>"

definition virtio_disk_rw :: "nat \<Rightarrow> bool \<Rightarrow> ('m bmach_scheme, unit) kern" where
  "virtio_disk_rw b wr =
     bind (gets (\<lambda>s. b_blockno (bufs s b))) (\<lambda>blockno.
     seq (acquire L_vdisk) (
     bind (whileM (\<lambda>r _. r = None)
       (\<lambda>_. bind alloc3_desc (\<lambda>r.
          case r of Some idx \<Rightarrow> ret (Some idx)
          | None \<Rightarrow> seq (sleep Ch_disk_free L_vdisk) (ret None))) None) (\<lambda>r.
     case r of None \<Rightarrow> panic ''unreachable'' | Some idx \<Rightarrow>
     seq (modify (\<lambda>s. s\<lparr>vdisk := rw_format b blockno wr (idx ! 0) (idx ! 1) (idx ! 2) (vdisk s)\<rparr>)) (
     seq (modify (set_buf b (\<lambda>q. q\<lparr>b_disk := True\<rparr>))) (
     seq (vwrite VIRTIO_MMIO_QUEUE_NOTIFY 0) (
     seq (whileM (\<lambda>_ s. b_disk (bufs s b)) (\<lambda>_. sleep (Ch_buf b) L_vdisk) ()) (
     seq (modify (\<lambda>s. s\<lparr>vdisk := (vdisk s)\<lparr>info_b := (info_b (vdisk s))(idx ! 0 := None)\<rparr>\<rparr>)) (
     seq (free_chain (idx ! 0)) (
     release L_vdisk)))))))))"

definition virtio_disk_intr :: "('m bmach_scheme, unit) kern" where
  "virtio_disk_intr =
     seq (acquire L_vdisk) (
     bind (vread VIRTIO_MMIO_INTERRUPT_STATUS) (\<lambda>st.
     seq (vwrite VIRTIO_MMIO_INTERRUPT_ACK (st AND 0x3)) (
     seq (whileM (\<lambda>_ s. used_idx (vdisk s) \<noteq> us_idx (used (vdisk s)))
       (\<lambda>_.
          bind (gets vdisk) (\<lambda>d.
          let i = unat (us_ring (used d) (unat (used_idx d) mod NUM)) in
          if info_status d i \<noteq> 0 then panic ''virtio_disk_intr status'' else
          case info_b d i of
            None \<Rightarrow> panic ''null pointer''
          | Some b \<Rightarrow>
              seq (modify (set_buf b (\<lambda>q. q\<lparr>b_disk := False\<rparr>))) (
              seq (wakeup (Ch_buf b)) (
              modify (\<lambda>s. s\<lparr>vdisk := (vdisk s)\<lparr>used_idx := used_idx (vdisk s) + 1\<rparr>\<rparr>))))) ()) (
     release L_vdisk))))"

text \<open>The lock operations and the new fields do not interfere.\<close>

lemma bmach_sel [simp]:
  "vmmio (acquired lk s) = vmmio s"
  "vmmio (touched s) = vmmio s"
  "vmmio (set_proc p g s) = vmmio s"
  "vmmio (set_sleeplock l h s) = vmmio s"
  "vdisk (acquired lk s) = vdisk s"
  "vdisk (touched s) = vdisk s"
  "vdisk (set_proc p g s) = vdisk s"
  "vdisk (set_sleeplock l h s) = vdisk s"
  "bufs (acquired lk s) = bufs s"
  "bufs (touched s) = bufs s"
  "bufs (set_proc p g s) = bufs s"
  "bufs (set_sleeplock l h s) = bufs s"
  "sectors (acquired lk s) = sectors s"
  "sectors (touched s) = sectors s"
  "sectors (set_proc p g s) = sectors s"
  "sectors (set_sleeplock l h s) = sectors s"
  by (simp_all add: acquired_def pushed_def touched_def mach_upd_defs)

lemma bmach_upd [simp]:
  "vmmio_update uvmmio (acquired lk s) = acquired lk (vmmio_update uvmmio s)"
  "vmmio_update uvmmio (touched s) = touched (vmmio_update uvmmio s)"
  "vdisk_update uvdisk (acquired lk s) = acquired lk (vdisk_update uvdisk s)"
  "vdisk_update uvdisk (touched s) = touched (vdisk_update uvdisk s)"
  "bufs_update ubufs (acquired lk s) = acquired lk (bufs_update ubufs s)"
  "bufs_update ubufs (touched s) = touched (bufs_update ubufs s)"
  "sectors_update usectors (acquired lk s) = acquired lk (sectors_update usectors s)"
  "sectors_update usectors (touched s) = touched (sectors_update usectors s)"
  by (simp_all add: acquired_def pushed_def touched_def mach_upd_defs intr_get_def)

lemma bmach_ok [simp]:
  "cpu_ok (vmmio_update uvmmio s) = cpu_ok s"
  "lock_free lk (vmmio_update uvmmio s) = lock_free lk s"
  "mycpu (vmmio_update uvmmio s) = mycpu s"
  "intr_get (vmmio_update uvmmio s) = intr_get s"
  "holding lk (vmmio_update uvmmio s) = holding lk s"
  "proc_locks_free (vmmio_update uvmmio s) = proc_locks_free s"
  "running p (vmmio_update uvmmio s) = running p s"
  "cpu_ok (vdisk_update uvdisk s) = cpu_ok s"
  "lock_free lk (vdisk_update uvdisk s) = lock_free lk s"
  "mycpu (vdisk_update uvdisk s) = mycpu s"
  "intr_get (vdisk_update uvdisk s) = intr_get s"
  "holding lk (vdisk_update uvdisk s) = holding lk s"
  "proc_locks_free (vdisk_update uvdisk s) = proc_locks_free s"
  "running p (vdisk_update uvdisk s) = running p s"
  "cpu_ok (bufs_update ubufs s) = cpu_ok s"
  "lock_free lk (bufs_update ubufs s) = lock_free lk s"
  "mycpu (bufs_update ubufs s) = mycpu s"
  "intr_get (bufs_update ubufs s) = intr_get s"
  "holding lk (bufs_update ubufs s) = holding lk s"
  "proc_locks_free (bufs_update ubufs s) = proc_locks_free s"
  "running p (bufs_update ubufs s) = running p s"
  "cpu_ok (sectors_update usectors s) = cpu_ok s"
  "lock_free lk (sectors_update usectors s) = lock_free lk s"
  "mycpu (sectors_update usectors s) = mycpu s"
  "intr_get (sectors_update usectors s) = intr_get s"
  "holding lk (sectors_update usectors s) = holding lk s"
  "proc_locks_free (sectors_update usectors s) = proc_locks_free s"
  "running p (sectors_update usectors s) = running p s"
  by (simp_all add: cpu_ok_def lock_free_def mach_upd_defs intr_get_def holding_def proc_locks_free_def running_def)


section \<open>One process in the file system\<close>

text \<open>
  \<open>calm p s\<close>: the process \<open>p\<close> runs, no lock is held, and no other process sleeps on a
  channel of the file system.
\<close>

primrec fs_chan :: "chan \<Rightarrow> bool" where
  "fs_chan Ch_null = False"
| "fs_chan (Ch_proc p) = False"
| "fs_chan Ch_ticks = False"
| "fs_chan Ch_log = True"
| "fs_chan (Ch_sleep l) = True"
| "fs_chan (Ch_pipe_nread a) = False"
| "fs_chan (Ch_pipe_nwrite a) = False"
| "fs_chan Ch_cons_r = False"
| "fs_chan Ch_uart_tx_r = False"
| "fs_chan Ch_disk_free = True"
| "fs_chan (Ch_buf b) = True"

definition calm :: "nat \<Rightarrow> 'm mach_scheme \<Rightarrow> bool" where
  "calm p s \<longleftrightarrow> running p s \<and> intena (mycpu s) = intr_get s \<and> (\<forall>lk. lock_free lk s) \<and>
     pstate (procs s p) = RUNNING \<and> chan (procs s p) = Ch_null \<and>
     (\<forall>q. pstate (procs s q) = SLEEPING \<longrightarrow> \<not> fs_chan (chan (procs s q)))"

lemma calmD:
  assumes "calm p s"
  shows "running p s" "cpu_ok s" "lock_free lk s" "cpu_proc (mycpu s) = Some p" "noff (mycpu s) = 0" "proc_locks_free s"
    "p < NPROC" "intena (mycpu s) = intr_get s" "pstate (procs s p) = RUNNING" "chan (procs s p) = Ch_null"
  using assms by (simp_all add: calm_def running_def)

lemma touched_same:
  assumes "noff (mycpu s) = 0" "intena (mycpu s) = intr_get s"
  shows "touched s = s"
  using assms unfolding touched_def
  by (intro mach.equality) (auto simp: mach_upd_defs fun_upd_idem cpu_intena_same)

lemma calm_touched [simp]: "calm p s \<Longrightarrow> touched s = s"
  by (rule touched_same) (simp_all add: calmD)

lemma calm_cong:
  assumes "mach.truncate s = mach.truncate t"
  shows "calm p s = calm p t"
proof -
  have e: "hart s = hart t" "sstatus s = sstatus t" "cpus s = cpus t" "procs s = procs t" "locks s = locks t"
    using assms by (simp_all add: mach.truncate_def)
  then have "mycpu s = mycpu t" "intr_get s = intr_get t" by (simp_all add: mach_upd_defs intr_get_def)
  moreover have "lock_free lk s = lock_free lk t" for lk using e by (simp add: lock_free_def)
  moreover have "cpu_ok s = cpu_ok t" using calculation by (simp add: cpu_ok_def)
  ultimately show ?thesis
    using e by (simp add: calm_def running_def proc_locks_free_def)
qed

lemma calm_upd [simp]:
  "calm p (sleeplocks_update f1 s) = calm p s"
  "calm p (set_sleeplock l f2 s) = calm p s"
  by (simp_all add: calm_def set_sleeplock_def)

lemma calm_upd_ext [simp]:
  "calm p (mem_update f1 s1) = calm p s1"
  "calm p (uart_update f2 s2) = calm p s2"
  "calm p (cons_update f3 s3) = calm p s3"
  "calm p (klocal_update f4 s3) = calm p s3"
  "calm p (vmmio_update f5 s4) = calm p s4"
  "calm p (vdisk_update f6 s4) = calm p s4"
  "calm p (bufs_update f7 s4) = calm p s4"
  "calm p (sectors_update f8 s4) = calm p s4"
  by (rule calm_cong, simp add: mach.truncate_def)+

lemma woken_calm:
  assumes "calm p s" "fs_chan ch"
  shows "woken ch me (procs s) = procs s"
  using assms by (auto simp: woken_def woken_proc_def calm_def fun_eq_iff)

lemma wakeup_calm [simp]:
  assumes "calm p s" "fs_chan ch"
  shows "\<forall>q. lk \<noteq> L_proc q \<Longrightarrow> wakeup ch (acquired lk s) e = Ok () (acquired lk s) e" "wakeup ch s e = Ok () s e"
  using assms calmD [OF assms(1)] by (simp_all add: wakeup_run woken_calm)

section \<open>The device\<close>

text \<open>
  The request at the device's position of the available ring, if it is a chain of three
  descriptors as the driver makes it: the head, the header, the buffer and the
  status byte.
\<close>

definition request :: "disk \<Rightarrow> (nat \<times> nat \<times> nat \<times> nat) option" where
  "request d =
     (if us_idx (used d) = av_idx (avail d) then None else
      let h = unat (av_ring (avail d) (unat (us_idx (used d)) mod NUM));
          d0 = desc d h; d1 = desc d (unat (d_next d0)); d2 = desc d (unat (d_next d1))
      in case (d_addr d0, d_addr d1, d_addr d2) of
           (Dma_op i, Dma_data b, Dma_status j) \<Rightarrow>
             if d_len d1 = of_nat BSIZE \<and> bit (d_flags d0) 0 \<and> bit (d_flags d1) 0 then Some (h, i, b, j) else None
         | _ \<Rightarrow> None)"

text \<open>A block is two sectors.\<close>

definition put_block :: "nat \<Rightarrow> uchar list \<Rightarrow> (nat \<Rightarrow> uchar list) \<Rightarrow> nat \<Rightarrow> uchar list" where
  "put_block n bs sec = sec(n := take 512 bs, n + 1 := drop 512 bs)"

definition get_block :: "nat \<Rightarrow> (nat \<Rightarrow> uchar list) \<Rightarrow> uchar list" where
  "get_block n sec = sec n @ sec (n + 1)"

type_synonym vdevice =
  "disk \<Rightarrow> (nat \<Rightarrow> buf) \<Rightarrow> (nat \<Rightarrow> uchar list) \<Rightarrow> disk \<times> (nat \<Rightarrow> buf) \<times> (nat \<Rightarrow> uchar list)"

definition used_entry :: "nat \<Rightarrow> nat \<Rightarrow> disk \<Rightarrow> disk" where
  "used_entry h j d = d\<lparr>info_status := (info_status d)(j := 0),
     used := \<lparr>us_idx = us_idx (used d) + 1, us_ring = (us_ring (used d))(unat (us_idx (used d)) mod NUM := of_nat h)\<rparr>\<rparr>"

text \<open>
  What the driver relies on: the device transfers the block at the request's sector, into
  the buffer or out of it, writes a zero status byte, and puts the head of the
  chain on the used ring.
\<close>

definition virtio_blk :: "vdevice \<Rightarrow> bool" where
  "virtio_blk dev \<longleftrightarrow> (\<forall>d bs sec h i b j. request d = Some (h, i, b, j) \<longrightarrow>
     dev d bs sec = (used_entry h j d,
       if req_type (ops d i) = VIRTIO_BLK_T_IN
       then bs(b := (bs b)\<lparr>b_data := get_block (unat (req_sector (ops d i))) sec\<rparr>) else bs,
       if req_type (ops d i) = VIRTIO_BLK_T_OUT
       then put_block (unat (req_sector (ops d i))) (b_data (bs b)) sec else sec))"

text \<open>
  What happens while \<open>p\<close> waits: the scheduler leaves \<open>p\<close>, the device serves its queue
  and interrupts, and the scheduler, finding \<open>p\<close> runnable, switches back to it.
\<close>

definition serve :: "vdevice \<Rightarrow> nat \<Rightarrow> 'm bmach_scheme \<Rightarrow> 'm bmach_scheme" where
  "serve dev p s =
     (case (seq (modify (set_mycpu (\<lambda>c. c\<lparr>cpu_proc := None\<rparr>))) (
            seq (release (L_proc p)) (
            seq (modify (\<lambda>s. case dev (vdisk s) (bufs s) (sectors s) of (d, bs, sec) \<Rightarrow>
                    s\<lparr>vdisk := d, bufs := bs, sectors := sec\<rparr>)) (
            seq virtio_disk_intr (
            seq (acquire (L_proc p)) (
            seq (modify (set_proc p (\<lambda>q. if pstate q = RUNNABLE then q\<lparr>pstate := RUNNING\<rparr> else q))) (
            modify (set_mycpu (\<lambda>c. c\<lparr>cpu_proc := Some p\<rparr>))))))))) s []
      of Ok _ t _ \<Rightarrow> t | _ \<Rightarrow> s)"

section \<open>The driver with the device\<close>

definition vd_idle :: "disk \<Rightarrow> bool" where
  "vd_idle d \<longleftrightarrow> (\<forall>i < NUM. dfree d i) \<and> used_idx d = us_idx (used d) \<and> us_idx (used d) = av_idx (avail d)"

lemma alloc_desc_first:
  assumes "i < NUM" "\<forall>j < i. \<not> dfree (vdisk s) j" "dfree (vdisk s) i"
  shows "alloc_desc s e = Ok (Some i) (s\<lparr>vdisk := (vdisk s)\<lparr>dfree := (dfree (vdisk s))(i := False)\<rparr>\<rparr>) e"
  unfolding alloc_desc_def by (rule for_ret_first [OF assms(1)]) (use assms in auto)

lemma alloc3_idle:
  assumes "vd_idle (vdisk s)"
  shows "alloc3_desc s e = Ok (Some [0, 1, 2])
    (s\<lparr>vdisk := (vdisk s)\<lparr>dfree := (dfree (vdisk s))(0 := False, 1 := False, 2 := False)\<rparr>\<rparr>) e"
proof -
  let ?v = "\<lambda>fr. s\<lparr>vdisk := (vdisk s)\<lparr>dfree := fr\<rparr>\<rparr>"
  let ?f = "dfree (vdisk s)"
  have f: "?f 0" "?f 1" "?f 2" using assms by (simp_all add: vd_idle_def NUM_def)
  have a: "alloc_desc s e = Ok (Some 0) (?v (?f(0 := False))) e"
    using alloc_desc_first [of 0 s e] f by (simp add: NUM_def)
  have b: "alloc_desc (?v (?f(0 := False))) e = Ok (Some 1) (?v (?f(0 := False, 1 := False))) e"
    using alloc_desc_first [of 1 "?v (?f(0 := False))" e] f by (simp add: NUM_def)
  have c: "alloc_desc (?v (?f(0 := False, 1 := False))) e = Ok (Some 2) (?v (?f(0 := False, 1 := False, 2 := False))) e"
    using alloc_desc_first [of 2 "?v (?f(0 := False, 1 := False))" e] f by (simp add: NUM_def less_2_cases_iff)
  have three: "3 = Suc (Suc (Suc 0))" by simp
  show ?thesis unfolding alloc3_desc_def three using a b c by simp
qed

text \<open>Changing the current process of the hart, with or without locks.\<close>

definition set_cur :: "nat option \<Rightarrow> 'm mach_scheme \<Rightarrow> 'm mach_scheme" where
  "set_cur v = set_mycpu (\<lambda>c. c\<lparr>cpu_proc := v\<rparr>)"

lemma set_cur_sel [simp]:
  "intr_get (set_cur v s) = intr_get s" "noff (mycpu (set_cur v s)) = noff (mycpu s)"
  "intena (mycpu (set_cur v s)) = intena (mycpu s)" "cpu_proc (mycpu (set_cur v s)) = v"
  "lock_free lk (set_cur v s) = lock_free lk s" "cpu_ok (set_cur v s) = cpu_ok s"
  "proc_locks_free (set_cur v s) = proc_locks_free s" "procs (set_cur v s) = procs s"
  "set_cur w (set_cur v s) = set_cur w s" "procs_update f (set_cur v s) = set_cur v (procs_update f s)"
  "set_proc p g (set_cur v s) = set_cur v (set_proc p g s)"
  by (simp_all add: set_cur_def mach_upd_defs intr_get_def lock_free_def cpu_ok_def proc_locks_free_def)

lemma set_cur_bmach [simp]:
  "vdisk (set_cur v s) = vdisk s" "bufs (set_cur v s) = bufs s" "sectors (set_cur v s) = sectors s"
  "vmmio (set_cur v s) = vmmio s" "vdisk_update f1 (set_cur v s) = set_cur v (vdisk_update f1 s)"
  "bufs_update f2 (set_cur v s) = set_cur v (bufs_update f2 s)"
  "sectors_update f3 (set_cur v s) = set_cur v (sectors_update f3 s)"
  "vmmio_update f4 (set_cur v s) = set_cur v (vmmio_update f4 s)"
  by (simp_all add: set_cur_def mach_upd_defs)

lemma set_cur_acquired: "set_cur v (acquired lk s) = acquired lk (set_cur v s)"
  by (rule mach.equality) (auto simp: set_cur_def acquired_def pushed_def mach_upd_defs intr_get_def)

lemma set_cur_same: "cpu_proc (mycpu s) = v \<Longrightarrow> set_cur v s = s"
  by (rule mach.equality) (auto simp: set_cur_def mach_upd_defs)

lemma asleep_bmach [simp]:
  "vdisk (asleep ch p s) = vdisk s" "bufs (asleep ch p s) = bufs s" "sectors (asleep ch p s) = sectors s"
  "vmmio (asleep ch p s) = vmmio s" "proc_locks_free (asleep ch p s) = proc_locks_free s"
  by (simp_all add: asleep_def)

lemma virtio_disk_intr_run:
  assumes "cpu_ok s" "lock_free L_vdisk s" "proc_locks_free s"
    and "us_idx (used (vdisk s)) = used_idx (vdisk s) + 1"
    and "i = unat (us_ring (used (vdisk s)) (unat (used_idx (vdisk s)) mod NUM))"
    and "info_status (vdisk s) i = 0" "info_b (vdisk s) i = Some b"
  shows "\<exists>M. virtio_disk_intr s e = Ok () (touched (s\<lparr>vmmio := M, bufs := (bufs s)(b := (bufs s b)\<lparr>b_disk := False\<rparr>),
    procs := woken (Ch_buf b) (cpu_proc (mycpu s)) (procs s), vdisk := (vdisk s)\<lparr>used_idx := used_idx (vdisk s) + 1\<rparr>\<rparr>)) e"
proof -
  have ne: "used_idx (vdisk s) \<noteq> used_idx (vdisk s) + 1" by simp
  show ?thesis
    using assms(1-3,6,7) ne unfolding virtio_disk_intr_def vread_def vwrite_def
    by (intro exI) (simp add: acquire_run whileM_unfold [of _ _ "()"] assms(4) assms(5) [symmetric] Let_def set_buf_def wakeup_run)
qed

text \<open>The buffers and the disk after a request has been served.\<close>

definition done_bufs :: "bool \<Rightarrow> nat \<Rightarrow> nat \<Rightarrow> (nat \<Rightarrow> buf) \<Rightarrow> (nat \<Rightarrow> uchar list) \<Rightarrow> nat \<Rightarrow> buf" where
  "done_bufs wr b n bs sec = bs(b := (if wr then bs b else (bs b)\<lparr>b_data := get_block n sec\<rparr>)\<lparr>b_disk := False\<rparr>)"

definition done_sectors :: "bool \<Rightarrow> nat \<Rightarrow> nat \<Rightarrow> (nat \<Rightarrow> buf) \<Rightarrow> (nat \<Rightarrow> uchar list) \<Rightarrow> nat \<Rightarrow> uchar list" where
  "done_sectors wr b n bs sec = (if wr then put_block n (b_data (bs b)) sec else sec)"

lemma serve_steps:
  assumes "release (L_proc p) (set_cur None x) [] = Ok () y []" "dev (vdisk y) (bufs y) (sectors y) = (d, bs, sec)"
    and "virtio_disk_intr (y\<lparr>vdisk := d, bufs := bs, sectors := sec\<rparr>) [] = Ok () t []"
    and "acquire (L_proc p) t [] = Ok () u []"
  shows "serve dev p x = set_cur (Some p) (set_proc p (\<lambda>q. if pstate q = RUNNABLE then q\<lparr>pstate := RUNNING\<rparr> else q) u)"
  unfolding serve_def set_cur_def [symmetric] using assms by simp

lemma serve_run:
  assumes "calm p s" "virtio_blk dev" "request (vdisk s) = Some (h, i, b, h)" "h < NUM"
    and "used_idx (vdisk s) = us_idx (used (vdisk s))" "info_b (vdisk s) h = Some b"
    and "req_type (ops (vdisk s) i) = (if wr then VIRTIO_BLK_T_OUT else VIRTIO_BLK_T_IN)"
    and "n = unat (req_sector (ops (vdisk s) i))"
  shows "\<exists>M. serve dev p (acquired (L_proc p) (asleep (Ch_buf b) p s)) =
    acquired (L_proc p) ((set_proc p (\<lambda>q. q\<lparr>chan := Ch_buf b\<rparr>) s)\<lparr>vmmio := M, bufs := done_bufs wr b n (bufs s) (sectors s),
      sectors := done_sectors wr b n (bufs s) (sectors s),
      vdisk := (used_entry h h (vdisk s))\<lparr>used_idx := used_idx (vdisk s) + 1\<rparr>\<rparr>)"
proof -
  note c = calmD [OF assms(1)]
  let ?y = "set_cur None (asleep (Ch_buf b) p s)"
  let ?bs = "if wr then bufs s else (bufs s)(b := (bufs s b)\<lparr>b_data := get_block n (sectors s)\<rparr>)"
  let ?z = "?y\<lparr>vdisk := used_entry h h (vdisk s), bufs := ?bs, sectors := done_sectors wr b n (bufs s) (sectors s)\<rparr>"
  have dev: "dev (vdisk s) (bufs s) (sectors s) = (used_entry h h (vdisk s), ?bs, done_sectors wr b n (bufs s) (sectors s))"
    using assms(2,3,7,8) unfolding virtio_blk_def done_sectors_def
    by (simp add: VIRTIO_BLK_T_IN_def VIRTIO_BLK_T_OUT_def)
  have hw: "unat (of_nat h :: uint) = h" using assms(4) by (simp add: unat_of_nat NUM_def)
  have "us_idx (used (vdisk ?z)) = used_idx (vdisk ?z) + 1"
    "h = unat (us_ring (used (vdisk ?z)) (unat (used_idx (vdisk ?z)) mod NUM))"
    "info_status (vdisk ?z) h = 0" "info_b (vdisk ?z) h = Some b"
    using assms(5,6) hw by (simp_all add: used_entry_def)
  from virtio_disk_intr_run [OF _ _ _ this, of "[]"] c obtain M where
    M: "virtio_disk_intr ?z [] = Ok () (touched (?z\<lparr>vmmio := M, bufs := (bufs ?z)(b := (bufs ?z b)\<lparr>b_disk := False\<rparr>),
      procs := woken (Ch_buf b) None (procs ?z), vdisk := (vdisk ?z)\<lparr>used_idx := used_idx (vdisk ?z) + 1\<rparr>\<rparr>)) []"
    by auto
  have w: "woken (Ch_buf b) None (procs ?z) = (procs s)(p := (procs s p)\<lparr>chan := Ch_buf b, pstate := RUNNABLE\<rparr>)"
    using assms(1) c(7)
    by (auto simp: calm_def asleep_def set_proc_def woken_def woken_proc_def fun_eq_iff)
  have dn: "done_bufs wr b n (bufs s) (sectors s) = ?bs(b := (?bs b)\<lparr>b_disk := False\<rparr>)"
    by (auto simp: done_bufs_def)
  let ?ps = "(procs s)(p := (procs s p)\<lparr>chan := Ch_buf b, pstate := RUNNABLE\<rparr>)"
  let ?t = "?z\<lparr>vmmio := M, bufs := done_bufs wr b n (bufs s) (sectors s), procs := ?ps,
    vdisk := (used_entry h h (vdisk s))\<lparr>used_idx := used_idx (vdisk s) + 1\<rparr>\<rparr>"
  have d: "used_idx (used_entry h h (vdisk s)) = used_idx (vdisk s)" by (simp add: used_entry_def)
  have tt: "touched ?t = ?t" "touched ?y = ?y" using c by (intro touched_same; simp)+
  have intr: "virtio_disk_intr ?z [] = Ok () ?t []" using M w dn d tt(1) by simp
  have rel: "release (L_proc p) (acquired (L_proc p) ?y) [] = Ok () ?y []"
    using c tt(2) by simp
  let ?u = "set_cur (Some p) (set_proc p (\<lambda>q. if pstate q = RUNNABLE then q\<lparr>pstate := RUNNING\<rparr> else q) ?t)"
  have acq: "acquire (L_proc p) ?t [] = Ok () (acquired (L_proc p) ?t) []"
    using c by (intro acquire_run) simp
  have sv: "serve dev p (acquired (L_proc p) (asleep (Ch_buf b) p s)) =
      set_cur (Some p) (set_proc p (\<lambda>q. if pstate q = RUNNABLE then q\<lparr>pstate := RUNNING\<rparr> else q) (acquired (L_proc p) ?t))"
    by (rule serve_steps [OF _ _ intr acq]) (simp_all only: set_cur_acquired rel dev set_cur_bmach asleep_bmach)
  have "(procs s p)\<lparr>chan := Ch_buf b, pstate := RUNNING\<rparr> = (procs s p)\<lparr>chan := Ch_buf b\<rparr>"
    by (rule proc.equality) (simp_all add: c)
  then have "set_proc p (\<lambda>q. if pstate q = RUNNABLE then q\<lparr>pstate := RUNNING\<rparr> else q) ?t =
      ?t\<lparr>procs := (procs s)(p := (procs s p)\<lparr>chan := Ch_buf b\<rparr>)\<rparr>"
    unfolding set_proc_def by simp
  then have "?u = set_cur (Some p) (?t\<lparr>procs := (procs s)(p := (procs s p)\<lparr>chan := Ch_buf b\<rparr>)\<rparr>)"
    by (rule arg_cong)
  also have "\<dots> = (set_proc p (\<lambda>q. q\<lparr>chan := Ch_buf b\<rparr>) s)\<lparr>vmmio := M, bufs := done_bufs wr b n (bufs s) (sectors s),
      sectors := done_sectors wr b n (bufs s) (sectors s), vdisk := (used_entry h h (vdisk s))\<lparr>used_idx := used_idx (vdisk s) + 1\<rparr>\<rparr>"
  proof -
    let ?X = "(asleep (Ch_buf b) p s)\<lparr>vdisk := used_entry h h (vdisk s), bufs := ?bs,
      sectors := done_sectors wr b n (bufs s) (sectors s), vmmio := M, bufs := done_bufs wr b n (bufs s) (sectors s), procs := ?ps,
      vdisk := (used_entry h h (vdisk s))\<lparr>used_idx := used_idx (vdisk s) + 1\<rparr>, procs := (procs s)(p := (procs s p)\<lparr>chan := Ch_buf b\<rparr>)\<rparr>"
    have "set_cur (Some p) (?t\<lparr>procs := (procs s)(p := (procs s p)\<lparr>chan := Ch_buf b\<rparr>)\<rparr>) = set_cur (Some p) ?X"
      by (simp only: set_cur_sel set_cur_bmach)
    also have "\<dots> = ?X" using c by (intro set_cur_same) simp
    also have "\<dots> = (set_proc p (\<lambda>q. q\<lparr>chan := Ch_buf b\<rparr>) s)\<lparr>vmmio := M, bufs := done_bufs wr b n (bufs s) (sectors s),
      sectors := done_sectors wr b n (bufs s) (sectors s), vdisk := (used_entry h h (vdisk s))\<lparr>used_idx := used_idx (vdisk s) + 1\<rparr>\<rparr>"
      unfolding asleep_def set_proc_def by (rule bmach.equality) simp_all
    finally show ?thesis .
  qed
  finally show ?thesis using sv by (simp only: set_proc_acquired set_cur_acquired) blast
qed

text \<open>The state in which \<open>virtio_disk_rw\<close> starts to wait.\<close>

definition asked :: "nat \<Rightarrow> bool \<Rightarrow> 'm bmach_scheme \<Rightarrow> 'm bmach_scheme" where
  "asked b wr s = s\<lparr>vdisk := rw_format b (b_blockno (bufs s b)) wr 0 1 2
       ((vdisk s)\<lparr>dfree := (dfree (vdisk s))(0 := False, 1 := False, 2 := False)\<rparr>),
     bufs := (bufs s)(b := (bufs s b)\<lparr>b_disk := True\<rparr>),
     vmmio := (vmmio s)\<lparr>vwrites := vwrites (vmmio s) @ [(VIRTIO_MMIO_QUEUE_NOTIFY, 0)]\<rparr>\<rparr>"

definition sector_of :: "uint \<Rightarrow> nat" where
  "sector_of bno = unat (bno * 2)"

lemma asked_request:
  assumes "vd_idle (vdisk s)"
  shows "request (vdisk (asked b wr s)) = Some (0, 0, b, 0)"
    "used_idx (vdisk (asked b wr s)) = us_idx (used (vdisk (asked b wr s)))"
    "info_b (vdisk (asked b wr s)) 0 = Some b"
    "req_type (ops (vdisk (asked b wr s)) 0) = (if wr then VIRTIO_BLK_T_OUT else VIRTIO_BLK_T_IN)"
    "unat (req_sector (ops (vdisk (asked b wr s)) 0)) = sector_of (b_blockno (bufs s b))"
    "sectors (asked b wr s) = sectors s" "bufs (asked b wr s) = (bufs s)(b := (bufs s b)\<lparr>b_disk := True\<rparr>)"
  using assms
  by (simp_all add: asked_def rw_format_def request_def vd_idle_def Let_def BSIZE_def VRING_DESC_F_NEXT_def
      VRING_DESC_F_WRITE_def bit_simps bit_0 sector_of_def unsigned_ucast_eq)

lemma rw_starts:
  assumes "calm p s" "vd_idle (vdisk s)"
  shows "virtio_disk_rw b wr s e =
     seq (whileM (\<lambda>_ s. b_disk (bufs s b)) (\<lambda>_. sleep (Ch_buf b) L_vdisk) ()) (
     seq (modify (\<lambda>s. s\<lparr>vdisk := (vdisk s)\<lparr>info_b := (info_b (vdisk s))(0 := None)\<rparr>\<rparr>)) (
     seq (free_chain 0) (
     release L_vdisk))) (acquired L_vdisk (asked b wr s)) e"
proof -
  note c = calmD [OF assms(1)]
  have "alloc3_desc (acquired L_vdisk s) e = Ok (Some [0, 1, 2])
    (acquired L_vdisk (s\<lparr>vdisk := (vdisk s)\<lparr>dfree := (dfree (vdisk s))(0 := False, 1 := False, 2 := False)\<rparr>\<rparr>)) e"
    using alloc3_idle [of "acquired L_vdisk s" e] assms(2) by simp
  then have "whileM (\<lambda>r _. r = None) (\<lambda>_. bind alloc3_desc (\<lambda>r.
          case r of Some idx \<Rightarrow> ret (Some idx)
          | None \<Rightarrow> seq (sleep Ch_disk_free L_vdisk) (ret None))) None (acquired L_vdisk s) e = Ok (Some [0, 1, 2])
    (acquired L_vdisk (s\<lparr>vdisk := (vdisk s)\<lparr>dfree := (dfree (vdisk s))(0 := False, 1 := False, 2 := False)\<rparr>\<rparr>)) e"
    by (subst whileM_unfold) (simp add: whileM_stop)
  then show ?thesis
    unfolding virtio_disk_rw_def using c by (simp add: acquire_run vwrite_def set_buf_def asked_def numeral_2_eq_2)
qed

lemma calm_asked [simp]: "calm p (asked b wr s) = calm p s"
  by (simp add: asked_def)

lemma rw_blocks:
  assumes "calm p s" "vd_idle (vdisk s)"
  shows "virtio_disk_rw b wr s [] = Blocked (acquired (L_proc p) (asleep (Ch_buf b) p (asked b wr s)))"
proof -
  have "sleep (Ch_buf b) L_vdisk (acquired L_vdisk (asked b wr s)) [] =
      Blocked (acquired (L_proc p) (asleep (Ch_buf b) p (asked b wr s)))"
    using calmD [of p "asked b wr s"] assms(1) by (intro sleep_blocks) simp_all
  then show ?thesis
    using asked_request(7) [OF assms(2)] by (simp add: rw_starts [OF assms]) (subst seq_run, subst whileM_unfold, simp)
qed

lemma free_desc_run:
  assumes "calm p s" "i < NUM" "\<not> dfree (vdisk s) i"
  shows "free_desc i (acquired L_vdisk s) e = Ok () (acquired L_vdisk (s\<lparr>vdisk := (vdisk s)\<lparr>desc := (desc (vdisk s))(i := zero_desc),
    dfree := (dfree (vdisk s))(i := True)\<rparr>\<rparr>)) e"
  using assms wakeup_calm(1) [of p "s\<lparr>vdisk := (vdisk s)\<lparr>desc := (desc (vdisk s))(i := zero_desc),
    dfree := (dfree (vdisk s))(i := True)\<rparr>\<rparr>" Ch_disk_free L_vdisk e]
  by (simp add: free_desc_def)

lemma free_chain_step:
  assumes "calm p s" "i < NUM" "\<not> dfree (vdisk s) i"
  shows "whileM (\<lambda>(i, stop) _. \<not> stop) (\<lambda>(i, stop).
          bind (gets (\<lambda>s. desc (vdisk s) i)) (\<lambda>d.
          seq (free_desc i) (
          if d_flags d AND VRING_DESC_F_NEXT \<noteq> 0 then ret (unat (d_next d), False) else ret (i, True))))
       (i, False) (acquired L_vdisk s) e =
    (let t = acquired L_vdisk (s\<lparr>vdisk := (vdisk s)\<lparr>desc := (desc (vdisk s))(i := zero_desc), dfree := (dfree (vdisk s))(i := True)\<rparr>\<rparr>)
     in if d_flags (desc (vdisk s) i) AND VRING_DESC_F_NEXT \<noteq> 0
     then whileM (\<lambda>(i, stop) _. \<not> stop) (\<lambda>(i, stop).
          bind (gets (\<lambda>s. desc (vdisk s) i)) (\<lambda>d.
          seq (free_desc i) (
          if d_flags d AND VRING_DESC_F_NEXT \<noteq> 0 then ret (unat (d_next d), False) else ret (i, True))))
       (unat (d_next (desc (vdisk s) i)), False) t e
     else Ok (i, True) t e)"
  using free_desc_run [OF assms, of e] unfolding Let_def
  by (subst whileM_unfold) (simp add: whileM_stop)

lemma free_chain_run:
  assumes "calm p s" "\<not> dfree (vdisk s) 0" "\<not> dfree (vdisk s) 1" "\<not> dfree (vdisk s) 2"
    and "d_flags (desc (vdisk s) 0) = VRING_DESC_F_NEXT" "d_next (desc (vdisk s) 0) = 1"
    and "d_flags (desc (vdisk s) 1) = (if wr then 0 else VRING_DESC_F_WRITE) OR VRING_DESC_F_NEXT" "d_next (desc (vdisk s) 1) = 2"
    and "d_flags (desc (vdisk s) 2) = VRING_DESC_F_WRITE"
  shows "\<exists>ds. free_chain 0 (acquired L_vdisk s) e = Ok () (acquired L_vdisk (s\<lparr>vdisk := (vdisk s)\<lparr>desc := ds,
    dfree := (dfree (vdisk s))(0 := True, 1 := True, 2 := True)\<rparr>\<rparr>)) e"
proof -
  have f: "VRING_DESC_F_NEXT AND VRING_DESC_F_NEXT \<noteq> 0" "VRING_DESC_F_WRITE AND VRING_DESC_F_NEXT = 0"
    "((if wr then 0 else VRING_DESC_F_WRITE) OR VRING_DESC_F_NEXT) AND VRING_DESC_F_NEXT \<noteq> 0"
    by (simp_all add: VRING_DESC_F_NEXT_def VRING_DESC_F_WRITE_def)
  let ?d0 = "(vdisk s)\<lparr>desc := (desc (vdisk s))(0 := zero_desc), dfree := (dfree (vdisk s))(0 := True)\<rparr>"
  let ?d1 = "?d0\<lparr>desc := (desc ?d0)(1 := zero_desc), dfree := (dfree ?d0)(1 := True)\<rparr>"
  have lt: "0 < NUM" "1 < NUM" "2 < NUM" by (simp_all add: NUM_def)
  show ?thesis
    unfolding free_chain_def
    using free_chain_step [OF assms(1) lt(1) assms(2), of e]
      free_chain_step [of p "s\<lparr>vdisk := ?d0\<rparr>", OF _ lt(2), of e] free_chain_step [of p "s\<lparr>vdisk := ?d1\<rparr>", OF _ lt(3), of e]
      assms f by (intro exI) (simp add: Let_def)
qed

lemma rw_completes:
  assumes "calm p s" "vd_idle (vdisk s)" "virtio_blk dev" "n = sector_of (b_blockno (bufs s b))"
  shows "\<exists>M V. virtio_disk_rw b wr s (serve dev p # e) = Ok () (s\<lparr>vmmio := M, bufs := done_bufs wr b n (bufs s) (sectors s),
    sectors := done_sectors wr b n (bufs s) (sectors s), vdisk := V\<rparr>) e \<and> vd_idle V"
proof -
  let ?a = "asked b wr s"
  let ?V = "(used_entry 0 0 (vdisk ?a))\<lparr>used_idx := used_idx (vdisk ?a) + 1\<rparr>"
  note a = asked_request [OF assms(2), of b wr]
  have ca: "calm p ?a" using assms(1) by simp
  note c = calmD [OF ca]
  have lt: "0 < NUM" by (simp add: NUM_def)
  obtain M where M: "serve dev p (acquired (L_proc p) (asleep (Ch_buf b) p ?a)) =
    acquired (L_proc p) ((set_proc p (\<lambda>q. q\<lparr>chan := Ch_buf b\<rparr>) ?a)\<lparr>vmmio := M, bufs := done_bufs wr b n (bufs ?a) (sectors ?a),
      sectors := done_sectors wr b n (bufs ?a) (sectors ?a), vdisk := ?V\<rparr>)"
    using serve_run [OF ca assms(3) a(1) lt a(2,3,4)] a(5) assms(4) by metis
  let ?b = "(set_proc p (\<lambda>q. q\<lparr>chan := Ch_buf b\<rparr>) ?a)\<lparr>vmmio := M, bufs := done_bufs wr b n (bufs ?a) (sectors ?a),
      sectors := done_sectors wr b n (bufs ?a) (sectors ?a), vdisk := ?V\<rparr>"
  have "sleep (Ch_buf b) L_vdisk (acquired L_vdisk ?a) (serve dev p # e) =
      Ok () (acquired L_vdisk (set_proc p (\<lambda>q. q\<lparr>chan := Ch_null\<rparr>) ?b)) e"
    using c by (intro sleep_run M) (simp_all add: resumed_def set_proc_def)
  moreover have "set_proc p (\<lambda>q. q\<lparr>chan := Ch_null\<rparr>) ?b = s\<lparr>vmmio := M, bufs := done_bufs wr b n (bufs s) (sectors s),
      sectors := done_sectors wr b n (bufs s) (sectors s), vdisk := ?V\<rparr>"
  proof -
    have "(procs s p)\<lparr>chan := Ch_null\<rparr> = procs s p"
      using calmD(10) [OF assms(1)] by (intro proc.equality) simp_all
    then have "(procs s)(p := (procs s p)\<lparr>chan := Ch_null\<rparr>) = procs s" by simp
    moreover have "done_bufs wr b n (bufs ?a) (sectors ?a) = done_bufs wr b n (bufs s) (sectors s)"
      "done_sectors wr b n (bufs ?a) (sectors ?a) = done_sectors wr b n (bufs s) (sectors s)"
      by (simp_all add: a(6,7) done_bufs_def done_sectors_def)
    ultimately show ?thesis
      unfolding set_proc_def by (intro bmach.equality) (simp_all add: asked_def)
  qed
  moreover define t where "t = s\<lparr>vmmio := M, bufs := done_bufs wr b n (bufs s) (sectors s),
      sectors := done_sectors wr b n (bufs s) (sectors s), vdisk := ?V\<rparr>"
  ultimately have sl: "sleep (Ch_buf b) L_vdisk (acquired L_vdisk ?a) (serve dev p # e) = Ok () (acquired L_vdisk t) e"
    by simp
  have t: "\<not> b_disk (bufs t b)" "vdisk t = ?V" "calm p t" using assms(1) by (simp_all add: t_def done_bufs_def)
  have loop: "whileM (\<lambda>_ s. b_disk (bufs s b)) (\<lambda>_. sleep (Ch_buf b) L_vdisk) () (acquired L_vdisk ?a) (serve dev p # e) =
      Ok () (acquired L_vdisk t) e"
    using sl t(1) a(7) by (subst whileM_unfold) (simp add: whileM_stop)
  let ?t = "t\<lparr>vdisk := ?V\<lparr>info_b := (info_b ?V)(0 := None)\<rparr>\<rparr>"
  have V: "desc ?V = desc (vdisk ?a)" "dfree ?V = dfree (vdisk ?a)" by (simp_all add: used_entry_def)
  obtain ds where fc: "free_chain 0 (acquired L_vdisk ?t) e = Ok () (acquired L_vdisk (?t\<lparr>vdisk := (vdisk ?t)\<lparr>desc := ds,
    dfree := (dfree (vdisk ?t))(0 := True, 1 := True, 2 := True)\<rparr>\<rparr>)) e"
  proof -
    have dv: "desc (vdisk ?t) = desc (vdisk ?a)" "dfree (vdisk ?t) = dfree (vdisk ?a)" by (simp_all add: used_entry_def)
    have ds: "\<not> dfree (vdisk ?a) 0" "\<not> dfree (vdisk ?a) 1" "\<not> dfree (vdisk ?a) 2"
      "d_flags (desc (vdisk ?a) 0) = VRING_DESC_F_NEXT" "d_next (desc (vdisk ?a) 0) = 1"
      "d_flags (desc (vdisk ?a) 1) = (if wr then 0 else VRING_DESC_F_WRITE) OR VRING_DESC_F_NEXT" "d_next (desc (vdisk ?a) 1) = 2"
      "d_flags (desc (vdisk ?a) 2) = VRING_DESC_F_WRITE"
      by (simp_all add: asked_def rw_format_def)
    have "calm p ?t" using t(3) by simp
    from free_chain_run [OF this, unfolded dv, OF ds] show ?thesis using that unfolding dv by blast
  qed
  let ?W = "?V\<lparr>info_b := (info_b ?V)(0 := None), desc := ds, dfree := (dfree ?V)(0 := True, 1 := True, 2 := True)\<rparr>"
  have "vd_idle ?W"
    using assms(2) by (auto simp: vd_idle_def V(2) asked_def rw_format_def used_entry_def)
  moreover have "virtio_disk_rw b wr s (serve dev p # e) = Ok () (t\<lparr>vdisk := ?W\<rparr>) e"
    using loop fc t(2) calmD [OF t(3)] calm_touched [of p "t\<lparr>vdisk := ?W\<rparr>"] t(3)
    by (simp add: rw_starts [OF assms(1,2)])
  ultimately show ?thesis unfolding t_def by (intro exI [of _ M] exI [of _ ?W]) simp
qed

lemma disk_run_rw:
  assumes "calm p s" "vd_idle (vdisk s)" "virtio_blk dev" "n = sector_of (b_blockno (bufs s b))"
    and "C (acquired (L_proc p) (asleep (Ch_buf b) p (asked b wr s)))"
    and "\<And>M V. vd_idle V \<Longrightarrow> Q () (s\<lparr>vmmio := M, bufs := done_bufs wr b n (bufs s) (sectors s),
      sectors := done_sectors wr b n (bufs s) (sectors s), vdisk := V\<rparr>)"
  shows "disk_run (serve dev p) 1 (virtio_disk_rw b wr) s C Q"
proof (rule disk_runI)
  fix k
  show "(\<exists>x t j. virtio_disk_rw b wr s (replicate k (serve dev p)) = Ok x t (replicate j (serve dev p)) \<and> j \<le> k \<and> k \<le> j + 1 \<and> Q x t) \<or>
    (\<exists>t. virtio_disk_rw b wr s (replicate k (serve dev p)) = Blocked t \<and> k < 1 \<and> C t)"
  proof (cases k)
    case 0
    then show ?thesis using rw_blocks [OF assms(1,2)] assms(5) by simp
  next
    case (Suc j)
    obtain M V where "virtio_disk_rw b wr s (serve dev p # replicate j (serve dev p)) =
        Ok () (s\<lparr>vmmio := M, bufs := done_bufs wr b n (bufs s) (sectors s),
          sectors := done_sectors wr b n (bufs s) (sectors s), vdisk := V\<rparr>) (replicate j (serve dev p))" "vd_idle V"
      using rw_completes [OF assms(1-4)] by blast
    then show ?thesis using assms(6) [of V M] Suc by auto
  qed
qed

lemma get_put_block [simp]: "get_block n (put_block n bs sec) = bs"
  by (simp add: get_block_def put_block_def)


section \<open>Descriptors as an allocator\<close>

definition desc_inv :: "'m bmach_scheme \<Rightarrow> nat set \<Rightarrow> bool" where
  "desc_inv s F \<longleftrightarrow> cpu_ok s \<and> proc_locks_free s \<and> F = {i. i < NUM \<and> dfree (vdisk s) i}"

lemma desc_inv_alloc:
  assumes "desc_inv s F"
  shows "returns alloc_desc s e (\<lambda>r t u. u = e \<and>
    (case r of None \<Rightarrow> F = {} \<and> desc_inv t F | Some i \<Rightarrow> i \<in> F \<and> desc_inv t (F - {i})))"
proof (cases "F = {}")
  case True
  then have "alloc_desc s e = Ok None s e"
    using assms unfolding alloc_desc_def desc_inv_def by (intro for_ret_skip) auto
  then show ?thesis using True assms by (simp add: returns_def)
next
  case False
  define i where "i = (LEAST i. i \<in> F)"
  have i: "i \<in> F" "\<forall>j < i. j \<notin> F"
    using False unfolding i_def by (meson LeastI all_not_in_conv, meson not_less_Least)
  then have "alloc_desc s e = Ok (Some i) (s\<lparr>vdisk := (vdisk s)\<lparr>dfree := (dfree (vdisk s))(i := False)\<rparr>\<rparr>) e"
    using assms by (intro alloc_desc_first) (auto simp: desc_inv_def)
  then show ?thesis using i assms by (auto simp: returns_def desc_inv_def)
qed

lemma desc_inv_free:
  assumes "desc_inv s F" "i < NUM" "i \<notin> F"
  shows "returns (free_desc i) s e (\<lambda>_ t u. u = e \<and> desc_inv t (insert i F))"
  using assms by (auto simp: returns_def desc_inv_def free_desc_def wakeup_run)

interpretation descs: allocator desc_inv alloc_desc free_desc "{i. i < NUM}"
  by unfold_locales (auto intro: desc_inv_alloc desc_inv_free)

section \<open>An example state\<close>

text \<open>A device that keeps the protocol, and a machine with an empty cache in front of a zeroed disk.\<close>

definition blk_device :: vdevice where
  "blk_device d bs sec =
     (case request d of
        None \<Rightarrow> (d, bs, sec)
      | Some (h, i, b, j) \<Rightarrow>
          (used_entry h j d,
           if req_type (ops d i) = VIRTIO_BLK_T_IN
           then bs(b := (bs b)\<lparr>b_data := get_block (unat (req_sector (ops d i))) sec\<rparr>) else bs,
           if req_type (ops d i) = VIRTIO_BLK_T_OUT
           then put_block (unat (req_sector (ops d i))) (b_data (bs b)) sec else sec))"

lemma virtio_blk_device: "virtio_blk blk_device"
  by (simp add: virtio_blk_def blk_device_def)

definition zero_buf :: buf where
  "zero_buf = \<lparr>b_valid = False, b_disk = False, b_dev = 0, b_blockno = 0, b_refcnt = 0, b_prev = 0, b_next = 0,
     b_data = replicate BSIZE 0\<rparr>"

definition zero_disk :: disk where
  "zero_disk = \<lparr>desc_page = 0, avail_page = 0, used_page = 0, desc = (\<lambda>_. zero_desc),
     avail = \<lparr>av_idx = 0, av_ring = (\<lambda>_. 0)\<rparr>, used = \<lparr>us_idx = 0, us_ring = (\<lambda>_. 0)\<rparr>, dfree = (\<lambda>_. True),
     used_idx = 0, info_b = (\<lambda>_. None), info_status = (\<lambda>_. 0),
     ops = (\<lambda>_. \<lparr>req_type = 0, req_reserved = 0, req_sector = 0\<rparr>)\<rparr>"

definition bboot :: bmach where
  "bboot = cmach.extend
     (cboot\<lparr>procs := (\<lambda>_. zero_proc\<lparr>pagetable := 0x80021000\<rparr>)(0 := zero_proc\<lparr>pagetable := 0x80021000, pstate := RUNNING, pid := 1\<rparr>)\<rparr>)
     (bmach.fields \<lparr>vregs = (\<lambda>_ _. 0), vwrites = []\<rparr> zero_disk (\<lambda>_. zero_buf) (\<lambda>_. replicate 512 0))"

lemma bboot_simps:
  "calm 0 bboot" "vd_idle (vdisk bboot)" "bufs bboot = (\<lambda>_. zero_buf)" "sectors bboot = (\<lambda>_. replicate 512 0)"
  by (auto simp: bboot_def cboot_def uboot_def boot_defs umach.defs cmach.defs bmach.defs calm_def running_def cpu_ok_def
      lock_free_def proc_locks_free_def mycpu_def cpuid_def NPROC_def intr_get_def vd_idle_def zero_disk_def zero_proc_def)


end
