(* ===== verification/Bio.thy ===== *)
theory Bio
  imports Virtio
begin

text \<open>
  The buffer cache \<^verbatim>\<open>kernel/bio.c\<close>.  The buffers are on a doubly linked list in the order
  of their last use, kept through the fields \<^verbatim>\<open>prev\<close> and \<^verbatim>\<open>next\<close>.  The lemmas replace the
  linked list, the buffers and the disk by three functions of the block number:
  the contents of the block, the number of references to its buffer, and
  whether the buffer is locked.
\<close>

section \<open>The code\<close>

definition BHEAD :: nat where "BHEAD = NBUF"

definition binit_one :: "nat \<Rightarrow> ('m bmach_scheme, unit) kern" where
  "binit_one b =
     bind (gets (\<lambda>s. b_next (bufs s BHEAD))) (\<lambda>h.
     seq (modify (set_buf b (\<lambda>q. q\<lparr>b_next := h, b_prev := BHEAD\<rparr>))) (
     seq (initsleeplock (SL_buf b) ''buffer'') (
     seq (modify (set_buf h (\<lambda>q. q\<lparr>b_prev := b\<rparr>))) (
     modify (set_buf BHEAD (\<lambda>q. q\<lparr>b_next := b\<rparr>))))))"

definition binit :: "('m bmach_scheme, unit) kern" where
  "binit =
     seq (initlock L_bcache ''bcache'') (
     seq (modify (set_buf BHEAD (\<lambda>q. q\<lparr>b_prev := BHEAD, b_next := BHEAD\<rparr>))) (
     for_each [0..<NBUF] binit_one))"

definition bget_cached :: "uint \<Rightarrow> uint \<Rightarrow> nat \<times> nat option \<Rightarrow> ('m bmach_scheme, nat \<times> nat option) kern" where
  "bget_cached dev blockno = (\<lambda>(b, r).
     bind (gets (\<lambda>s. bufs s b)) (\<lambda>q.
     if b_dev q = dev \<and> b_blockno q = blockno then
       seq (modify (set_buf b (\<lambda>q. q\<lparr>b_refcnt := b_refcnt q + 1\<rparr>))) (
       seq (release L_bcache) (
       seq (acquiresleep (SL_buf b)) (
       ret (b, Some b))))
     else ret (b_next q, None)))"

definition bget_recycle :: "uint \<Rightarrow> uint \<Rightarrow> nat \<times> nat option \<Rightarrow> ('m bmach_scheme, nat \<times> nat option) kern" where
  "bget_recycle dev blockno = (\<lambda>(b, r).
     bind (gets (\<lambda>s. bufs s b)) (\<lambda>q.
     if b_refcnt q = 0 then
       seq (modify (set_buf b (\<lambda>q. q\<lparr>b_dev := dev, b_blockno := blockno, b_valid := False, b_refcnt := 1\<rparr>))) (
       seq (release L_bcache) (
       seq (acquiresleep (SL_buf b)) (
       ret (b, Some b))))
     else ret (b_prev q, None)))"

definition bget :: "uint \<Rightarrow> uint \<Rightarrow> ('m bmach_scheme, nat) kern" where
  "bget dev blockno =
     seq (acquire L_bcache) (
     bind (gets (\<lambda>s. b_next (bufs s BHEAD))) (\<lambda>b.
     bind (whileM (\<lambda>(b, r) _. r = None \<and> b \<noteq> BHEAD) (bget_cached dev blockno) (b, None)) (\<lambda>(_, r).
     case r of Some b \<Rightarrow> ret b | None \<Rightarrow>
     bind (gets (\<lambda>s. b_prev (bufs s BHEAD))) (\<lambda>b.
     bind (whileM (\<lambda>(b, r) _. r = None \<and> b \<noteq> BHEAD) (bget_recycle dev blockno) (b, None)) (\<lambda>(_, r).
     case r of Some b \<Rightarrow> ret b | None \<Rightarrow>
     panic ''bget: no buffers'')))))"

definition bread :: "uint \<Rightarrow> uint \<Rightarrow> ('m bmach_scheme, nat) kern" where
  "bread dev blockno =
     bind (bget dev blockno) (\<lambda>b.
     bind (gets (\<lambda>s. b_valid (bufs s b))) (\<lambda>v.
     if \<not> v then
       seq (virtio_disk_rw b False) (
       seq (modify (set_buf b (\<lambda>q. q\<lparr>b_valid := True\<rparr>))) (
       ret b))
     else ret b))"

definition bwrite :: "nat \<Rightarrow> ('m bmach_scheme, unit) kern" where
  "bwrite b = bind (holdingsleep (SL_buf b)) (\<lambda>h. if \<not> h then panic ''bwrite'' else virtio_disk_rw b True)"

definition unlink_buf :: "nat \<Rightarrow> (nat \<Rightarrow> buf) \<Rightarrow> nat \<Rightarrow> buf" where
  "unlink_buf b B =
     (let B = B(b_next (B b) := (B (b_next (B b)))\<lparr>b_prev := b_prev (B b)\<rparr>)
      in B(b_prev (B b) := (B (b_prev (B b)))\<lparr>b_next := b_next (B b)\<rparr>))"

definition link_front :: "nat \<Rightarrow> (nat \<Rightarrow> buf) \<Rightarrow> nat \<Rightarrow> buf" where
  "link_front b B =
     (let B = B(b := (B b)\<lparr>b_next := b_next (B BHEAD)\<rparr>);
          B = B(b := (B b)\<lparr>b_prev := BHEAD\<rparr>);
          B = B(b_next (B BHEAD) := (B (b_next (B BHEAD)))\<lparr>b_prev := b\<rparr>)
      in B(BHEAD := (B BHEAD)\<lparr>b_next := b\<rparr>))"

definition brelse :: "nat \<Rightarrow> ('m bmach_scheme, unit) kern" where
  "brelse b =
     bind (holdingsleep (SL_buf b)) (\<lambda>h.
     if \<not> h then panic ''brelse'' else
     seq (releasesleep (SL_buf b)) (
     seq (acquire L_bcache) (
     seq (modify (set_buf b (\<lambda>q. q\<lparr>b_refcnt := b_refcnt q - 1\<rparr>))) (
     bind (gets (\<lambda>s. b_refcnt (bufs s b))) (\<lambda>n.
     seq (whenM (n = 0) (modify (\<lambda>s. s\<lparr>bufs := link_front b (unlink_buf b (bufs s))\<rparr>))) (
     release L_bcache))))))"

definition bpin :: "nat \<Rightarrow> ('m bmach_scheme, unit) kern" where
  "bpin b = seq (acquire L_bcache) (seq (modify (set_buf b (\<lambda>q. q\<lparr>b_refcnt := b_refcnt q + 1\<rparr>))) (release L_bcache))"

definition bunpin :: "nat \<Rightarrow> ('m bmach_scheme, unit) kern" where
  "bunpin b = seq (acquire L_bcache) (seq (modify (set_buf b (\<lambda>q. q\<lparr>b_refcnt := b_refcnt q - 1\<rparr>))) (release L_bcache))"

section \<open>The linked list\<close>

fun links :: "(nat \<Rightarrow> buf) \<Rightarrow> nat \<Rightarrow> nat list \<Rightarrow> nat \<Rightarrow> bool" where
  "links B a [] z = (b_next (B a) = z \<and> b_prev (B z) = a)"
| "links B a (x # xs) z = (b_next (B a) = x \<and> b_prev (B x) = a \<and> links B x xs z)"

definition lru :: "(nat \<Rightarrow> buf) \<Rightarrow> nat list \<Rightarrow> bool" where
  "lru B bs \<longleftrightarrow> links B BHEAD bs BHEAD \<and> distinct bs \<and> set bs = {..<NBUF}"

lemma links_append: "links B a (xs @ y # ys) z \<longleftrightarrow> links B a xs y \<and> links B y ys z"
  by (induction xs arbitrary: a) auto

lemma links_cong:
  assumes "\<And>x. x \<in> insert a (set xs) \<Longrightarrow> b_next (B' x) = b_next (B x)"
    and "\<And>x. x \<in> insert z (set xs) \<Longrightarrow> b_prev (B' x) = b_prev (B x)"
  shows "links B' a xs z = links B a xs z"
  using assms by (induction xs arbitrary: a) auto

lemma links_ends:
  assumes "links B a xs z"
  shows "b_next (B a) = hd (xs @ [z])" "b_prev (B z) = last (a # xs)"
  using assms by (induction xs arbitrary: a) auto

lemma links_unlink:
  assumes "links B a (xs @ b # ys) z" "distinct (xs @ b # ys)" "a \<notin> set (xs @ b # ys)" "z \<notin> set (xs @ b # ys)"
  shows "links (unlink_buf b B) a (xs @ ys) z"
proof -
  have l: "links B a xs b" "links B b ys z" using assms(1) by (simp_all add: links_append)
  define p where "p = b_prev (B b)"
  define n where "n = b_next (B b)"
  have p: "p = last (a # xs)" and n: "n = hd (ys @ [z])" using links_ends [OF l(1)] links_ends [OF l(2)] by (auto simp: p_def n_def)
  have pn: "p \<noteq> b" "n \<noteq> b" using p n assms(2-4) by (cases xs rule: rev_cases; cases ys; auto)+
  have B': "b_next (unlink_buf b B x) = (if x = p then n else b_next (B x))"
    "b_prev (unlink_buf b B x) = (if x = n then p else b_prev (B x))" for x
    using pn by (auto simp: unlink_buf_def Let_def p_def n_def)
  have tail: "links (unlink_buf b B) p ys z" if "p \<notin> set ys" "p = a \<or> p \<in> set xs"
  proof (cases ys)
    case Nil
    then show ?thesis using B' n by simp
  next
    case (Cons y ys')
    have "links (unlink_buf b B) y ys' z = links B y ys' z"
      using Cons n that assms(2,4) by (intro links_cong) (auto simp: B')
    then show ?thesis using Cons l(2) B' n by simp
  qed
  show ?thesis
  proof (cases xs rule: rev_cases)
    case Nil
    then show ?thesis using tail p assms(3) by simp
  next
    case (snoc xs' x)
    then have x: "x = p" using p by simp
    have "links (unlink_buf b B) a xs' p = links B a xs' p"
      using snoc x n assms(2-4) by (intro links_cong) (auto simp: B' hd_append split: if_splits)
    then show ?thesis using tail snoc x l(1) assms(2) by (simp add: links_append)
  qed
qed

lemma links_front:
  assumes "links B BHEAD bs BHEAD" "b \<notin> set bs" "b \<noteq> BHEAD" "BHEAD \<notin> set bs" "distinct bs"
  shows "links (link_front b B) BHEAD (b # bs) BHEAD"
proof -
  define h where "h = b_next (B BHEAD)"
  have h: "h = hd (bs @ [BHEAD])" using links_ends(1) [OF assms(1)] by (simp add: h_def)
  have hb: "h \<noteq> b" using h assms(2,3) by (cases bs) auto
  have B': "b_next (link_front b B x) = (if x = BHEAD then b else if x = b then h else b_next (B x))"
    "b_prev (link_front b B x) = (if x = h then b else if x = b then BHEAD else b_prev (B x))" for x
    using hb assms(3) by (auto simp: link_front_def Let_def h_def)
  show ?thesis
  proof (cases bs)
    case Nil
    then show ?thesis using h B' hb assms(3) by simp
  next
    case (Cons y ys)
    have "links (link_front b B) y ys BHEAD = links B y ys BHEAD"
      using Cons h assms by (intro links_cong) (auto simp: B')
    then show ?thesis using Cons h B' assms by auto
  qed
qed

text \<open>Moving a buffer to the front, and what it leaves alone.\<close>

lemma lru_move:
  assumes "lru B bs" "b < NBUF"
  shows "lru (link_front b (unlink_buf b B)) (b # remove1 b bs)"
proof -
  obtain xs ys where bs: "bs = xs @ b # ys" using assms by (metis lru_def lessThan_iff split_list)
  have d: "distinct bs" "set bs = {..<NBUF}" "links B BHEAD bs BHEAD" using assms(1) by (auto simp: lru_def)
  have h: "BHEAD \<notin> set bs" using d(2) by (simp add: BHEAD_def)
  have b: "b \<notin> set xs" "b \<notin> set ys" "distinct (xs @ ys)" "b \<noteq> BHEAD" using d(1) bs assms(2) by (auto simp: BHEAD_def)
  have "links (unlink_buf b B) BHEAD (xs @ ys) BHEAD"
    using d bs h by (intro links_unlink) auto
  then have "links (link_front b (unlink_buf b B)) BHEAD (b # xs @ ys) BHEAD"
    using b h bs by (intro links_front) auto
  moreover have "remove1 b bs = xs @ ys" using b bs by (simp add: remove1_append)
  ultimately show ?thesis using d bs b by (auto simp: lru_def)
qed

definition same_buf :: "buf \<Rightarrow> buf \<Rightarrow> bool" where
  "same_buf q q' \<longleftrightarrow> b_valid q' = b_valid q \<and> b_disk q' = b_disk q \<and> b_dev q' = b_dev q \<and>
     b_blockno q' = b_blockno q \<and> b_refcnt q' = b_refcnt q \<and> b_data q' = b_data q"

lemma same_bufI [simp]: "same_buf q q" "same_buf q (q'\<lparr>b_prev := u\<rparr>) = same_buf q q'" "same_buf q (q'\<lparr>b_next := v\<rparr>) = same_buf q q'"
  by (simp_all add: same_buf_def)

lemma same_upd:
  "\<forall>x. same_buf (B x) (B' x) \<Longrightarrow> \<forall>x. same_buf (B x) ((B'(y := (B' y)\<lparr>b_prev := u\<rparr>)) x)"
  "\<forall>x. same_buf (B x) (B' x) \<Longrightarrow> \<forall>x. same_buf (B x) ((B'(y := (B' y)\<lparr>b_next := v\<rparr>)) x)"
  by simp_all

lemma same_move: "same_buf (B x) (link_front b (unlink_buf b B) x)"
proof -
  have "\<forall>x. same_buf (B x) (unlink_buf b B x)"
    unfolding unlink_buf_def Let_def by (intro same_upd) simp
  then have "\<forall>x. same_buf (B x) (link_front b (unlink_buf b B) x)"
    unfolding link_front_def [of b "unlink_buf b B"] Let_def by (intro same_upd)
  then show ?thesis by blast
qed

section \<open>Searching the list\<close>

lemma find_Some_split:
  "find P xs = Some x \<Longrightarrow> \<exists>us vs. xs = us @ x # vs \<and> P x \<and> (\<forall>u \<in> set us. \<not> P u)"
  by (auto simp: find_Some_iff) (metis Cons_nth_drop_Suc append_take_drop_id in_set_conv_nth length_take min_less_iff_conj nth_take)

lemma scan_list:
  assumes "\<And>b. b \<in> set xs \<Longrightarrow> \<not> P b \<Longrightarrow> c (b, None) s e = Ok (nx b, None) s e"
    and "BHEAD \<notin> set xs" "successively (\<lambda>a b. b = nx a) (xs @ [BHEAD])"
  shows "whileM (\<lambda>(b, r) _. r = None \<and> b \<noteq> BHEAD) c (hd (xs @ [BHEAD]), None) s e =
    (case find P xs of
       None \<Rightarrow> Ok (BHEAD, None) s e
     | Some b \<Rightarrow> bind (c (b, None)) (whileM (\<lambda>(b, r) _. r = None \<and> b \<noteq> BHEAD) c) s e)"
  using assms
proof (induction xs)
  case Nil
  then show ?case by (simp add: whileM_stop)
next
  case (Cons x xs)
  have nx: "hd (xs @ [BHEAD]) = nx x" "successively (\<lambda>a b. b = nx a) (xs @ [BHEAD])"
    using Cons.prems(3) by (cases xs; auto)+
  show ?case
  proof (cases "P x")
    case True
    then show ?thesis using Cons.prems(2) by (subst whileM_unfold) simp
  next
    case False
    then have "whileM (\<lambda>(b, r) _. r = None \<and> b \<noteq> BHEAD) c (x, None) s e =
        whileM (\<lambda>(b, r) _. r = None \<and> b \<noteq> BHEAD) c (hd (xs @ [BHEAD]), None) s e"
      using Cons.prems(1,2) nx by (subst whileM_unfold) simp
    then show ?thesis using Cons False nx by simp
  qed
qed

lemma links_successively:
  "links B a xs z \<Longrightarrow> successively (\<lambda>a b. b = b_next (B a)) (xs @ [z])"
  "links B a xs z \<Longrightarrow> successively (\<lambda>a b. b = b_prev (B a)) (rev xs @ [a])"
proof -
  show "links B a xs z \<Longrightarrow> successively (\<lambda>a b. b = b_next (B a)) (xs @ [z])"
  proof (induction xs arbitrary: a)
    case (Cons x xs)
    then show ?case by (cases xs) auto
  qed simp
  show "links B a xs z \<Longrightarrow> successively (\<lambda>a b. b = b_prev (B a)) (rev xs @ [a])"
  proof (induction xs arbitrary: a)
    case (Cons x xs)
    then have "successively (\<lambda>a b. b = b_prev (B a)) (rev xs @ [x])" "b_prev (B x) = a" by auto
    then show ?case by (auto simp: successively_append_iff)
  qed simp
qed

section \<open>The cache as a function of the block number\<close>

definition idx :: "uint \<Rightarrow> (nat \<Rightarrow> buf) \<Rightarrow> uint \<Rightarrow> nat option" where
  "idx d B bno = find (\<lambda>b. b_dev (B b) = d \<and> b_blockno (B b) = bno) [0..<NBUF]"

text \<open>A block number at or above \<open>2 ^ 31\<close> has no sector of its own.\<close>

definition content :: "uint \<Rightarrow> 'm bmach_scheme \<Rightarrow> uint \<Rightarrow> uchar list" where
  "content d s bno =
     (if 2 ^ 31 \<le> unat bno then [] else
      case idx d (bufs s) bno of
        Some b \<Rightarrow> if b_valid (bufs s b) then b_data (bufs s b) else get_block (sector_of bno) (sectors s)
      | None \<Rightarrow> get_block (sector_of bno) (sectors s))"

definition refs :: "uint \<Rightarrow> 'm bmach_scheme \<Rightarrow> uint \<Rightarrow> nat" where
  "refs d s bno = (case idx d (bufs s) bno of Some b \<Rightarrow> unat (b_refcnt (bufs s b)) | None \<Rightarrow> 0)"

definition block_locked :: "uint \<Rightarrow> 'm bmach_scheme \<Rightarrow> uint \<Rightarrow> bool" where
  "block_locked d s bno = (case idx d (bufs s) bno of Some b \<Rightarrow> sl_locked (sleeplocks s (SL_buf b)) | None \<Rightarrow> False)"

definition uniq_keys :: "uint \<Rightarrow> (nat \<Rightarrow> buf) \<Rightarrow> bool" where
  "uniq_keys d B \<longleftrightarrow> (\<forall>i < NBUF. \<forall>j < NBUF. b_dev (B i) = d \<longrightarrow> b_dev (B j) = d \<longrightarrow> b_blockno (B i) = b_blockno (B j) \<longrightarrow> i = j)"

definition buf_ok :: "uint \<Rightarrow> (nat \<Rightarrow> uchar list) \<Rightarrow> bool \<Rightarrow> buf \<Rightarrow> bool" where
  "buf_ok d sec lkd q \<longleftrightarrow> length (b_data q) = BSIZE \<and> \<not> b_disk q \<and> (b_refcnt q \<noteq> 0 \<longrightarrow> b_dev q = d) \<and>
     (b_refcnt q = 0 \<longrightarrow> b_dev q = d \<longrightarrow> b_valid q \<longrightarrow> b_data q = get_block (sector_of (b_blockno q)) sec) \<and>
     (lkd \<longrightarrow> b_refcnt q \<noteq> 0) \<and> (b_dev q = d \<longrightarrow> unat (b_blockno q) < 2 ^ 31)"

definition bio_inv :: "uint \<Rightarrow> 'm bmach_scheme \<Rightarrow> bool" where
  "bio_inv d s \<longleftrightarrow> (\<exists>bs. lru (bufs s) bs) \<and> uniq_keys d (bufs s) \<and>
     (\<forall>i < NBUF. buf_ok d (sectors s) (sl_locked (sleeplocks s (SL_buf i))) (bufs s i)) \<and>
     (\<forall>n. length (sectors s n) = 512) \<and> vd_idle (vdisk s)"

definition bio :: "uint \<Rightarrow> 'm bmach_scheme \<Rightarrow> (uint \<Rightarrow> uchar list) \<Rightarrow> (uint \<Rightarrow> nat) \<Rightarrow> (uint \<Rightarrow> bool) \<Rightarrow> bool" where
  "bio d s V R L \<longleftrightarrow> bio_inv d s \<and> content d s = V \<and> refs d s = R \<and> block_locked d s = L"

definition held :: "uint \<Rightarrow> nat \<Rightarrow> 'm bmach_scheme \<Rightarrow> nat \<Rightarrow> uint \<Rightarrow> bool" where
  "held d p s b bno \<longleftrightarrow> idx d (bufs s) bno = Some b \<and> b_valid (bufs s b) \<and>
     sl_locked (sleeplocks s (SL_buf b)) \<and> sl_pid (sleeplocks s (SL_buf b)) = pid (procs s p)"

lemma idx_Some:
  assumes "idx d B bno = Some b"
  shows "b < NBUF" "b_dev (B b) = d" "b_blockno (B b) = bno"
  using assms by (auto simp: idx_def find_Some_iff)

lemma idx_None: "idx d B bno = None \<longleftrightarrow> (\<forall>b < NBUF. \<not> (b_dev (B b) = d \<and> b_blockno (B b) = bno))"
  by (auto simp: idx_def find_None_iff)

lemma idx_eq:
  assumes "uniq_keys d B" "b < NBUF" "b_dev (B b) = d" "b_blockno (B b) = bno"
  shows "idx d B bno = Some b"
proof (cases "idx d B bno")
  case None
  then show ?thesis using assms by (auto simp: idx_None)
next
  case (Some c)
  then show ?thesis using assms idx_Some [OF Some] by (auto simp: uniq_keys_def)
qed

lemma find_unique:
  assumes "uniq_keys d B" "set bs = {..<NBUF}"
  shows "find (\<lambda>b. b_dev (B b) = d \<and> b_blockno (B b) = bno) bs = idx d B bno"
proof (cases "idx d B bno")
  case None
  then have "find (\<lambda>b. b_dev (B b) = d \<and> b_blockno (B b) = bno) bs = None"
    using assms(2) by (auto simp: idx_None find_None_iff)
  then show ?thesis using None by simp
next
  case (Some c)
  note c = idx_Some [OF Some]
  obtain b where b: "find (\<lambda>b. b_dev (B b) = d \<and> b_blockno (B b) = bno) bs = Some b"
    using c assms(2) by (cases "find (\<lambda>b. b_dev (B b) = d \<and> b_blockno (B b) = bno) bs") (auto simp: find_None_iff)
  then have "b < NBUF" "b_dev (B b) = d \<and> b_blockno (B b) = bno"
    using assms(2) by (auto simp: find_Some_iff)
  then show ?thesis using idx_eq [OF assms(1)] b Some by metis
qed

text \<open>Taking a buffer.\<close>

lemma calm_set_buf [simp]: "calm p (set_buf b f s) = calm p s"
  by (simp add: set_buf_def)

lemma calm_sl_taken [simp]: "calm p (sl_taken l n s) = calm p s"
  by (simp add: sl_taken_def)

lemma set_buf_simps [simp]:
  "set_buf b f (acquired lk s) = acquired lk (set_buf b f s)" "bufs (set_buf b f s) = (bufs s)(b := f (bufs s b))"
  "procs (set_buf b f s) = procs s" "sleeplocks (set_buf b f s) = sleeplocks s" "sectors (set_buf b f s) = sectors s"
  "vdisk (set_buf b f s) = vdisk s"
  by (simp_all add: set_buf_def)

lemma take_buf:
  assumes "calm p s" "\<not> sl_locked (sleeplocks s (SL_buf b))"
  shows "seq (modify (set_buf b f)) (seq (release L_bcache) (seq (acquiresleep (SL_buf b)) (ret x))) (acquired L_bcache s) e =
    Ok x (sl_taken (SL_buf b) (pid (procs s p)) (set_buf b f s)) e"
proof -
  have c: "calm p (set_buf b f s)" using assms(1) by simp
  have "acquiresleep (SL_buf b) (set_buf b f s) e = Ok () (sl_taken (SL_buf b) (pid (procs s p)) (set_buf b f s)) e"
    using acquiresleep_free [of "set_buf b f s" "SL_buf b" p e] calmD [OF c] assms by simp
  then show ?thesis using calmD [OF c] c by simp
qed

lemma bget_hit:
  assumes "calm p s" "lru (bufs s) bs" "uniq_keys d (bufs s)" "idx d (bufs s) bno = Some b"
    "\<not> sl_locked (sleeplocks s (SL_buf b))"
  shows "bget d bno s e = Ok b (sl_taken (SL_buf b) (pid (procs s p)) (set_buf b (\<lambda>q. q\<lparr>b_refcnt := b_refcnt q + 1\<rparr>) s)) e"
proof -
  have bs: "links (bufs s) BHEAD bs BHEAD" "set bs = {..<NBUF}" using assms(2) by (auto simp: lru_def)
  have f: "find (\<lambda>b. b_dev (bufs s b) = d \<and> b_blockno (bufs s b) = bno) bs = Some b"
    using find_unique [OF assms(3) bs(2)] assms(4) by simp
  let ?s = "acquired L_bcache s"
  let ?t = "sl_taken (SL_buf b) (pid (procs s p)) (set_buf b (\<lambda>q. q\<lparr>b_refcnt := b_refcnt q + 1\<rparr>) s)"
  have "whileM (\<lambda>(b, r) _. r = None \<and> b \<noteq> BHEAD) (bget_cached d bno) (hd (bs @ [BHEAD]), None) ?s e =
      bind (bget_cached d bno (b, None)) (whileM (\<lambda>(b, r) _. r = None \<and> b \<noteq> BHEAD) (bget_cached d bno)) ?s e"
    using bs links_successively(1) [OF bs(1)] f
    by (subst scan_list [where P = "\<lambda>b. b_dev (bufs s b) = d \<and> b_blockno (bufs s b) = bno" and nx = "\<lambda>b. b_next (bufs s b)"])
      (auto simp: bget_cached_def BHEAD_def)
  moreover have "bget_cached d bno (b, None) ?s e = Ok (b, Some b) ?t e"
    using idx_Some [OF assms(4)] take_buf [OF assms(1,5)] by (simp add: bget_cached_def)
  ultimately have "whileM (\<lambda>(b, r) _. r = None \<and> b \<noteq> BHEAD) (bget_cached d bno) (hd (bs @ [BHEAD]), None) ?s e = Ok (b, Some b) ?t e"
    by (simp add: whileM_stop)
  then show ?thesis
    using calmD [OF assms(1)] links_ends(1) [OF bs(1)] by (simp add: bget_def acquire_run)
qed

lemma bget_miss:
  assumes "calm p s" "lru (bufs s) bs" "uniq_keys d (bufs s)" "idx d (bufs s) bno = None"
    "find (\<lambda>b. b_refcnt (bufs s b) = 0) (rev bs) = Some b" "\<not> sl_locked (sleeplocks s (SL_buf b))"
  shows "bget d bno s e = Ok b (sl_taken (SL_buf b) (pid (procs s p))
    (set_buf b (\<lambda>q. q\<lparr>b_dev := d, b_blockno := bno, b_valid := False, b_refcnt := 1\<rparr>) s)) e"
proof -
  have bs: "links (bufs s) BHEAD bs BHEAD" "set bs = {..<NBUF}" using assms(2) by (auto simp: lru_def)
  have f: "find (\<lambda>b. b_dev (bufs s b) = d \<and> b_blockno (bufs s b) = bno) bs = None"
    using find_unique [OF assms(3) bs(2)] assms(4) by simp
  let ?s = "acquired L_bcache s"
  let ?t = "sl_taken (SL_buf b) (pid (procs s p)) (set_buf b (\<lambda>q. q\<lparr>b_dev := d, b_blockno := bno, b_valid := False, b_refcnt := 1\<rparr>) s)"
  have one: "whileM (\<lambda>(b, r) _. r = None \<and> b \<noteq> BHEAD) (bget_cached d bno) (hd (bs @ [BHEAD]), None) ?s e = Ok (BHEAD, None) ?s e"
    using bs links_successively(1) [OF bs(1)] f
    by (subst scan_list [where P = "\<lambda>b. b_dev (bufs s b) = d \<and> b_blockno (bufs s b) = bno" and nx = "\<lambda>b. b_next (bufs s b)"])
      (auto simp: bget_cached_def BHEAD_def)
  have "whileM (\<lambda>(b, r) _. r = None \<and> b \<noteq> BHEAD) (bget_recycle d bno) (hd (rev bs @ [BHEAD]), None) ?s e =
      bind (bget_recycle d bno (b, None)) (whileM (\<lambda>(b, r) _. r = None \<and> b \<noteq> BHEAD) (bget_recycle d bno)) ?s e"
    using bs links_successively(2) [OF bs(1)] assms(5)
    by (subst scan_list [where P = "\<lambda>b. b_refcnt (bufs s b) = 0" and nx = "\<lambda>b. b_prev (bufs s b)"])
      (auto simp: bget_recycle_def BHEAD_def)
  moreover have "b_refcnt (bufs s b) = 0" using assms(5) by (auto simp: find_Some_iff)
  then have "bget_recycle d bno (b, None) ?s e = Ok (b, Some b) ?t e"
    using take_buf [OF assms(1,6)] by (simp add: bget_recycle_def)
  ultimately have two: "whileM (\<lambda>(b, r) _. r = None \<and> b \<noteq> BHEAD) (bget_recycle d bno) (hd (rev bs @ [BHEAD]), None) ?s e = Ok (b, Some b) ?t e"
    by (simp add: whileM_stop)
  have "b_prev (bufs s BHEAD) = hd (rev bs @ [BHEAD])"
    using links_ends(2) [OF bs(1)] by (cases bs rule: rev_cases) auto
  then show ?thesis
    using calmD [OF assms(1)] links_ends(1) [OF bs(1)] one two by (simp add: bget_def acquire_run)
qed

section \<open>How the operations change the view\<close>

lemma idx_cong:
  assumes "\<And>i. i < NBUF \<Longrightarrow> b_dev (B' i) = b_dev (B i) \<and> b_blockno (B' i) = b_blockno (B i)"
  shows "idx d B' = idx d B"
proof
  fix bno
  show "idx d B' bno = idx d B bno" unfolding idx_def using assms by (intro find_cong) auto
qed

lemma uniq_keys_cong:
  assumes "\<And>i. i < NBUF \<Longrightarrow> b_dev (B' i) = b_dev (B i) \<and> b_blockno (B' i) = b_blockno (B i)"
  shows "uniq_keys d B' = uniq_keys d B"
  using assms by (auto simp: uniq_keys_def)

lemma links_upd:
  "b_prev q = b_prev (B b) \<Longrightarrow> b_next q = b_next (B b) \<Longrightarrow> links (B(b := q)) a xs z = links B a xs z"
  by (rule links_cong) auto

lemma lru_upd: "b_prev q = b_prev (B b) \<Longrightarrow> b_next q = b_next (B b) \<Longrightarrow> lru (B(b := q)) bs = lru B bs"
  by (simp add: lru_def links_upd)

text \<open>A change to one buffer that keeps its key.\<close>

lemma bio_update:
  assumes bio: "bio d s V R L" and b: "idx d (bufs s) bno = Some b"
    and key: "b_dev q = d" "b_blockno q = bno" "b_prev q = b_prev (bufs s b)" "b_next q = b_next (bufs s b)"
    and t: "bufs t = (bufs s)(b := q)" "sectors t = sectors s" "vd_idle (vdisk t)"
    and sl: "\<And>i. i \<noteq> b \<Longrightarrow> sl_locked (sleeplocks t (SL_buf i)) = sl_locked (sleeplocks s (SL_buf i))"
    and ok: "buf_ok d (sectors s) (sl_locked (sleeplocks t (SL_buf b))) q"
  shows "bio d t (V(bno := if 2 ^ 31 \<le> unat bno then [] else if b_valid q then b_data q else get_block (sector_of bno) (sectors s)))
    (R(bno := unat (b_refcnt q))) (L(bno := sl_locked (sleeplocks t (SL_buf b))))"
proof -
  have inv: "bio_inv d s" "content d s = V" "refs d s = R" "block_locked d s = L" using bio by (auto simp: bio_def)
  note bb = idx_Some [OF b]
  have keys: "b_dev (bufs t i) = b_dev (bufs s i) \<and> b_blockno (bufs t i) = b_blockno (bufs s i)" for i
    using t(1) key bb by auto
  have i: "idx d (bufs t) = idx d (bufs s)" and u: "uniq_keys d (bufs t) = uniq_keys d (bufs s)"
    using keys by (intro idx_cong uniq_keys_cong; blast)+
  have i2: "idx d ((bufs s)(b := q)) = idx d (bufs s)" using i t(1) by simp
  have other: "c \<noteq> b" if "idx d (bufs s) x = Some c" "x \<noteq> bno" for x c
    using idx_Some(3) [OF that(1)] bb(3) that(2) by auto
  have l: "lru (bufs t) bs = lru (bufs s) bs" for bs using t(1) key(3,4) by (simp add: lru_upd)
  have "buf_ok d (sectors t) (sl_locked (sleeplocks t (SL_buf c))) (bufs t c)" if "c < NBUF" for c
    using inv(1) ok sl [of c] t(1,2) that by (cases "c = b") (simp_all add: bio_inv_def)
  then have "bio_inv d t"
    using inv(1) t(2,3) u l by (simp add: bio_inv_def)
  moreover have "content d t x = (V(bno := if 2 ^ 31 \<le> unat bno then [] else if b_valid q then b_data q
      else get_block (sector_of bno) (sectors s))) x" for x
  proof (cases "x = bno")
    case True
    then show ?thesis using b t(1,2) by (simp add: content_def i2)
  next
    case False
    then have "content d t x = content d s x"
      using t(1,2) other [of x] by (cases "idx d (bufs s) x") (simp_all add: content_def i2)
    then show ?thesis using False inv(2) by simp
  qed
  moreover have "refs d t x = (R(bno := unat (b_refcnt q))) x" for x
  proof (cases "x = bno")
    case True
    then show ?thesis using b t(1) by (simp add: refs_def i2)
  next
    case False
    then have "refs d t x = refs d s x"
      using t(1) other [of x] by (cases "idx d (bufs s) x") (simp_all add: refs_def i2)
    then show ?thesis using False inv(3) by simp
  qed
  moreover have "block_locked d t x = (L(bno := sl_locked (sleeplocks t (SL_buf b)))) x" for x
  proof (cases "x = bno")
    case True
    then show ?thesis using b by (simp add: block_locked_def i i2)
  next
    case False
    then have "block_locked d t x = block_locked d s x"
      using sl other [of x] by (cases "idx d (bufs s) x") (simp_all add: block_locked_def i i2)
    then show ?thesis using False inv(4) by simp
  qed
  ultimately show ?thesis unfolding bio_def by blast
qed

text \<open>Giving an unused buffer to another block.\<close>

lemma idx_recycle:
  assumes "uniq_keys d B" "b < NBUF" "idx d B bno = None" "b_dev q = d" "b_blockno q = bno"
  shows "uniq_keys d (B(b := q))"
    "idx d (B(b := q)) x = (if x = bno then Some b else if idx d B x = Some b then None else idx d B x)"
proof -
  have none: "i < NBUF \<Longrightarrow> b_dev (B i) = d \<Longrightarrow> b_blockno (B i) \<noteq> bno" for i
    using assms(3) by (auto simp: idx_None)
  show u: "uniq_keys d (B(b := q))"
    unfolding uniq_keys_def
  proof (intro allI impI)
    fix i j assume i: "i < NBUF" "j < NBUF" "b_dev ((B(b := q)) i) = d" "b_dev ((B(b := q)) j) = d"
      "b_blockno ((B(b := q)) i) = b_blockno ((B(b := q)) j)"
    show "i = j"
    proof (cases "i = b")
      case True
      have "j = b"
      proof (rule ccontr)
        assume "j \<noteq> b"
        then show False using i True none [of j] assms(5) by simp
      qed
      then show ?thesis using True by simp
    next
      case ib: False
      have "j \<noteq> b"
      proof
        assume "j = b"
        then show False using i ib none [of i] assms(5) by simp
      qed
      then have "b_dev (B i) = d" "b_dev (B j) = d" "b_blockno (B i) = b_blockno (B j)" using i ib by simp_all
      then show ?thesis using i(1,2) assms(1) unfolding uniq_keys_def by blast
    qed
  qed
  have here: "idx d (B(b := q)) bno = Some b"
    using assms(4,5) by (intro idx_eq [OF u assms(2)]) simp_all
  have there: "idx d (B(b := q)) x = Some c" if "idx d B x = Some c" "c \<noteq> b" for c
    using idx_Some [OF that(1)] that(2) by (intro idx_eq [OF u]) simp_all
  have gone: "idx d (B(b := q)) x = None" if "x \<noteq> bno" "idx d B x = None \<or> idx d B x = Some b"
    unfolding idx_None
  proof (intro allI impI notI, elim conjE)
    fix i assume i: "i < NBUF" "b_dev ((B(b := q)) i) = d" "b_blockno ((B(b := q)) i) = x"
    have ib: "i \<noteq> b" using assms(5) that(1) i(3) by auto
    then have "idx d B x = Some i" using i by (intro idx_eq [OF assms(1)]) simp_all
    then show False using that(2) ib by simp
  qed
  show "idx d (B(b := q)) x = (if x = bno then Some b else if idx d B x = Some b then None else idx d B x)"
  proof (cases "x = bno")
    case True
    then show ?thesis using here by simp
  next
    case False
    then show ?thesis using gone there by (cases "idx d B x") auto
  qed
qed

lemma bio_recycle:
  assumes bio: "bio d s V R L" and b: "b < NBUF" "b_refcnt (bufs s b) = 0" "idx d (bufs s) bno = None" "unat bno < 2 ^ 31"
    and t: "t = sl_taken (SL_buf b) n (set_buf b (\<lambda>q. q\<lparr>b_dev := d, b_blockno := bno, b_valid := False, b_refcnt := 1\<rparr>) s)"
  shows "bio d t V (R(bno := 1)) (L(bno := True)) \<and> idx d (bufs t) bno = Some b"
proof -
  have inv: "bio_inv d s" "content d s = V" "refs d s = R" "block_locked d s = L" using bio by (auto simp: bio_def)
  let ?q = "(bufs s b)\<lparr>b_dev := d, b_blockno := bno, b_valid := False, b_refcnt := 1\<rparr>"
  have u: "uniq_keys d (bufs s)" and ok: "buf_ok d (sectors s) (sl_locked (sleeplocks s (SL_buf b))) (bufs s b)"
    using inv(1) b(1) by (auto simp: bio_inv_def)
  have tb: "bufs t = (bufs s)(b := ?q)" "sectors t = sectors s" "vdisk t = vdisk s"
    "\<And>i. sl_locked (sleeplocks t (SL_buf i)) = (i = b \<or> sl_locked (sleeplocks s (SL_buf i)))"
    using t by (auto simp: sl_taken_def set_sleeplock_def)
  note rc = idx_recycle [OF u b(1,3), of ?q, simplified]
  have i: "idx d (bufs t) x = (if x = bno then Some b else if idx d (bufs s) x = Some b then None else idx d (bufs s) x)" for x
    unfolding tb(1) by (rule rc(2))
  have old: "b_dev (bufs s b) = d \<longrightarrow> b_valid (bufs s b) \<longrightarrow> b_data (bufs s b) = get_block (sector_of (b_blockno (bufs s b))) (sectors s)"
    "\<not> sl_locked (sleeplocks s (SL_buf b))" using ok b(2) by (auto simp: buf_ok_def)
  have "bio_inv d t"
    using inv(1) ok tb rc(1) b(4) unfolding bio_inv_def by (auto simp: lru_upd buf_ok_def)
  moreover have "content d t x = V x" for x
  proof -
    have "content d t x = content d s x"
      using i [of x] tb b old idx_Some(2,3) [of d "bufs s" x] by (auto simp: content_def split: option.splits)
    then show ?thesis using inv(2) by simp
  qed
  moreover have "refs d t x = (R(bno := 1)) x" for x
    unfolding inv(3) [symmetric] using i [of x] tb b by (auto simp: refs_def split: option.splits)
  moreover have "block_locked d t x = (L(bno := True)) x" for x
    unfolding inv(4) [symmetric] using i [of x] tb old(2) by (auto simp: block_locked_def split: option.splits)
  ultimately show ?thesis using i [of bno] by (auto simp: bio_def fun_eq_iff)
qed

section \<open>Frames and crashes\<close>

text \<open>The parts of the machine the cache and the disk driver change.\<close>

definition bframe :: "'m bmach_scheme \<Rightarrow> 'm bmach_scheme \<Rightarrow> bool" where
  "bframe s t \<longleftrightarrow> t = s\<lparr>sleeplocks := sleeplocks t, vmmio := vmmio t, vdisk := vdisk t, bufs := bufs t, sectors := sectors t\<rparr>"

lemma bframe_refl [simp]: "bframe s s"
  by (simp add: bframe_def)

lemma bframe_trans:
  assumes "bframe s t" "bframe t u"
  shows "bframe s u"
proof -
  obtain a1 a2 a3 a4 a5 where t: "t = s\<lparr>sleeplocks := a1, vmmio := a2, vdisk := a3, bufs := a4, sectors := a5\<rparr>"
    using assms(1) unfolding bframe_def by blast
  obtain b1 b2 b3 b4 b5 where u: "u = t\<lparr>sleeplocks := b1, vmmio := b2, vdisk := b3, bufs := b4, sectors := b5\<rparr>"
    using assms(2) unfolding bframe_def by blast
  have "u = s\<lparr>sleeplocks := b1, vmmio := b2, vdisk := b3, bufs := b4, sectors := b5\<rparr>"
    unfolding u t by (rule bmach.equality) simp_all
  then show ?thesis by (simp add: bframe_def)
qed

lemma bframeI [intro]:
  "bframe s (set_buf b f s)" "bframe s (sl_taken l n s)"
  "bframe s (s\<lparr>vmmio := a2, bufs := a4, sectors := a5, vdisk := a3\<rparr>)" "bframe s (s\<lparr>bufs := a4\<rparr>)"
  "bframe s (set_sleeplock l g s)"
  by (simp_all add: bframe_def set_buf_def sl_taken_def set_sleeplock_def)

lemma bframeD:
  assumes "bframe s t"
  shows "calm p t = calm p s" "procs t = procs s" "mem t = mem s" "klocal t = klocal s" "cons t = cons s"
    "freelist t = freelist s" "kend t = kend s" "uart t = uart s" "bmach.more t = bmach.more s" "locks t = locks s"
    "pr_locking t = pr_locking s" "panicked t = panicked s" "cpus t = cpus s"
proof -
  obtain a1 a2 a3 a4 a5 where t: "t = s\<lparr>sleeplocks := a1, vmmio := a2, vdisk := a3, bufs := a4, sectors := a5\<rparr>"
    using assms(1) unfolding bframe_def by blast
  show "calm p t = calm p s" "procs t = procs s" "mem t = mem s" "klocal t = klocal s" "cons t = cons s"
    "freelist t = freelist s" "kend t = kend s" "uart t = uart s" "bmach.more t = bmach.more s" "locks t = locks s"
    "pr_locking t = pr_locking s" "panicked t = panicked s" "cpus t = cpus s"
    unfolding t by simp_all
qed

text \<open>
  What a crash can leave on the disk: of a block that is being written, each of the
  two sectors may be old or new.
\<close>

definition torn_block :: "nat \<Rightarrow> uchar list \<Rightarrow> (nat \<Rightarrow> uchar list) \<Rightarrow> (nat \<Rightarrow> uchar list) set" where
  "torn_block n bs sec = {sec, sec(n := take 512 bs), sec(n + 1 := drop 512 bs), put_block n bs sec}"

definition torn :: "'m bmach_scheme \<Rightarrow> (nat \<Rightarrow> uchar list) set" where
  "torn s = (case request (vdisk s) of
       Some (h, i, b, j) \<Rightarrow>
         if req_type (ops (vdisk s) i) = VIRTIO_BLK_T_OUT
         then torn_block (unat (req_sector (ops (vdisk s) i))) (b_data (bufs s b)) (sectors s) else {sectors s}
     | None \<Rightarrow> {sectors s})"

lemma torn_asked:
  assumes "vd_idle (vdisk s)"
  shows "torn (acquired lk (asleep ch p (asked b wr s))) =
    (if wr then torn_block (sector_of (b_blockno (bufs s b))) (b_data (bufs s b)) (sectors s) else {sectors s})"
  using asked_request [OF assms, of b wr]
  by (cases wr) (simp_all add: torn_def VIRTIO_BLK_T_IN_def VIRTIO_BLK_T_OUT_def)

section \<open>bread, bwrite, brelse\<close>

lemma bio_busy:
  assumes "bio d s V R L"
  shows "card {i. i < NBUF \<and> b_refcnt (bufs s i) \<noteq> 0} = card {x. R x \<noteq> 0}" "finite {x. R x \<noteq> 0}"
proof -
  have inv: "bio_inv d s" "refs d s = R" using assms by (auto simp: bio_def)
  have u: "uniq_keys d (bufs s)" and dv: "\<And>i. i < NBUF \<Longrightarrow> b_refcnt (bufs s i) \<noteq> 0 \<Longrightarrow> b_dev (bufs s i) = d"
    using inv(1) by (auto simp: bio_inv_def buf_ok_def)
  have im: "{x. R x \<noteq> 0} = (\<lambda>i. b_blockno (bufs s i)) ` {i. i < NBUF \<and> b_refcnt (bufs s i) \<noteq> 0}" (is "?A = ?f ` ?B")
  proof
    show "?A \<subseteq> ?f ` ?B"
    proof
      fix x assume "x \<in> ?A"
      then obtain b where b: "idx d (bufs s) x = Some b" "b_refcnt (bufs s b) \<noteq> 0"
        unfolding inv(2) [symmetric] by (cases "idx d (bufs s) x") (auto simp: refs_def unat_gt_0)
      then show "x \<in> ?f ` ?B" using idx_Some [OF b(1)] by auto
    qed
    show "?f ` ?B \<subseteq> ?A"
    proof
      fix x assume "x \<in> ?f ` ?B"
      then obtain i where i: "i < NBUF" "b_refcnt (bufs s i) \<noteq> 0" "b_blockno (bufs s i) = x" by auto
      then have "idx d (bufs s) x = Some i" using dv u by (intro idx_eq) auto
      then show "x \<in> ?A" unfolding inv(2) [symmetric] using i by (simp add: refs_def unat_gt_0)
    qed
  qed
  have "inj_on ?f ?B" using u dv by (auto simp: inj_on_def uniq_keys_def)
  then show "card ?B = card ?A" unfolding im by (simp add: card_image)
  show "finite ?A" unfolding im by simp
qed

lemma free_buffer:
  assumes "bio d s V R L" "lru (bufs s) bs" "card {x. R x \<noteq> 0} < NBUF"
  shows "\<exists>b. find (\<lambda>b. b_refcnt (bufs s b) = 0) (rev bs) = Some b \<and> b < NBUF \<and> b_refcnt (bufs s b) = 0 \<and>
    \<not> sl_locked (sleeplocks s (SL_buf b))"
proof -
  have "\<exists>i < NBUF. b_refcnt (bufs s i) = 0"
  proof (rule ccontr)
    assume "\<not> ?thesis"
    then have "{i. i < NBUF \<and> b_refcnt (bufs s i) \<noteq> 0} = {..<NBUF}" by auto
    then show False using bio_busy(1) [OF assms(1)] assms(3) by simp
  qed
  moreover have set: "set bs = {..<NBUF}" using assms(2) by (simp add: lru_def)
  ultimately obtain b where b: "find (\<lambda>b. b_refcnt (bufs s b) = 0) (rev bs) = Some b"
    by (cases "find (\<lambda>b. b_refcnt (bufs s b) = 0) (rev bs)") (auto simp: find_None_iff)
  have fb: "b \<in> set bs" "b_refcnt (bufs s b) = 0"
    using b by (auto simp: find_Some_iff) (metis nth_mem set_rev length_rev)
  moreover from fb have "\<not> sl_locked (sleeplocks s (SL_buf b))"
    using assms(1) set by (auto simp: bio_def bio_inv_def buf_ok_def)
  ultimately show ?thesis using b set by auto
qed

lemma refs_eq: "bio d s V R L \<Longrightarrow> idx d (bufs s) bno = Some b \<Longrightarrow> R bno = unat (b_refcnt (bufs s b))"
  by (auto simp: bio_def refs_def)

lemma refs_None: "bio d s V R L \<Longrightarrow> idx d (bufs s) bno = None \<Longrightarrow> R bno = 0"
  by (auto simp: bio_def refs_def)

lemma locked_eq: "bio d s V R L \<Longrightarrow> idx d (bufs s) bno = Some b \<Longrightarrow> L bno = sl_locked (sleeplocks s (SL_buf b))"
  by (auto simp: bio_def block_locked_def)

lemma buf_okD:
  assumes "bio d s V R L" "i < NBUF"
  shows "buf_ok d (sectors s) (sl_locked (sleeplocks s (SL_buf i))) (bufs s i)"
  using assms by (simp add: bio_def bio_inv_def)

lemma content_eq:
  assumes "bio d s V R L" "idx d (bufs s) bno = Some b" "unat bno < 2 ^ 31"
  shows "V bno = (if b_valid (bufs s b) then b_data (bufs s b) else get_block (sector_of bno) (sectors s))"
  using assms by (auto simp: bio_def content_def)

lemma unat_inc: "unat (x :: uint) < 2 ^ 32 - 1 \<Longrightarrow> unat (x + 1) = Suc (unat x)"
  by (subst unat_word_ariths) simp

lemma bget_spec:
  assumes "calm p s" "bio d s V R L" "\<not> L bno" "card {x. R x \<noteq> 0} < NBUF \<or> R bno \<noteq> 0" "R bno < 2 ^ 32 - 1" "unat bno < 2 ^ 31"
  shows "\<exists>b t. (\<forall>e. bget d bno s e = Ok b t e) \<and> bio d t V (R(bno := Suc (R bno))) (L(bno := True)) \<and>
    idx d (bufs t) bno = Some b \<and> sl_locked (sleeplocks t (SL_buf b)) \<and> sl_pid (sleeplocks t (SL_buf b)) = pid (procs t p) \<and>
    bframe s t \<and> sectors t = sectors s \<and> (\<forall>b' x. held d p s b' x \<longrightarrow> held d p t b' x)"
proof -
  obtain bs where bs: "lru (bufs s) bs" and u: "uniq_keys d (bufs s)" and vd: "vd_idle (vdisk s)"
    using assms(2) by (auto simp: bio_def bio_inv_def)
  show ?thesis
  proof (cases "idx d (bufs s) bno")
    case (Some b)
    let ?q = "(bufs s b)\<lparr>b_refcnt := b_refcnt (bufs s b) + 1\<rparr>"
    let ?t = "sl_taken (SL_buf b) (pid (procs s p)) (set_buf b (\<lambda>q. q\<lparr>b_refcnt := b_refcnt q + 1\<rparr>) s)"
    have nl: "\<not> sl_locked (sleeplocks s (SL_buf b))" using assms(3) locked_eq [OF assms(2) Some] by simp
    have R: "R bno = unat (b_refcnt (bufs s b))" using refs_eq [OF assms(2) Some] .
    note i = idx_Some [OF Some]
    have n: "unat (b_refcnt (bufs s b) + 1) = Suc (R bno)" using assms(5) R by (simp add: unat_inc)
    then have nz: "b_refcnt (bufs s b) + 1 \<noteq> 0" by (metis nat.distinct(1) unat_0)
    have ok: "buf_ok d (sectors s) (sl_locked (sleeplocks ?t (SL_buf b))) ?q"
      using buf_okD [OF assms(2) i(1)] nz i(2) by (simp add: buf_ok_def)
    have "bio d ?t (V(bno := if 2 ^ 31 \<le> unat bno then [] else if b_valid ?q then b_data ?q else get_block (sector_of bno) (sectors s)))
      (R(bno := unat (b_refcnt ?q))) (L(bno := sl_locked (sleeplocks ?t (SL_buf b))))"
      using i vd by (intro bio_update [OF assms(2) Some _ _ _ _ _ _ _ _ ok]) (simp_all add: sl_taken_def set_sleeplock_def)
    moreover have "V bno = (if b_valid ?q then b_data ?q else get_block (sector_of bno) (sectors s))"
      using content_eq [OF assms(2) Some assms(6)] by simp
    ultimately have "bio d ?t V (R(bno := Suc (R bno))) (L(bno := True))"
      using n assms(6) by (simp add: sl_taken_def set_sleeplock_def fun_upd_idem)
    moreover have "idx d (bufs ?t) = idx d (bufs s)"
      by (rule idx_cong) (simp add: sl_taken_def set_sleeplock_def)
    moreover have "held d p ?t b' x" if "held d p s b' x" for b' x
      using that nl \<open>idx d (bufs ?t) = idx d (bufs s)\<close> by (auto simp: held_def sl_taken_def set_sleeplock_def)
    moreover have "\<forall>e. bget d bno s e = Ok b ?t e" using bget_hit [OF assms(1) bs u Some nl] by blast
    moreover have "bframe s ?t" by (rule bframe_trans [OF bframeI(1)]) (rule bframeI(2))
    ultimately show ?thesis using Some by (intro exI [of _ b] exI [of _ ?t]) (simp add: sl_taken_def set_sleeplock_def)
  next
    case None
    have R: "R bno = 0" using refs_None [OF assms(2) None] .
    then obtain b where b: "find (\<lambda>b. b_refcnt (bufs s b) = 0) (rev bs) = Some b" "b < NBUF" "b_refcnt (bufs s b) = 0"
      "\<not> sl_locked (sleeplocks s (SL_buf b))"
      using free_buffer [OF assms(2) bs] assms(4) by auto
    let ?t = "sl_taken (SL_buf b) (pid (procs s p)) (set_buf b (\<lambda>q. q\<lparr>b_dev := d, b_blockno := bno, b_valid := False, b_refcnt := 1\<rparr>) s)"
    have r: "bio d ?t V (R(bno := 1)) (L(bno := True)) \<and> idx d (bufs ?t) bno = Some b"
      by (rule bio_recycle [OF assms(2) b(2,3) None assms(6) refl])
    have "held d p ?t b' x" if "held d p s b' x" for b' x
    proof -
      have "b' \<noteq> b" using that b(4) by (auto simp: held_def)
      moreover have "idx d (bufs ?t) x = Some b'"
        using that idx_recycle(2) [OF u b(2) None, of "(bufs s b)\<lparr>b_dev := d, b_blockno := bno, b_valid := False, b_refcnt := 1\<rparr>" x]
          \<open>b' \<noteq> b\<close> None by (auto simp: held_def sl_taken_def set_sleeplock_def)
      ultimately show ?thesis using that by (simp add: held_def sl_taken_def set_sleeplock_def)
    qed
    moreover have "\<forall>e. bget d bno s e = Ok b ?t e" using bget_miss [OF assms(1) bs u None b(1,4)] by blast
    moreover have "bframe s ?t" by (rule bframe_trans [OF bframeI(1)]) (rule bframeI(2))
    ultimately show ?thesis using r R by (intro exI [of _ b] exI [of _ ?t]) (simp add: sl_taken_def set_sleeplock_def)
  qed
qed

lemma bread_spec:
  assumes "calm p s" "bio d s V R L" "virtio_blk dev" "\<not> L bno" "card {x. R x \<noteq> 0} < NBUF \<or> R bno \<noteq> 0"
    and "R bno < 2 ^ 32 - 1" "unat bno < 2 ^ 31" "\<And>t. torn t = {sectors s} \<Longrightarrow> C t"
  shows "disk_run (serve dev p) 1 (bread d bno) s C (\<lambda>b t. held d p t b bno \<and> bio d t V (R(bno := Suc (R bno))) (L(bno := True)) \<and>
    bframe s t \<and> sectors t = sectors s \<and> (\<forall>b' x. held d p s b' x \<longrightarrow> held d p t b' x))"
proof -
  obtain b t where t: "\<And>e. bget d bno s e = Ok b t e" "bio d t V (R(bno := Suc (R bno))) (L(bno := True))"
    "idx d (bufs t) bno = Some b" "sl_locked (sleeplocks t (SL_buf b))" "sl_pid (sleeplocks t (SL_buf b)) = pid (procs t p)"
    "bframe s t" "sectors t = sectors s" "\<forall>b' x. held d p s b' x \<longrightarrow> held d p t b' x"
    using bget_spec [OF assms(1,2,4-7)] by blast
  have c: "calm p t" using bframeD(1) [OF t(6)] assms(1) by simp
  have vd: "vd_idle (vdisk t)" using t(2) by (simp add: bio_def bio_inv_def)
  note i = idx_Some [OF t(3)]
  show ?thesis
  proof (cases "b_valid (bufs t b)")
    case True
    then have "held d p t b bno" using t(3-5) by (simp add: held_def)
    then show ?thesis
      using True t(2,6-8) unfolding bread_def by (intro disk_run_bind_eq [where x = b and t = t] t(1)) simp
  next
    case False
    have rd: "disk_run (serve dev p) 1 (virtio_disk_rw b False) t C (\<lambda>_ u. \<exists>M V'. vd_idle V' \<and>
        u = t\<lparr>vmmio := M, bufs := done_bufs False b (sector_of bno) (bufs t) (sectors t), sectors := sectors t, vdisk := V'\<rparr>)"
      using i torn_asked [OF vd, of _ _ _ b False] t(7) assms(8)
      by (intro disk_run_rw [OF c vd assms(3) refl]) (auto simp: done_sectors_def)
    have "disk_run (serve dev p) (1 + 0) (seq (virtio_disk_rw b False) (seq (modify (set_buf b (\<lambda>q. q\<lparr>b_valid := True\<rparr>))) (ret b))) t C
       (\<lambda>b t. held d p t b bno \<and> bio d t V (R(bno := Suc (R bno))) (L(bno := True)) \<and>
        bframe s t \<and> sectors t = sectors s \<and> (\<forall>b' x. held d p s b' x \<longrightarrow> held d p t b' x))"
    proof (rule disk_run_seq, rule disk_run_conseq [OF rd], elim exE conjE)
      fix x u M V' assume V': "vd_idle V'"
        and u: "u = t\<lparr>vmmio := M, bufs := done_bufs False b (sector_of bno) (bufs t) (sectors t), sectors := sectors t, vdisk := V'\<rparr>"
      let ?q = "(bufs t b)\<lparr>b_data := get_block (sector_of bno) (sectors t), b_disk := False, b_valid := True\<rparr>"
      let ?u = "set_buf b (\<lambda>q. q\<lparr>b_valid := True\<rparr>) u"
      have B: "bufs ?u = (bufs t)(b := ?q)" by (simp add: u done_bufs_def)
      have len: "length (get_block (sector_of bno) (sectors t)) = BSIZE"
        using t(2) by (simp add: bio_def bio_inv_def get_block_def BSIZE_def)
      have R: "b_refcnt (bufs t b) \<noteq> 0" using refs_eq [OF t(2,3)] by auto
      have ok: "buf_ok d (sectors t) (sl_locked (sleeplocks ?u (SL_buf b))) ?q"
        using buf_okD [OF t(2) i(1)] len R by (simp add: buf_ok_def)
      have "bio d ?u (V(bno := if 2 ^ 31 \<le> unat bno then [] else if b_valid ?q then b_data ?q else get_block (sector_of bno) (sectors t)))
        ((R(bno := Suc (R bno)))(bno := unat (b_refcnt ?q))) ((L(bno := True))(bno := sl_locked (sleeplocks ?u (SL_buf b))))"
        using i V' by (intro bio_update [OF t(2,3) _ _ _ _ B _ _ _ ok]) (simp_all add: u)
      moreover have "V bno = get_block (sector_of bno) (sectors t)"
        using content_eq [OF t(2,3) assms(7)] False by simp
      moreover have "unat (b_refcnt ?q) = Suc (R bno)" using refs_eq [OF t(2,3)] by simp
      ultimately have bio: "bio d ?u V (R(bno := Suc (R bno))) (L(bno := True))"
        using assms(7) t(4) by (simp add: u fun_upd_idem)
      have ix: "idx d (bufs ?u) = idx d (bufs t)" unfolding B by (rule idx_cong) simp
      have hd: "held d p ?u b bno" using t(3-5) ix by (simp add: held_def u)
      moreover have "held d p ?u b' x" if "held d p s b' x" for b' x
        using t(8) that ix by (auto simp: held_def u B done_bufs_def)
      moreover have "bframe s ?u"
        using bframe_trans [OF t(6) bframe_trans [OF bframeI(3) bframeI(1)]] unfolding u .
      ultimately show "disk_run (serve dev p) 0 (seq (modify (set_buf b (\<lambda>q. q\<lparr>b_valid := True\<rparr>))) (ret b)) u C
       (\<lambda>b t. held d p t b bno \<and> bio d t V (R(bno := Suc (R bno))) (L(bno := True)) \<and>
        bframe s t \<and> sectors t = sectors s \<and> (\<forall>b' x. held d p s b' x \<longrightarrow> held d p t b' x))"
        using bio t(7) by (simp add: u)
    qed
    then show ?thesis
      using False unfolding bread_def by (intro disk_run_bind_eq [where x = b and t = t] t(1)) simp
  qed
qed

lemma heldD:
  assumes "held d p s b bno" "bio d s V R L"
  shows "idx d (bufs s) bno = Some b" "b < NBUF" "b_dev (bufs s b) = d" "b_blockno (bufs s b) = bno" "b_valid (bufs s b)"
    "sl_locked (sleeplocks s (SL_buf b))" "L bno" "R bno = unat (b_refcnt (bufs s b))" "R bno \<noteq> 0"
    "length (b_data (bufs s b)) = BSIZE" "unat bno < 2 ^ 31 \<Longrightarrow> V bno = b_data (bufs s b)"
proof -
  show i: "idx d (bufs s) bno = Some b" "b_valid (bufs s b)" "sl_locked (sleeplocks s (SL_buf b))"
    using assms(1) by (simp_all add: held_def)
  show b: "b < NBUF" "b_dev (bufs s b) = d" "b_blockno (bufs s b) = bno" using idx_Some [OF i(1)] by auto
  show "L bno" using locked_eq [OF assms(2) i(1)] i(3) by simp
  show R: "R bno = unat (b_refcnt (bufs s b))" using refs_eq [OF assms(2) i(1)] .
  have "b_refcnt (bufs s b) \<noteq> 0" using buf_okD [OF assms(2) b(1)] i(3) by (simp add: buf_ok_def)
  then show "R bno \<noteq> 0" using R by (simp add: unat_gt_0)
  show "length (b_data (bufs s b)) = BSIZE" using buf_okD [OF assms(2) b(1)] by (simp add: buf_ok_def)
  show "unat bno < 2 ^ 31 \<Longrightarrow> V bno = b_data (bufs s b)" using content_eq [OF assms(2) i(1)] i(2) by simp
qed

text \<open>Changing the data of a held buffer.\<close>

lemma set_data_spec:
  assumes "held d p s b bno" "bio d s V R L" "length (g (b_data (bufs s b))) = BSIZE" "unat bno < 2 ^ 31"
    and t: "t = set_buf b (\<lambda>q. q\<lparr>b_data := g (b_data q)\<rparr>) s"
  shows "bio d t (V(bno := g (V bno))) R L" "held d p t b' x = held d p s b' x" "bframe s t" "sectors t = sectors s"
proof -
  note h = heldD [OF assms(1,2)]
  let ?q = "(bufs s b)\<lparr>b_data := g (b_data (bufs s b))\<rparr>"
  have "b_refcnt (bufs s b) \<noteq> 0" using h(8,9) by auto
  then have ok: "buf_ok d (sectors s) (sl_locked (sleeplocks t (SL_buf b))) ?q"
    using buf_okD [OF assms(2) h(2)] assms(3) t by (simp add: buf_ok_def)
  have "bio d t (V(bno := if 2 ^ 31 \<le> unat bno then [] else if b_valid ?q then b_data ?q else get_block (sector_of bno) (sectors s)))
      (R(bno := unat (b_refcnt ?q))) (L(bno := sl_locked (sleeplocks t (SL_buf b))))"
    using h assms(2) by (intro bio_update [OF assms(2) h(1) _ _ _ _ _ _ _ _ ok]) (simp_all add: t bio_def bio_inv_def)
  then show "bio d t (V(bno := g (V bno))) R L" using h assms(4) t by (simp add: fun_upd_idem)
  have "idx d (bufs t) = idx d (bufs s)" by (rule idx_cong) (simp add: t)
  then show "held d p t b' x = held d p s b' x" using t by (auto simp: held_def)
  show "bframe s t" unfolding t by (rule bframeI(1))
  show "sectors t = sectors s" using t by simp
qed

lemma holdingsleep_calm:
  assumes "calm p s" "held d p s b bno"
  shows "holdingsleep (SL_buf b) s e = Ok True s e"
  using holdingsleep_run [of s "SL_buf b" p e] calmD [OF assms(1)] assms by (simp add: held_def)

lemma sector_disjoint:
  assumes "unat x < 2 ^ 31" "unat y < 2 ^ 31" "x \<noteq> y"
  shows "sector_of x \<noteq> sector_of y" "sector_of x \<noteq> Suc (sector_of y)" "Suc (sector_of x) \<noteq> sector_of y"
proof -
  have s: "sector_of z = unat z * 2" if "unat z < 2 ^ 31" for z
    using that unfolding sector_of_def by (subst unat_word_ariths) simp
  have "unat x \<noteq> unat y" using assms(3) by (simp add: word_unat_eq_iff)
  then show "sector_of x \<noteq> sector_of y" "sector_of x \<noteq> Suc (sector_of y)" "Suc (sector_of x) \<noteq> sector_of y"
    using s assms(1,2) by simp_all
qed

lemma get_put_other:
  assumes "unat x < 2 ^ 31" "unat y < 2 ^ 31" "x \<noteq> y"
  shows "get_block (sector_of x) (put_block (sector_of y) bs sec) = get_block (sector_of x) sec"
  using sector_disjoint [OF assms] by (simp add: get_block_def put_block_def)

text \<open>Writing a held buffer to the disk.\<close>

lemma bio_sectors:
  assumes "bio d s V R L" "idx d (bufs s) bno = Some b" "b_valid (bufs s b)" "b_refcnt (bufs s b) \<noteq> 0" "length bs = BSIZE"
    and t: "bufs t = bufs s" "sleeplocks t = sleeplocks s" "vd_idle (vdisk t)" "sectors t = put_block (sector_of bno) bs (sectors s)"
  shows "bio d t V R L"
proof -
  have inv: "bio_inv d s" "content d s = V" "refs d s = R" "block_locked d s = L" using assms(1) by (auto simp: bio_def)
  note i = idx_Some [OF assms(2)]
  have sm: "unat bno < 2 ^ 31" using buf_okD [OF assms(1) i(1)] i by (simp add: buf_ok_def)
  have u: "uniq_keys d (bufs s)" using inv(1) by (simp add: bio_inv_def)
  have "buf_ok d (sectors t) (sl_locked (sleeplocks t (SL_buf c))) (bufs t c)" if c: "c < NBUF" for c
  proof -
    have ok: "buf_ok d (sectors s) (sl_locked (sleeplocks s (SL_buf c))) (bufs s c)" using buf_okD [OF assms(1) c] .
    have "get_block (sector_of (b_blockno (bufs s c))) (sectors t) = get_block (sector_of (b_blockno (bufs s c))) (sectors s)"
      if z: "b_refcnt (bufs s c) = 0" "b_dev (bufs s c) = d"
    proof -
      have "b_blockno (bufs s c) \<noteq> bno"
      proof
        assume "b_blockno (bufs s c) = bno"
        then have "c = b" using u c i z(2) unfolding uniq_keys_def by blast
        then show False using z(1) assms(4) by simp
      qed
      then show ?thesis unfolding t(4) using ok z(2) sm by (intro get_put_other) (simp_all add: buf_ok_def)
    qed
    then show ?thesis using ok unfolding buf_ok_def t(1,2) by metis
  qed
  moreover have "length (sectors t n) = 512" for n
    using inv(1) assms(5) by (simp add: t(4) put_block_def bio_inv_def BSIZE_def)
  ultimately have "bio_inv d t" using inv(1) t(1,3) u by (simp add: bio_inv_def)
  moreover have "content d t x = content d s x" for x
  proof (cases "x = bno \<or> 2 ^ 31 \<le> unat x")
    case True
    then show ?thesis using assms(2,3) t(1) by (auto simp: content_def)
  next
    case False
    then have "get_block (sector_of x) (sectors t) = get_block (sector_of x) (sectors s)"
      unfolding t(4) using sm by (intro get_put_other) auto
    then show ?thesis using t(1) by (cases "idx d (bufs s) x") (simp_all add: content_def)
  qed
  then have "content d t = content d s" by blast
  moreover have "refs d t = refs d s" "block_locked d t = block_locked d s"
    by (rule ext, simp add: refs_def block_locked_def t(1,2) split: option.split)+
  ultimately show ?thesis using inv by (simp add: bio_def)
qed

lemma bwrite_spec:
  assumes "calm p s" "bio d s V R L" "virtio_blk dev" "held d p s b bno"
    and "\<And>t. torn t = torn_block (sector_of bno) (V bno) (sectors s) \<Longrightarrow> C t"
  shows "disk_run (serve dev p) 1 (bwrite b) s C (\<lambda>_ t. held d p t b bno \<and> bio d t V R L \<and> bframe s t \<and>
    sectors t = put_block (sector_of bno) (V bno) (sectors s) \<and> (\<forall>b' x. held d p s b' x \<longrightarrow> held d p t b' x))"
proof -
  note h = heldD [OF assms(4,2)]
  have vd: "vd_idle (vdisk s)" using assms(2) by (simp add: bio_def bio_inv_def)
  have sm: "unat bno < 2 ^ 31" using buf_okD [OF assms(2) h(2)] h(3,4) by (simp add: buf_ok_def)
  have V: "V bno = b_data (bufs s b)" using h(11) [OF sm] .
  have "\<not> b_disk (bufs s b)" using buf_okD [OF assms(2) h(2)] by (simp add: buf_ok_def)
  then have "(bufs s b)\<lparr>b_disk := False\<rparr> = bufs s b" by (intro buf.equality) simp_all
  then have B: "done_bufs True b n (bufs s) sec = bufs s" for n sec by (simp add: done_bufs_def)
  have rw: "disk_run (serve dev p) 1 (virtio_disk_rw b True) s C (\<lambda>_ t. held d p t b bno \<and> bio d t V R L \<and> bframe s t \<and>
    sectors t = put_block (sector_of bno) (V bno) (sectors s) \<and> (\<forall>b' x. held d p s b' x \<longrightarrow> held d p t b' x))"
  proof (rule disk_run_rw [OF assms(1) vd assms(3) refl])
    show "C (acquired (L_proc p) (asleep (Ch_buf b) p (asked b True s)))"
      using torn_asked [OF vd, of _ _ _ b True] h(4) V by (intro assms(5)) simp
    fix M V' assume V': "vd_idle V'"
    let ?t = "s\<lparr>vmmio := M, bufs := done_bufs True b (sector_of (b_blockno (bufs s b))) (bufs s) (sectors s),
      sectors := done_sectors True b (sector_of (b_blockno (bufs s b))) (bufs s) (sectors s), vdisk := V'\<rparr>"
    have S: "sectors ?t = put_block (sector_of bno) (V bno) (sectors s)" using h(4) V by (simp add: done_sectors_def)
    have nz: "b_refcnt (bufs s b) \<noteq> 0" using h(8,9) by auto
    have len: "length (V bno) = BSIZE" using V h(10) by simp
    have "bio d ?t V R L"
      by (rule bio_sectors [OF assms(2) h(1,5) nz len]) (use B V' S in simp_all)
    moreover have "held d p ?t b' x = held d p s b' x" for b' x by (simp add: held_def B)
    ultimately show "held d p ?t b bno \<and> bio d ?t V R L \<and> bframe s ?t \<and>
        sectors ?t = put_block (sector_of bno) (V bno) (sectors s) \<and> (\<forall>b' x. held d p s b' x \<longrightarrow> held d p ?t b' x)"
      using assms(4) S bframeI(3) by blast
  qed
  then show ?thesis
    unfolding bwrite_def
    by (intro disk_run_bind_eq [where x = True and t = s] holdingsleep_calm [OF assms(1,4)]) simp
qed

text \<open>Moving a buffer in the list changes nothing else.\<close>

lemma bio_same:
  assumes "bio d s V R L" "\<And>i. same_buf (bufs s i) (bufs t i)" "lru (bufs t) bs"
    and t: "sleeplocks t = sleeplocks s" "vdisk t = vdisk s" "sectors t = sectors s"
  shows "bio d t V R L" "idx d (bufs t) = idx d (bufs s)"
proof -
  have inv: "bio_inv d s" "content d s = V" "refs d s = R" "block_locked d s = L" using assms(1) by (auto simp: bio_def)
  have sb: "b_valid (bufs t i) = b_valid (bufs s i)" "b_disk (bufs t i) = b_disk (bufs s i)" "b_dev (bufs t i) = b_dev (bufs s i)"
    "b_blockno (bufs t i) = b_blockno (bufs s i)" "b_refcnt (bufs t i) = b_refcnt (bufs s i)" "b_data (bufs t i) = b_data (bufs s i)" for i
    using assms(2) [of i] by (simp_all add: same_buf_def)
  show ix: "idx d (bufs t) = idx d (bufs s)" by (rule idx_cong) (simp add: sb)
  have "uniq_keys d (bufs t) = uniq_keys d (bufs s)" by (rule uniq_keys_cong) (simp add: sb)
  then have "bio_inv d t" using inv(1) assms(3) t unfolding bio_inv_def buf_ok_def by (auto simp: sb)
  moreover have "content d t = content d s" "refs d t = refs d s" "block_locked d t = block_locked d s"
    by (rule ext, simp add: content_def refs_def block_locked_def sb ix t split: option.split)+
  ultimately show "bio d t V R L" using inv by (simp add: bio_def)
qed

lemma unat_dec: "x \<noteq> 0 \<Longrightarrow> unat (x - 1) = unat x - 1" for x :: uint
  by (rule unat_minus_one)

lemma brelse_spec:
  assumes "calm p s" "bio d s V R L" "held d p s b bno"
    and "2 \<le> R bno \<or> V bno = get_block (sector_of bno) (sectors s)"
  shows "\<exists>t. (\<forall>e. brelse b s e = Ok () t e) \<and> bio d t V (R(bno := R bno - 1)) (L(bno := False)) \<and> bframe s t \<and>
    sectors t = sectors s \<and> (\<forall>b' x. held d p s b' x \<longrightarrow> x \<noteq> bno \<longrightarrow> held d p t b' x)"
proof -
  note h = heldD [OF assms(3,2)]
  have sm: "unat bno < 2 ^ 31" using buf_okD [OF assms(2) h(2)] h(3,4) by (simp add: buf_ok_def)
  let ?s1 = "set_sleeplock (SL_buf b) (\<lambda>k. k\<lparr>sl_locked := False, sl_pid := 0\<rparr>) s"
  let ?f = "\<lambda>q. q\<lparr>b_refcnt := b_refcnt q - 1\<rparr>"
  let ?s2 = "set_buf b ?f ?s1"
  have c1: "calm p ?s1" "calm p ?s2" using assms(1) by simp_all
  have nz: "b_refcnt (bufs s b) \<noteq> 0" using h(8,9) by auto
  then have n: "unat (b_refcnt (bufs s b) - 1) = R bno - 1" using unat_dec h(8) by simp
  have rs: "releasesleep (SL_buf b) s e = Ok () ?s1 e" for e
    using releasesleep_run [of s "SL_buf b" e] calmD [OF assms(1)] woken_calm [OF assms(1)] c1(1)
    by (simp add: sl_freed_def set_sleeplock_def)
  have ok: "buf_ok d (sectors s) (sl_locked (sleeplocks ?s2 (SL_buf b))) (?f (bufs s b))"
  proof -
    have "b_data (bufs s b) = get_block (sector_of bno) (sectors s)" if "b_refcnt (bufs s b) - 1 = 0"
      using that n assms(4) h(11) [OF sm] h(9) by auto
    then show ?thesis using buf_okD [OF assms(2) h(2)] h(3,4) by (simp add: buf_ok_def set_sleeplock_def)
  qed
  have "bio d ?s2 (V(bno := if 2 ^ 31 \<le> unat bno then [] else if b_valid (?f (bufs s b)) then b_data (?f (bufs s b))
      else get_block (sector_of bno) (sectors s)))
    (R(bno := unat (b_refcnt (?f (bufs s b))))) (L(bno := sl_locked (sleeplocks ?s2 (SL_buf b))))"
    using h assms(2) by (intro bio_update [OF assms(2) h(1) _ _ _ _ _ _ _ _ ok]) (simp_all add: set_sleeplock_def bio_def bio_inv_def)
  then have b2: "bio d ?s2 V (R(bno := R bno - 1)) (L(bno := False))"
    using h(5) h(11) [OF sm] n sm by (simp add: set_sleeplock_def fun_upd_idem)
  have ix2: "idx d (bufs ?s2) = idx d (bufs s)" by (rule idx_cong) (simp add: set_sleeplock_def)
  have other: "held d p s b' x \<Longrightarrow> x \<noteq> bno \<Longrightarrow> b' \<noteq> b" for b' x
    using h(4) idx_Some(3) [of d "bufs s" x b'] by (auto simp: held_def)
  have f2: "bframe s ?s2" by (rule bframe_trans [OF bframeI(5) bframeI(1)])
  have run: "brelse b s e = seq (whenM (b_refcnt (bufs ?s2 b) = 0) (modify (\<lambda>s. s\<lparr>bufs := link_front b (unlink_buf b (bufs s))\<rparr>)))
     (release L_bcache) (acquired L_bcache ?s2) e" for e
    unfolding brelse_def using holdingsleep_calm [OF assms(1,3)] rs calmD [OF c1(1)] by (simp add: acquire_run)
  show ?thesis
  proof (cases "b_refcnt (bufs ?s2 b) = 0")
    case True
    let ?t = "?s2\<lparr>bufs := link_front b (unlink_buf b (bufs ?s2))\<rparr>"
    have ct: "calm p ?t" using c1(2) by simp
    obtain bs where bs: "lru (bufs ?s2) bs" using b2 by (auto simp: bio_def bio_inv_def)
    have bt: "bio d ?t V (R(bno := R bno - 1)) (L(bno := False))" "idx d (bufs ?t) = idx d (bufs ?s2)"
      using lru_move [OF bs h(2)] same_move [of "bufs ?s2"]
      by (intro bio_same [OF b2, of ?t "b # remove1 b bs"]; simp del: set_buf_simps)+
    have "held d p ?t b' x" if "held d p s b' x" "x \<noteq> bno" for b' x
    proof -
      have "b_valid (bufs ?t b') = b_valid (bufs ?s2 b')"
        using same_move [of "bufs ?s2" b' b] by (simp add: same_buf_def)
      then show ?thesis
        using that other [OF that] bt(2) ix2 by (auto simp: held_def set_sleeplock_def)
    qed
    moreover have "brelse b s e = Ok () ?t e" for e
      unfolding run using True calmD [OF ct] ct by simp
    moreover have "bframe s ?t" by (rule bframe_trans [OF f2 bframeI(4)])
    ultimately show ?thesis using bt(1) by (intro exI [of _ ?t]) (simp add: set_sleeplock_def)
  next
    case False
    have "held d p ?s2 b' x" if "held d p s b' x" "x \<noteq> bno" for b' x
      using that other [OF that] ix2 by (auto simp: held_def set_sleeplock_def)
    moreover have "brelse b s e = Ok () ?s2 e" for e
      unfolding run using False calmD [OF c1(2)] c1(2) by simp
    ultimately show ?thesis using b2 f2 by (intro exI [of _ ?s2]) (simp add: set_sleeplock_def)
  qed
qed

text \<open>Pinning and unpinning.\<close>

lemma refcnt_spec:
  assumes "calm p s" "bio d s V R L" "held d p s b bno" "unat (g (b_refcnt (bufs s b))) = n"
    and "n \<noteq> 0" "t = set_buf b (\<lambda>q. q\<lparr>b_refcnt := g (b_refcnt q)\<rparr>) s"
  shows "bio d t V (R(bno := n)) L" "held d p t b' x = held d p s b' x" "bframe s t" "sectors t = sectors s"
proof -
  note h = heldD [OF assms(3,2)]
  let ?q = "(bufs s b)\<lparr>b_refcnt := g (b_refcnt (bufs s b))\<rparr>"
  have sm: "unat bno < 2 ^ 31" using buf_okD [OF assms(2) h(2)] h(3,4) by (simp add: buf_ok_def)
  have nz: "g (b_refcnt (bufs s b)) \<noteq> 0" using assms(4,5) by auto
  have ok: "buf_ok d (sectors s) (sl_locked (sleeplocks t (SL_buf b))) ?q"
    using buf_okD [OF assms(2) h(2)] nz h(3) assms(6) by (simp add: buf_ok_def)
  have "bio d t (V(bno := if 2 ^ 31 \<le> unat bno then [] else if b_valid ?q then b_data ?q else get_block (sector_of bno) (sectors s)))
      (R(bno := unat (b_refcnt ?q))) (L(bno := sl_locked (sleeplocks t (SL_buf b))))"
    using h assms(2,6) by (intro bio_update [OF assms(2) h(1) _ _ _ _ _ _ _ _ ok]) (simp_all add: bio_def bio_inv_def)
  then show "bio d t V (R(bno := n)) L" using h(5-7) h(11) [OF sm] assms(4,6) sm by (simp add: fun_upd_idem)
  have "idx d (bufs t) = idx d (bufs s)" by (rule idx_cong) (simp add: assms(6))
  then show "held d p t b' x = held d p s b' x" using assms(6) by (auto simp: held_def)
  show "bframe s t" unfolding assms(6) by (rule bframeI(1))
  show "sectors t = sectors s" using assms(6) by simp
qed

lemma bpin_spec:
  assumes "calm p s" "bio d s V R L" "held d p s b bno" "R bno < 2 ^ 32 - 1"
  shows "\<exists>t. (\<forall>e. bpin b s e = Ok () t e) \<and> bio d t V (R(bno := Suc (R bno))) L \<and> bframe s t \<and>
    sectors t = sectors s \<and> (\<forall>b' x. held d p t b' x = held d p s b' x)"
proof -
  let ?t = "set_buf b (\<lambda>q. q\<lparr>b_refcnt := b_refcnt q + 1\<rparr>) s"
  have "unat (b_refcnt (bufs s b) + 1) = Suc (R bno)" using heldD(8) [OF assms(3,2)] assms(4) by (simp add: unat_inc)
  note r = refcnt_spec [where g = "\<lambda>n. n + 1", OF assms(1-3) this _ refl]
  have "bpin b s e = Ok () ?t e" for e
    unfolding bpin_def using calmD [OF assms(1)] calmD [of p ?t] assms(1) by (simp add: acquire_run)
  then show ?thesis using r by (intro exI [of _ ?t]) auto
qed

lemma bunpin_spec:
  assumes "calm p s" "bio d s V R L" "held d p s b bno" "2 \<le> R bno"
  shows "\<exists>t. (\<forall>e. bunpin b s e = Ok () t e) \<and> bio d t V (R(bno := R bno - 1)) L \<and> bframe s t \<and>
    sectors t = sectors s \<and> (\<forall>b' x. held d p t b' x = held d p s b' x)"
proof -
  let ?t = "set_buf b (\<lambda>q. q\<lparr>b_refcnt := b_refcnt q - 1\<rparr>) s"
  have "b_refcnt (bufs s b) \<noteq> 0" using heldD(8,9) [OF assms(3,2)] by auto
  then have n: "unat (b_refcnt (bufs s b) - 1) = R bno - 1" using heldD(8) [OF assms(3,2)] by (simp add: unat_dec)
  have "R bno - 1 \<noteq> 0" using assms(4) by simp
  note r = refcnt_spec [where g = "\<lambda>n. n - 1", OF assms(1-3) n this refl]
  have "bunpin b s e = Ok () ?t e" for e
    unfolding bunpin_def using calmD [OF assms(1)] calmD [of p ?t] assms(1) by (simp add: acquire_run)
  then show ?thesis using r by (intro exI [of _ ?t]) auto
qed

section \<open>The cache\<close>

lemma bget_full:
  assumes "calm p s" "bio d s V R L" "card {x. R x \<noteq> 0} \<ge> NBUF" "R bno = 0"
  shows "bget d bno s e = Panic ''bget: no buffers''"
proof -
  obtain bs where bs: "lru (bufs s) bs" and u: "uniq_keys d (bufs s)"
    using assms(2) by (auto simp: bio_def bio_inv_def)
  have l: "links (bufs s) BHEAD bs BHEAD" "set bs = {..<NBUF}" using bs by (auto simp: lru_def)
  have full: "b_refcnt (bufs s i) \<noteq> 0" if "i < NBUF" for i
  proof -
    have "card {i. i < NBUF \<and> b_refcnt (bufs s i) \<noteq> 0} \<ge> card {..<NBUF}" using bio_busy(1) [OF assms(2)] assms(3) by simp
    then have "{i. i < NBUF \<and> b_refcnt (bufs s i) \<noteq> 0} = {..<NBUF}" by (intro card_seteq) auto
    then show ?thesis using that by auto
  qed
  have none: "idx d (bufs s) bno = None"
  proof (cases "idx d (bufs s) bno")
    case (Some b)
    then show ?thesis using refs_eq [OF assms(2) Some] full [OF idx_Some(1) [OF Some]] assms(4) by (simp add: unat_eq_zero)
  qed
  let ?s = "acquired L_bcache s"
  have f: "find (\<lambda>b. b_dev (bufs s b) = d \<and> b_blockno (bufs s b) = bno) bs = None"
    using find_unique [OF u l(2)] none by simp
  have one: "whileM (\<lambda>(b, r) _. r = None \<and> b \<noteq> BHEAD) (bget_cached d bno) (hd (bs @ [BHEAD]), None) ?s e = Ok (BHEAD, None) ?s e"
    using l links_successively(1) [OF l(1)] f
    by (subst scan_list [where P = "\<lambda>b. b_dev (bufs s b) = d \<and> b_blockno (bufs s b) = bno" and nx = "\<lambda>b. b_next (bufs s b)"])
      (auto simp: bget_cached_def BHEAD_def)
  have f2: "find (\<lambda>b. b_refcnt (bufs s b) = 0) (rev bs) = None" using full l(2) by (auto simp: find_None_iff)
  have two: "whileM (\<lambda>(b, r) _. r = None \<and> b \<noteq> BHEAD) (bget_recycle d bno) (hd (rev bs @ [BHEAD]), None) ?s e = Ok (BHEAD, None) ?s e"
    using l links_successively(2) [OF l(1)] f2
    by (subst scan_list [where P = "\<lambda>b. b_refcnt (bufs s b) = 0" and nx = "\<lambda>b. b_prev (bufs s b)"])
      (auto simp: bget_recycle_def BHEAD_def)
  have "b_prev (bufs s BHEAD) = hd (rev bs @ [BHEAD])"
    using links_ends(2) [OF l(1)] by (cases bs rule: rev_cases) auto
  then show ?thesis
    using calmD [OF assms(1)] links_ends(1) [OF l(1)] one two by (simp add: bget_def acquire_run)
qed

text \<open>
  C13: the buffer cache is transparent.  If the block is cached or one of the 30 buffers is
  unused, \<^verbatim>\<open>bread\<close> returns, after at most one request to the disk, a buffer locked
  by the caller that holds the current contents of the block; the contents of every block, and
  what is on the disk, stay the same, whichever buffer was recycled.
  If all buffers are in use it panics.
\<close>

theorem bread_transparent:
  assumes "calm p s" "bio d s V R L" "virtio_blk dev" "\<not> L bno" "R bno < 2 ^ 32 - 1" "unat bno < 2 ^ 31"
  shows "if card {x. R x \<noteq> 0} < NBUF \<or> R bno \<noteq> 0
    then \<exists>b t j. bread d bno s (replicate (Suc k) (serve dev p)) = Ok b t (replicate j (serve dev p)) \<and>
      b_data (bufs t b) = V bno \<and> held d p t b bno \<and> bio d t V (R(bno := Suc (R bno))) (L(bno := True)) \<and>
      sectors t = sectors s
    else bread d bno s e = Panic ''bget: no buffers''"
proof (cases "card {x. R x \<noteq> 0} < NBUF \<or> R bno \<noteq> 0")
  case True
  have "\<exists>b t j. bread d bno s (replicate (Suc k) (serve dev p)) = Ok b t (replicate j (serve dev p)) \<and> j \<le> Suc k \<and>
      (held d p t b bno \<and> bio d t V (R(bno := Suc (R bno))) (L(bno := True)) \<and>
      bframe s t \<and> sectors t = sectors s \<and> (\<forall>b' x. held d p s b' x \<longrightarrow> held d p t b' x))"
    using disk_run_returns [OF bread_spec [OF assms(1-4) True assms(5,6), of "\<lambda>_. True"], of "Suc k"] by simp
  then obtain b t j where "bread d bno s (replicate (Suc k) (serve dev p)) = Ok b t (replicate j (serve dev p))"
    "held d p t b bno" "bio d t V (R(bno := Suc (R bno))) (L(bno := True))" "sectors t = sectors s"
    by blast
  moreover from this have "b_data (bufs t b) = V bno" using heldD(11) assms(6) by metis
  ultimately show ?thesis using True by auto
next
  case False
  then have "bget d bno s e = Panic ''bget: no buffers''" using bget_full [OF assms(1,2)] by auto
  then show ?thesis using False by (simp add: bread_def)
qed

section \<open>Initialisation\<close>

definition fresh_bufs :: "'m bmach_scheme \<Rightarrow> 'm bmach_scheme \<Rightarrow> nat \<Rightarrow> bool" where
  "fresh_bufs s t n \<longleftrightarrow> links (bufs t) BHEAD (rev [0..<n]) BHEAD \<and> (\<forall>i. same_buf (bufs s i) (bufs t i)) \<and>
     sectors t = sectors s \<and> vdisk t = vdisk s \<and> procs t = procs s \<and>
     (\<forall>i < n. \<not> sl_locked (sleeplocks t (SL_buf i))) \<and> (\<forall>p. calm p s \<longrightarrow> calm p t)"

lemma calm_locks:
  assumes "calm p s" "\<forall>lk. lock_free lk s \<longrightarrow> lock_free lk (s\<lparr>locks := l\<rparr>)"
  shows "calm p (s\<lparr>locks := l\<rparr>)"
proof -
  have "mycpu (s\<lparr>locks := l\<rparr>) = mycpu s" "intr_get (s\<lparr>locks := l\<rparr>) = intr_get s"
    by (simp_all add: mach_upd_defs intr_get_def)
  moreover have "cpu_ok (s\<lparr>locks := l\<rparr>) = cpu_ok s" using calculation by (simp add: cpu_ok_def)
  ultimately show ?thesis
    using assms unfolding calm_def running_def proc_locks_free_def by simp
qed

lemma calm_initlock:
  "calm p s \<Longrightarrow> calm p (set_lock lk (\<lambda>l. l\<lparr>lk_name := n, locked := False, lk_cpu := None\<rparr>) s)"
  unfolding set_lock_def by (erule calm_locks) (simp add: lock_free_def)

lemma set_lock_bmach [simp]:
  "bufs (set_lock lk g s) = bufs s" "sectors (set_lock lk g s) = sectors s" "vdisk (set_lock lk g s) = vdisk s"
  "procs (set_lock lk g s) = procs s" "sleeplocks (set_lock lk g s) = sleeplocks s"
  by (simp_all add: set_lock_def)

lemma binit_body:
  assumes "fresh_bufs s t n" "n < NBUF"
  shows "\<exists>u. binit_one n t e = Ok () u e \<and> fresh_bufs s u (Suc n)"
proof -
  let ?h = "b_next (bufs t BHEAD)"
  let ?sl = "\<lambda>x. set_sleeplock (SL_buf n) (\<lambda>k. k\<lparr>sl_pid := 0\<rparr>) (set_sleeplock (SL_buf n) (\<lambda>k. k\<lparr>sl_locked := False\<rparr>)
    (set_sleeplock (SL_buf n) (\<lambda>k. k\<lparr>sl_name := ''buffer''\<rparr>) x))"
  let ?u = "set_buf BHEAD (\<lambda>q. q\<lparr>b_next := n\<rparr>) (set_buf ?h (\<lambda>q. q\<lparr>b_prev := n\<rparr>)
    (?sl (set_lock (L_sleep (SL_buf n)) (\<lambda>l. l\<lparr>lk_name := ''sleep lock'', locked := False, lk_cpu := None\<rparr>)
      (set_buf n (\<lambda>q. q\<lparr>b_next := ?h, b_prev := BHEAD\<rparr>) t))))"
  have nh: "n \<noteq> BHEAD" using assms(2) by (simp add: BHEAD_def)
  have f: "links (bufs t) BHEAD (rev [0..<n]) BHEAD" "\<And>i. same_buf (bufs s i) (bufs t i)" "sectors t = sectors s"
    "vdisk t = vdisk s" "procs t = procs s" "\<And>i. i < n \<Longrightarrow> \<not> sl_locked (sleeplocks t (SL_buf i))" "\<And>p. calm p s \<Longrightarrow> calm p t"
    using assms(1) by (auto simp: fresh_bufs_def)
  have B: "bufs ?u = link_front n (bufs t)"
    using nh by (simp add: link_front_def Let_def set_sleeplock_def)
  have "links (bufs ?u) BHEAD (n # rev [0..<n]) BHEAD"
    unfolding B using f(1) nh assms(2) by (intro links_front) (auto simp: BHEAD_def)
  moreover have "\<forall>i. same_buf (bufs s i) (link_front n (bufs t) i)"
    unfolding link_front_def Let_def using f(2) by (intro same_upd) blast
  then have "\<forall>i. same_buf (bufs s i) (bufs ?u i)" unfolding B .
  moreover have "\<not> sl_locked (sleeplocks ?u (SL_buf i))" if "i < Suc n" for i
    using that f(6) [of i] by (auto simp: set_sleeplock_def)
  moreover have "calm p ?u" if "calm p s" for p
  proof -
    have "calm p (set_buf n (\<lambda>q. q\<lparr>b_next := ?h, b_prev := BHEAD\<rparr>) t)" using f(7) [OF that] by simp
    from calm_initlock [OF this] show ?thesis by simp
  qed
  moreover have "sectors ?u = sectors s" "vdisk ?u = vdisk s" "procs ?u = procs s"
    using f(3-5) by (simp_all add: set_sleeplock_def)
  ultimately have "fresh_bufs s ?u (Suc n)" unfolding fresh_bufs_def by (simp only: upt_Suc rev_append if_True) auto
  then show ?thesis by (intro exI [of _ ?u]) (simp add: binit_one_def initsleeplock_def initlock_def)
qed

lemma binit_loop:
  assumes "fresh_bufs s t 0" "n \<le> NBUF"
  shows "\<exists>u. for_each [0..<n] binit_one t e = Ok () u e \<and> fresh_bufs s u n"
  using assms(2)
proof (induction n)
  case 0
  then show ?case using assms(1) by simp
next
  case (Suc n)
  then obtain u where u: "for_each [0..<n] binit_one t e = Ok () u e" "fresh_bufs s u n" by auto
  obtain v where v: "binit_one n u e = Ok () v e" "fresh_bufs s v (Suc n)"
    using binit_body [OF u(2)] Suc.prems by (meson Suc_le_lessD)
  then show ?case using u(1) by (intro exI [of _ v]) (simp add: for_each_append)
qed

lemma binit_run:
  assumes "\<forall>i < NBUF. b_dev (bufs s i) \<noteq> d \<and> b_refcnt (bufs s i) = 0 \<and> \<not> b_disk (bufs s i) \<and> length (b_data (bufs s i)) = BSIZE"
    and "\<forall>n. length (sectors s n) = 512" "vd_idle (vdisk s)"
  shows "\<exists>t. binit s e = Ok () t e \<and> lru (bufs t) (rev [0..<NBUF]) \<and> sectors t = sectors s \<and> (calm p s \<longrightarrow> calm p t) \<and>
    bio d t (\<lambda>bno. if 2 ^ 31 \<le> unat bno then [] else get_block (sector_of bno) (sectors s)) (\<lambda>_. 0) (\<lambda>_. False)"
proof -
  let ?l = "set_lock L_bcache (\<lambda>l. l\<lparr>lk_name := ''bcache'', locked := False, lk_cpu := None\<rparr>) s"
  let ?t = "set_buf BHEAD (\<lambda>q. q\<lparr>b_prev := BHEAD, b_next := BHEAD\<rparr>) ?l"
  have "fresh_bufs s ?t 0"
    using calm_initlock by (auto simp: fresh_bufs_def)
  then obtain u where u: "binit s e = Ok () u e" "fresh_bufs s u NBUF"
    using binit_loop [of s ?t NBUF e] by (auto simp: binit_def initlock_def)
  have f: "links (bufs u) BHEAD (rev [0..<NBUF]) BHEAD" "sectors u = sectors s" "vdisk u = vdisk s"
    "\<And>i. same_buf (bufs s i) (bufs u i)" "calm p s \<longrightarrow> calm p u" "\<And>i. i < NBUF \<Longrightarrow> \<not> sl_locked (sleeplocks u (SL_buf i))"
    using u(2) by (auto simp: fresh_bufs_def)
  have l: "lru (bufs u) (rev [0..<NBUF])" using f(1) by (auto simp: lru_def)
  have sb: "b_dev (bufs u i) \<noteq> d" "b_refcnt (bufs u i) = 0" "\<not> b_disk (bufs u i)" "length (b_data (bufs u i)) = BSIZE" if "i < NBUF" for i
    using f(4) [of i] assms(1) that by (simp_all add: same_buf_def)
  then have ix: "idx d (bufs u) bno = None" for bno by (simp add: idx_None)
  have "bio_inv d u"
    using l sb f(2,3,6) assms(2,3) unfolding bio_inv_def uniq_keys_def buf_ok_def by auto
  moreover have "content d u = (\<lambda>bno. if 2 ^ 31 \<le> unat bno then [] else get_block (sector_of bno) (sectors s))"
    "refs d u = (\<lambda>_. 0)" "block_locked d u = (\<lambda>_. False)"
    by (rule ext, simp add: content_def refs_def block_locked_def ix f(2))+
  ultimately show ?thesis
    using u(1) l f(2,5) by (intro exI [of _ u]) (simp add: bio_def)
qed

text \<open>
  C27: \<^verbatim>\<open>binit\<close> makes the cache: from buffers that hold nothing of the device it returns
  with all 30 of them on the list, the last one most recently used, none of them locked
  or referenced, and the contents of every block is what is on the disk.
\<close>

theorem binit_establishes:
  assumes "\<forall>i < NBUF. b_dev (bufs s i) \<noteq> d \<and> b_refcnt (bufs s i) = 0 \<and> \<not> b_disk (bufs s i) \<and> length (b_data (bufs s i)) = BSIZE"
    and "\<forall>n. length (sectors s n) = 512" "vd_idle (vdisk s)"
  shows "\<exists>t. binit s e = Ok () t e \<and> lru (bufs t) (rev [0..<NBUF]) \<and> sectors t = sectors s \<and> (calm p s \<longrightarrow> calm p t) \<and>
    bio d t (\<lambda>bno. if 2 ^ 31 \<le> unat bno then [] else get_block (sector_of bno) (sectors s)) (\<lambda>_. 0) (\<lambda>_. False)"
  by (rule binit_run [OF assms])

lemma bboot_bufs:
  "\<forall>i < NBUF. b_dev (bufs bboot i) \<noteq> 1 \<and> b_refcnt (bufs bboot i) = 0 \<and> \<not> b_disk (bufs bboot i) \<and>
     length (b_data (bufs bboot i)) = BSIZE" "\<forall>n. length (sectors bboot n) = 512"
  by (simp_all add: bboot_simps zero_buf_def BSIZE_def)

theorem binit_establishes_witness:
  "\<exists>t. binit bboot [] = Ok () t [] \<and> lru (bufs t) (rev [0..<NBUF])"
  using binit_establishes [OF bboot_bufs bboot_simps(2), of "[]" 0] by blast

theorem bread_transparent_witness:
  "\<exists>(s :: bmach) V. bio 1 s V (\<lambda>_. 0) (\<lambda>_. False) \<and>
     (\<exists>b t j. bread 1 5 s [serve blk_device 0] = Ok b t (replicate j (serve blk_device 0)) \<and> b_data (bufs t b) = V 5)"
proof -
  define V where "V = (\<lambda>bno. if 2 ^ 31 \<le> unat bno then [] else get_block (sector_of bno) (sectors bboot))"
  obtain s :: bmach where s: "calm 0 s" "bio 1 s V (\<lambda>_. 0) (\<lambda>_. False)"
    using binit_run [OF bboot_bufs bboot_simps(2), of "[]" 0] bboot_simps(1) unfolding V_def by blast
  obtain b t j where "bread 1 5 s [serve blk_device 0] = Ok b t (replicate j (serve blk_device 0))" "b_data (bufs t b) = V 5"
    using bread_transparent [OF s virtio_blk_device, of 5 0] by (auto simp: NBUF_def MAXOPBLOCKS_def)
  then show ?thesis using s(2) by blast
qed

end
