(* ===== verification/Cache.thy ===== *)
theory Cache
  imports Bio
begin

text \<open>
  The contract of the buffer cache towards its clients, as rules for runs.  \<open>cache d p s V R L D\<close>
  says all a client needs to know of the state \<open>s\<close>: process \<open>p\<close> runs, block \<open>x\<close> of device \<open>d\<close> has
  the contents \<open>V x\<close>, its buffer is referenced \<open>R x\<close> times and locked if \<open>L x\<close>, and \<open>D x\<close> is what is
  on the disk.
\<close>

definition disk_view :: "(nat \<Rightarrow> uchar list) \<Rightarrow> uint \<Rightarrow> uchar list" where
  "disk_view sec x = (if 2 ^ 31 \<le> unat x then [] else get_block (sector_of x) sec)"

definition cache ::
  "uint \<Rightarrow> nat \<Rightarrow> 'm bmach_scheme \<Rightarrow> (uint \<Rightarrow> uchar list) \<Rightarrow> (uint \<Rightarrow> nat) \<Rightarrow> (uint \<Rightarrow> bool) \<Rightarrow> (uint \<Rightarrow> uchar list) \<Rightarrow> bool" where
  "cache d p s V R L D \<longleftrightarrow> calm p s \<and> bio d s V R L \<and> disk_view (sectors s) = D"

definition crash :: "((uint \<Rightarrow> uchar list) \<Rightarrow> bool) \<Rightarrow> 'm bmach_scheme \<Rightarrow> bool" where
  "crash P t \<longleftrightarrow> (\<forall>img \<in> torn t. P (disk_view img))"

lemma cacheD:
  assumes "cache d p s V R L D"
  shows "calm p s" "bio d s V R L" "disk_view (sectors s) = D" "\<And>n. length (sectors s n) = 512"
    "\<And>x. unat x < 2 ^ 31 \<Longrightarrow> length (D x) = BSIZE"
  using assms by (auto simp: cache_def bio_def bio_inv_def disk_view_def get_block_def BSIZE_def)

lemma cache_length:
  assumes "cache d p s V R L D" "unat x < 2 ^ 31"
  shows "length (V x) = BSIZE"
proof -
  note c = cacheD [OF assms(1)]
  have "V x = content d s x" using c(2) by (simp add: bio_def)
  then show ?thesis
    using c(4) assms(2) buf_okD [OF c(2)] idx_Some(1) [of d "bufs s" x]
    by (auto simp: content_def get_block_def BSIZE_def buf_ok_def split: option.splits)
qed

lemma cache_cong:
  assumes "calm p t = calm p s" "bufs t = bufs s" "sleeplocks t = sleeplocks s" "vdisk t = vdisk s" "sectors t = sectors s"
  shows "cache d p t = cache d p s"
proof -
  have "content d t = content d s" "refs d t = refs d s" "block_locked d t = block_locked d s"
    by (rule ext, simp only: content_def refs_def block_locked_def assms)+
  then have "bio d t = bio d s" by (intro ext) (simp add: bio_def bio_inv_def assms)
  then show ?thesis by (intro ext) (simp add: cache_def assms)
qed

lemma held_cong:
  "bufs t = bufs s \<Longrightarrow> sleeplocks t = sleeplocks s \<Longrightarrow> procs t = procs s \<Longrightarrow> held d p t = held d p s"
  by (intro ext) (simp add: held_def)

lemma cache_finite:
  assumes "cache d p s V R L D"
  shows "finite {x. R x \<noteq> 0}"
proof (rule finite_subset)
  have "R = refs d s" using cacheD(2) [OF assms] by (simp add: bio_def)
  then show "{x. R x \<noteq> 0} \<subseteq> (\<lambda>b. b_blockno (bufs s b)) ` {..<NBUF}"
    using idx_Some [of d "bufs s"] by (fastforce simp: refs_def split: option.splits)
qed simp

lemma disk_view_put:
  assumes "unat b < 2 ^ 31"
  shows "disk_view (put_block (sector_of b) v sec) = (disk_view sec)(b := v)"
proof
  fix x
  show "disk_view (put_block (sector_of b) v sec) x = ((disk_view sec)(b := v)) x"
    using assms get_put_other [of x b v sec] by (auto simp: disk_view_def)
qed

lemma torn_view:
  assumes "img \<in> torn_block (sector_of b) v sec" "\<And>n. length (sec n) = 512" "length v = BSIZE" "unat b < 2 ^ 31"
  shows "\<exists>w. disk_view img = (disk_view sec)(b := w) \<and> length w = BSIZE \<and>
    (take 512 w = take 512 v \<or> take 512 w = take 512 (disk_view sec b))"
proof -
  let ?n = "sector_of b"
  have one: "disk_view (put_block ?n w sec) = (disk_view sec)(b := w)" for w by (rule disk_view_put [OF assms(4)])
  have "sec(?n := take 512 v) = put_block ?n (take 512 v @ sec (?n + 1)) sec"
    "sec(?n + 1 := drop 512 v) = put_block ?n (sec ?n @ drop 512 v) sec"
    "sec = put_block ?n (sec ?n @ sec (?n + 1)) sec"
    using assms(2,3) by (auto simp: put_block_def BSIZE_def fun_eq_iff)
  with assms(1) obtain w where w: "img = put_block ?n w sec" "w \<in> {sec ?n @ sec (?n + 1), take 512 v @ sec (?n + 1), sec ?n @ drop 512 v, v}"
    unfolding torn_block_def by auto
  have "length w = BSIZE" "take 512 w = take 512 v \<or> take 512 w = take 512 (disk_view sec b)"
    using w(2) assms(2-4) by (auto simp: BSIZE_def disk_view_def get_block_def)
  then show ?thesis using w(1) one by blast
qed

text \<open>\<open>binit\<close> leaves a cache that holds nothing.\<close>

lemma binit_cache:
  assumes "\<forall>i < NBUF. b_dev (bufs s i) \<noteq> d \<and> b_refcnt (bufs s i) = 0 \<and> \<not> b_disk (bufs s i) \<and> length (b_data (bufs s i)) = BSIZE"
    and "\<forall>n. length (sectors s n) = 512" "vd_idle (vdisk s)" "calm p s"
  shows "\<exists>t. binit s e = Ok () t e \<and> cache d p t (disk_view (sectors s)) (\<lambda>_. 0) (\<lambda>_. False) (disk_view (sectors s))"
proof -
  have "disk_view (sectors s) = (\<lambda>bno. if 2 ^ 31 \<le> unat bno then [] else get_block (sector_of bno) (sectors s))"
    by (rule ext) (simp add: disk_view_def)
  then show ?thesis using binit_run [OF assms(1-3), of e p] assms(4) by (auto simp: cache_def)
qed

section \<open>Rules\<close>

lemma crash_same: "P (disk_view (sectors s)) \<Longrightarrow> torn t = {sectors s} \<Longrightarrow> crash P t"
  by (simp add: crash_def)

lemma run_bread:
  assumes "cache d p s V R L D" "virtio_blk dev" "\<not> L bno" "card {x. R x \<noteq> 0} < NBUF \<or> R bno \<noteq> 0"
    and "R bno < 2 ^ 32 - 1" "unat bno < 2 ^ 31" "P D"
    and cont: "\<And>b t. held d p t b bno \<Longrightarrow> cache d p t V (R(bno := Suc (R bno))) (L(bno := True)) D \<Longrightarrow> bframe s t \<Longrightarrow>
      (\<And>b' x. held d p s b' x \<Longrightarrow> held d p t b' x) \<Longrightarrow> disk_run (serve dev p) n (h b) t (crash P) Q"
  shows "disk_run (serve dev p) (Suc n) (bind (bread d bno) h) s (crash P) Q"
proof -
  note c = cacheD [OF assms(1)]
  have "disk_run (serve dev p) (1 + n) (bind (bread d bno) h) s (crash P) Q"
  proof (rule disk_run_bind, rule disk_run_conseq [OF bread_spec [OF c(1,2) assms(2-6)]])
    show "torn t = {sectors s} \<Longrightarrow> crash P t" for t using assms(7) c(3) by (intro crash_same) simp_all
    fix b t assume t: "held d p t b bno \<and> bio d t V (R(bno := Suc (R bno))) (L(bno := True)) \<and>
      bframe s t \<and> sectors t = sectors s \<and> (\<forall>b' x. held d p s b' x \<longrightarrow> held d p t b' x)"
    then have "calm p t" using bframeD(1) [of s t p] c(1) by simp
    then show "disk_run (serve dev p) n (h b) t (crash P) Q"
      using t c(3) by (intro cont) (auto simp: cache_def)
  qed
  then show ?thesis by simp
qed

lemma run_bwrite:
  assumes "cache d p s V R L D" "virtio_blk dev" "held d p s b bno"
    and "\<And>w. length w = BSIZE \<Longrightarrow> take 512 w = take 512 (V bno) \<or> take 512 w = take 512 (D bno) \<Longrightarrow> P (D(bno := w))"
    and cont: "\<And>t. cache d p t V R L (D(bno := V bno)) \<Longrightarrow> bframe s t \<Longrightarrow>
      (\<And>b' x. held d p s b' x \<Longrightarrow> held d p t b' x) \<Longrightarrow> disk_run (serve dev p) n h t (crash P) Q"
  shows "disk_run (serve dev p) (Suc n) (seq (bwrite b) h) s (crash P) Q"
proof -
  note c = cacheD [OF assms(1)]
  note h = heldD [OF assms(3) c(2)]
  have sm: "unat bno < 2 ^ 31" using buf_okD [OF c(2) h(2)] h(3,4) by (simp add: buf_ok_def)
  have len: "length (V bno) = BSIZE" using h(10) h(11) [OF sm] by simp
  have "disk_run (serve dev p) (1 + n) (seq (bwrite b) h) s (crash P) Q"
  proof (rule disk_run_seq, rule disk_run_conseq [OF bwrite_spec [OF c(1,2) assms(2,3)]])
    fix t :: "'a bmach_scheme" assume t: "torn t = torn_block (sector_of bno) (V bno) (sectors s)"
    show "crash P t"
      unfolding crash_def
    proof
      fix img assume "img \<in> torn t"
      then obtain w where "disk_view img = (disk_view (sectors s))(bno := w)" "length w = BSIZE"
        "take 512 w = take 512 (V bno) \<or> take 512 w = take 512 (disk_view (sectors s) bno)"
        using torn_view [of img bno "V bno" "sectors s"] t c(4) len sm by auto
      then show "P (disk_view img)" using assms(4) c(3) by simp
    qed
  next
    fix x t assume t: "held d p t b bno \<and> bio d t V R L \<and> bframe s t \<and>
      sectors t = put_block (sector_of bno) (V bno) (sectors s) \<and> (\<forall>b' x. held d p s b' x \<longrightarrow> held d p t b' x)"
    then have "calm p t" using bframeD(1) [of s t p] c(1) by simp
    moreover have "disk_view (sectors t) = D(bno := V bno)" using t disk_view_put [OF sm] c(3) by simp
    ultimately show "disk_run (serve dev p) n h t (crash P) Q"
      using t by (intro cont) (auto simp: cache_def)
  qed
  then show ?thesis by simp
qed

lemma disk_run_after_ret [simp]:
  "disk_run f n (seq (ret ()) h) s C Q = disk_run f n h s C Q"
  "disk_run f n (bind (ret x) g) s C Q = disk_run f n (g x) s C Q"
  by (simp_all add: disk_run_def)

lemma disk_run_case:
  "disk_run f n m s C Q \<Longrightarrow> case m s (replicate k f) of Ok x t _ \<Rightarrow> Q x t | Blocked t \<Rightarrow> C t | _ \<Rightarrow> False"
  unfolding disk_run_def by (drule spec [of _ k]) (auto split: outcome.splits)

lemma run_det:
  assumes "\<exists>t. (\<forall>e. m s e = Ok () t e) \<and> S t" "\<And>t. S t \<Longrightarrow> disk_run f n h t C Q"
  shows "disk_run f n (seq m h) s C Q"
  using assms by (auto intro: disk_run_seq_eq)

lemma held_small: "held d p s b bno \<Longrightarrow> cache d p s V R L D \<Longrightarrow> unat bno < 2 ^ 31"
  using cacheD(2) heldD(2-4) buf_okD unfolding buf_ok_def by metis

lemma held_value: "held d p s b bno \<Longrightarrow> cache d p s V R L D \<Longrightarrow> b_data (bufs s b) = V bno"
  using heldD(11) held_small cacheD(2) by metis

lemma held_length: "held d p s b bno \<Longrightarrow> cache d p s V R L D \<Longrightarrow> length (V bno) = BSIZE"
  using held_value heldD(10) cacheD(2) by metis

lemma brelse_ends:
  assumes "cache d p s V R L D" "held d p s b bno" "2 \<le> R bno \<or> V bno = D bno"
  shows "\<exists>t. (\<forall>e. brelse b s e = Ok () t e) \<and> cache d p t V (R(bno := R bno - 1)) (L(bno := False)) D \<and> bframe s t \<and>
    (\<forall>b' x. held d p s b' x \<longrightarrow> x \<noteq> bno \<longrightarrow> held d p t b' x)"
proof -
  note c = cacheD [OF assms(1)]
  have "2 \<le> R bno \<or> V bno = get_block (sector_of bno) (sectors s)"
    using assms(3) c(3) held_small [OF assms(2,1)] by (auto simp: disk_view_def)
  from brelse_spec [OF c(1,2) assms(2) this] obtain t where
    "(\<forall>e. brelse b s e = Ok () t e) \<and> bio d t V (R(bno := R bno - 1)) (L(bno := False)) \<and> bframe s t \<and>
    sectors t = sectors s \<and> (\<forall>b' x. held d p s b' x \<longrightarrow> x \<noteq> bno \<longrightarrow> held d p t b' x)" by blast
  then show ?thesis using bframeD(1) [of s t p] c by (intro exI [of _ t]) (auto simp: cache_def)
qed

lemma run_brelse:
  assumes "cache d p s V R L D" "held d p s b bno" "2 \<le> R bno \<or> V bno = D bno"
    and "\<And>t. cache d p t V (R(bno := R bno - 1)) (L(bno := False)) D \<Longrightarrow> bframe s t \<Longrightarrow>
      (\<And>b' x. held d p s b' x \<Longrightarrow> x \<noteq> bno \<Longrightarrow> held d p t b' x) \<Longrightarrow> disk_run f n h t C Q"
  shows "disk_run f n (seq (brelse b) h) s C Q"
  using brelse_ends [OF assms(1-3)] by (rule run_det) (use assms(4) in blast)

lemma run_brelse_last:
  assumes "cache d p s V R L D" "held d p s b bno" "2 \<le> R bno \<or> V bno = D bno"
    and "\<And>t. cache d p t V (R(bno := R bno - 1)) (L(bno := False)) D \<Longrightarrow> bframe s t \<Longrightarrow>
      (\<And>b' x. held d p s b' x \<Longrightarrow> x \<noteq> bno \<Longrightarrow> held d p t b' x) \<Longrightarrow> Q () t"
  shows "disk_run f n (brelse b) s C Q"
proof -
  obtain t where "\<And>e. brelse b s e = Ok () t e" "cache d p t V (R(bno := R bno - 1)) (L(bno := False)) D" "bframe s t"
    "\<And>b' x. held d p s b' x \<Longrightarrow> x \<noteq> bno \<Longrightarrow> held d p t b' x"
    using brelse_ends [OF assms(1-3)] by blast
  then show ?thesis using assms(4) by (intro disk_run_det [of "brelse b" s "()" t]) auto
qed

lemma run_brelse2:
  assumes "cache d p s V R L D" "held d p s b x" "held d p s b2 y" "x \<noteq> y" "2 \<le> R x \<or> V x = D x" "2 \<le> R y \<or> V y = D y"
    and "\<And>t. cache d p t V (R(x := R x - 1, y := R y - 1)) (L(x := False, y := False)) D \<Longrightarrow> bframe s t \<Longrightarrow> Q () t"
  shows "disk_run f n (seq (brelse b) (brelse b2)) s C Q"
proof (rule run_brelse [OF assms(1,2,5)], goal_cases)
  case (1 t)
  show ?case
  proof (rule run_brelse_last [OF 1(1) 1(3) [OF assms(3)]], goal_cases)
    case (3 u)
    then show ?case using assms(4) 1(2) bframe_trans by (intro assms(7)) auto
  qed (use assms in auto)
qed

lemma run_bunpin:
  assumes "cache d p s V R L D" "held d p s b bno" "2 \<le> R bno"
    and "\<And>t. cache d p t V (R(bno := R bno - 1)) L D \<Longrightarrow> bframe s t \<Longrightarrow>
      (\<And>b' x. held d p t b' x = held d p s b' x) \<Longrightarrow> disk_run f n h t C Q"
  shows "disk_run f n (seq (bunpin b) h) s C Q"
proof -
  note c = cacheD [OF assms(1)]
  obtain t where t: "\<And>e. bunpin b s e = Ok () t e" "bio d t V (R(bno := R bno - 1)) L" "bframe s t"
    "sectors t = sectors s" "\<forall>b' x. held d p t b' x = held d p s b' x"
    using bunpin_spec [OF c(1,2) assms(2,3)] by blast
  then have "cache d p t V (R(bno := R bno - 1)) L D" using c bframeD(1) [OF t(3), of p] by (simp add: cache_def)
  then show ?thesis using t by (intro disk_run_seq_eq [of _ _ t] assms(4)) auto
qed

lemma cache_set_data:
  assumes "cache d p s V R L D" "held d p s b bno" "length (g (V bno)) = BSIZE"
    and t: "t = set_buf b (\<lambda>q. q\<lparr>b_data := g (b_data q)\<rparr>) s"
  shows "cache d p t (V(bno := g (V bno))) R L D" "held d p t b' x = held d p s b' x" "bframe s t"
proof -
  note c = cacheD [OF assms(1)]
  have "length (g (b_data (bufs s b))) = BSIZE" using assms(3) held_value [OF assms(2,1)] by simp
  note r = set_data_spec [OF assms(2) c(2) this held_small [OF assms(2,1)] t]
  show "cache d p t (V(bno := g (V bno))) R L D"
    using r bframeD(1) [OF r(3), of p] c by (simp add: cache_def)
  show "held d p t b' x = held d p s b' x" "bframe s t" using r by simp_all
qed

lemma run_set_data:
  assumes "cache d p s V R L D" "held d p s b bno" "length (g (V bno)) = BSIZE"
    and "\<And>t. cache d p t (V(bno := g (V bno))) R L D \<Longrightarrow> bframe s t \<Longrightarrow>
      (\<And>b' x. held d p t b' x = held d p s b' x) \<Longrightarrow> disk_run f n h t C Q"
  shows "disk_run f n (seq (modify (set_buf b (\<lambda>q. q\<lparr>b_data := g (b_data q)\<rparr>))) h) s C Q"
  unfolding disk_run_seq_modify using cache_set_data [where g = g and t = "set_buf b (\<lambda>q. q\<lparr>b_data := g (b_data q)\<rparr>) s", OF assms(1-3) refl] by (intro assms(4))

end
