(* ===== verification/Layout.thy ===== *)
theory Layout
  imports Memory
begin

text \<open>
  Reading and writing fields of structures that the C code overlays on the bytes of a
  disk block: numbers of two and four bytes at an offset, the lowest byte first.
\<close>

definition peek :: "uchar list \<Rightarrow> nat \<Rightarrow> nat \<Rightarrow> uchar list" where
  "peek bs off n = take n (drop off bs)"

definition put_at :: "uchar list \<Rightarrow> nat \<Rightarrow> uchar list \<Rightarrow> uchar list" where
  "put_at bs off new = take off bs @ new @ drop (off + length new) bs"

definition get32 :: "uchar list \<Rightarrow> nat \<Rightarrow> uint" where
  "get32 bs off = le_word (peek bs off 4)"

definition put32 :: "uchar list \<Rightarrow> nat \<Rightarrow> uint \<Rightarrow> uchar list" where
  "put32 bs off v = put_at bs off (le_bytes 4 v)"

definition get16 :: "uchar list \<Rightarrow> nat \<Rightarrow> ushort" where
  "get16 bs off = le_word (peek bs off 2)"

definition put16 :: "uchar list \<Rightarrow> nat \<Rightarrow> ushort \<Rightarrow> uchar list" where
  "put16 bs off v = put_at bs off (le_bytes 2 v)"

lemma length_put_at [simp]: "off + length new \<le> length bs \<Longrightarrow> length (put_at bs off new) = length bs"
  by (simp add: put_at_def)

lemma length_put32 [simp]: "off + 4 \<le> length bs \<Longrightarrow> length (put32 bs off v) = length bs"
  by (simp add: put32_def)

lemma length_put16 [simp]: "off + 2 \<le> length bs \<Longrightarrow> length (put16 bs off v) = length bs"
  by (simp add: put16_def)

lemma length_peek [simp]: "off + n \<le> length bs \<Longrightarrow> length (peek bs off n) = n"
  by (simp add: peek_def)

lemma nth_peek: "off + n \<le> length bs \<Longrightarrow> i < n \<Longrightarrow> peek bs off n ! i = bs ! (off + i)"
  by (simp add: peek_def)

lemma nth_put_at:
  assumes "off + length new \<le> length bs" "i < length bs"
  shows "put_at bs off new ! i = (if off \<le> i \<and> i < off + length new then new ! (i - off) else bs ! i)"
  using assms by (auto simp: put_at_def nth_append min_def)

lemma peek_put_at_same [simp]: "off + length new \<le> length bs \<Longrightarrow> peek (put_at bs off new) off (length new) = new"
  by (simp add: peek_def put_at_def)

lemma peek_put_at_other:
  assumes "off + length new \<le> length bs" "off' + n \<le> length bs" "off' + n \<le> off \<or> off + length new \<le> off'"
  shows "peek (put_at bs off new) off' n = peek bs off' n"
proof (rule nth_equalityI)
  fix i assume "i < length (peek (put_at bs off new) off' n)"
  then have "i < n" using assms by simp
  then show "peek (put_at bs off new) off' n ! i = peek bs off' n ! i"
    using assms by (auto simp: nth_peek nth_put_at)
qed (use assms in simp)

lemma get32_put32 [simp]: "off + 4 \<le> length bs \<Longrightarrow> get32 (put32 bs off v) off = v"
  using peek_put_at_same [of off "le_bytes 4 v" bs] by (simp add: get32_def put32_def)

lemma get32_put32_other:
  "off + 4 \<le> length bs \<Longrightarrow> off' + 4 \<le> length bs \<Longrightarrow> off' + 4 \<le> off \<or> off + 4 \<le> off' \<Longrightarrow> get32 (put32 bs off v) off' = get32 bs off'"
  by (simp add: get32_def put32_def peek_put_at_other)

lemma get16_put16 [simp]: "off + 2 \<le> length bs \<Longrightarrow> get16 (put16 bs off v) off = v"
  using peek_put_at_same [of off "le_bytes 2 v" bs] by (simp add: get16_def put16_def)

lemma get16_put16_other:
  "off + 2 \<le> length bs \<Longrightarrow> off' + 2 \<le> length bs \<Longrightarrow> off' + 2 \<le> off \<or> off + 2 \<le> off' \<Longrightarrow> get16 (put16 bs off v) off' = get16 bs off'"
  by (simp add: get16_def put16_def peek_put_at_other)

lemma get32_cong: "peek bs off 4 = peek bs' off 4 \<Longrightarrow> get32 bs off = get32 bs' off"
  by (simp add: get32_def)

text \<open>The first half of a block decides the fields in it.\<close>

lemma peek_take: "off + n \<le> k \<Longrightarrow> peek (take k bs) off n = peek bs off n"
  by (simp add: peek_def drop_take min_def)

text \<open>An array of numbers, written one after the other.\<close>

primrec put_words :: "uchar list \<Rightarrow> nat \<Rightarrow> (nat \<Rightarrow> uint) \<Rightarrow> nat \<Rightarrow> uchar list" where
  "put_words bs off f 0 = bs"
| "put_words bs off f (Suc n) = put32 (put_words bs off f n) (off + 4 * n) (f n)"

lemma length_put_words [simp]: "off + 4 * n \<le> length bs \<Longrightarrow> length (put_words bs off f n) = length bs"
  by (induction n) simp_all

lemma get32_put_words:
  assumes "off + 4 * n \<le> length bs" "i < n"
  shows "get32 (put_words bs off f n) (off + 4 * i) = f i"
  using assms
proof (induction n)
  case (Suc n)
  then show ?case by (cases "i = n") (simp_all add: get32_put32_other)
qed simp

lemma get32_put_words_before:
  assumes "off + 4 * n \<le> length bs" "off' + 4 \<le> off"
  shows "get32 (put_words bs off f n) off' = get32 bs off'"
  using assms by (induction n) (simp_all add: get32_put32_other)

lemma peek_put_words:
  assumes "off + 4 * n \<le> length bs" "off' + m \<le> length bs" "off' + m \<le> off \<or> off + 4 * n \<le> off'"
  shows "peek (put_words bs off f n) off' m = peek bs off' m"
  using assms by (induction n) (auto simp: put32_def peek_put_at_other)

lemma get16_put_words:
  "off + 4 * n \<le> length bs \<Longrightarrow> off' + 2 \<le> length bs \<Longrightarrow> off' + 2 \<le> off \<or> off + 4 * n \<le> off' \<Longrightarrow>
   get16 (put_words bs off f n) off' = get16 bs off'"
  by (simp add: get16_def peek_put_words)

lemma get16_put32:
  "off + 4 \<le> length bs \<Longrightarrow> off' + 2 \<le> length bs \<Longrightarrow> off' + 2 \<le> off \<or> off + 4 \<le> off' \<Longrightarrow> get16 (put32 bs off v) off' = get16 bs off'"
  by (simp add: get16_def put32_def peek_put_at_other)

lemma get32_put16:
  "off + 2 \<le> length bs \<Longrightarrow> off' + 4 \<le> length bs \<Longrightarrow> off' + 4 \<le> off \<or> off + 2 \<le> off' \<Longrightarrow> get32 (put16 bs off v) off' = get32 bs off'"
  by (simp add: get32_def put16_def peek_put_at_other)

end
