(* ===== verification/Log.thy ===== *)
theory Log
  imports Cache Layout
begin

text \<open>
  The write-ahead log \<^verbatim>\<open>kernel/log.c\<close>, with \<^verbatim>\<open>struct superblock\<close> of \<^verbatim>\<open>kernel/fs.h\<close>.
  A system call that modifies the file system does so in the buffer cache, where the
  modified buffers are pinned; when no call is active, \<open>commit\<close> writes them to
  the log, writes the header, copies them to their places and clears the header.
  The lemmas show that a crash at any request to the disk, even in the middle of a block, leaves
  a disk from which \<open>recover_from_log\<close> restores either all of the modified blocks or none.
\<close>

section \<open>State\<close>

record superblock =
  sb_magic :: uint
  sb_size :: uint
  sb_nblocks :: uint
  sb_ninodes :: uint
  sb_nlog :: uint
  sb_logstart :: uint
  sb_inodestart :: uint
  sb_bmapstart :: uint

record logheader =
  lh_n :: int
  lh_block :: "nat \<Rightarrow> uint"

record logst =
  lg_start :: uint
  lg_size :: int
  lg_outstanding :: int
  lg_committing :: bool
  lg_dev :: uint
  lg_lh :: logheader

record lmach = bmach +
  log :: logst

section \<open>The code\<close>

text \<open>One round of the loop of \<open>install_trans\<close>, and of \<open>write_log\<close>.\<close>

definition install_one :: "bool \<Rightarrow> nat \<Rightarrow> ('m lmach_scheme, unit) kern" where
  "install_one recovering tail =
     bind (gets log) (\<lambda>l.
     bind (bread (lg_dev l) (lg_start l + of_nat tail + 1)) (\<lambda>lbuf.
     bind (bread (lg_dev l) (lh_block (lg_lh l) tail)) (\<lambda>dbuf.
     bind (gets (\<lambda>s. b_data (bufs s lbuf))) (\<lambda>bs.
     seq (modify (set_buf dbuf (\<lambda>q. q\<lparr>b_data := bs\<rparr>))) (
     seq (bwrite dbuf) (
     seq (whenM (\<not> recovering) (bunpin dbuf)) (
     seq (brelse lbuf) (
     brelse dbuf))))))))"

definition install_trans :: "bool \<Rightarrow> ('m lmach_scheme, unit) kern" where
  "install_trans recovering =
     bind (gets (\<lambda>s. lh_n (lg_lh (log s)))) (\<lambda>n. for_each [0..<nat n] (install_one recovering))"

definition decode_head :: "uchar list \<Rightarrow> logheader" where
  "decode_head bs = \<lparr>lh_n = sint (get32 bs 0), lh_block = (\<lambda>i. get32 bs (4 + 4 * i))\<rparr>"

definition read_head :: "('m lmach_scheme, unit) kern" where
  "read_head =
     bind (gets log) (\<lambda>l.
     bind (bread (lg_dev l) (lg_start l)) (\<lambda>b.
     bind (gets (\<lambda>s. decode_head (b_data (bufs s b)))) (\<lambda>lh.
     seq (modify (\<lambda>s. s\<lparr>log := (log s)\<lparr>lg_lh :=
       \<lparr>lh_n = lh_n lh, lh_block = (\<lambda>i. if int i < lh_n lh then lh_block lh i else lh_block (lg_lh (log s)) i)\<rparr>\<rparr>\<rparr>)) (
     brelse b))))"

definition encode_head :: "logheader \<Rightarrow> uchar list \<Rightarrow> uchar list" where
  "encode_head lh bs = put_words (put32 bs 0 (word_of_int (lh_n lh))) 4 (lh_block lh) (nat (lh_n lh))"

definition write_head :: "('m lmach_scheme, unit) kern" where
  "write_head =
     bind (gets log) (\<lambda>l.
     bind (bread (lg_dev l) (lg_start l)) (\<lambda>b.
     seq (modify (set_buf b (\<lambda>q. q\<lparr>b_data := encode_head (lg_lh l) (b_data q)\<rparr>))) (
     seq (bwrite b) (
     brelse b))))"

definition clear_head :: "('m lmach_scheme, unit) kern" where
  "clear_head = modify (\<lambda>s. s\<lparr>log := (log s)\<lparr>lg_lh := (lg_lh (log s))\<lparr>lh_n := 0\<rparr>\<rparr>\<rparr>)"

definition recover_from_log :: "('m lmach_scheme, unit) kern" where
  "recover_from_log = seq read_head (seq (install_trans True) (seq clear_head write_head))"

definition initlog :: "uint \<Rightarrow> superblock \<Rightarrow> ('m lmach_scheme, unit) kern" where
  "initlog dev sb =
     (if 4 + 4 * LOGSIZE \<ge> BSIZE then panic ''initlog: too big logheader'' else
      seq (initlock L_log ''log'') (
      seq (modify (\<lambda>s. s\<lparr>log := (log s)\<lparr>lg_start := sb_logstart sb, lg_size := sint (sb_nlog sb), lg_dev := dev\<rparr>\<rparr>)) (
      recover_from_log)))"

definition begin_op :: "('m lmach_scheme, unit) kern" where
  "begin_op =
     seq (acquire L_log) (
     bind (whileM (\<lambda>stop _. \<not> stop)
       (\<lambda>_. bind (gets log) (\<lambda>l.
          if lg_committing l then seq (sleep Ch_log L_log) (ret False)
          else if lh_n (lg_lh l) + (lg_outstanding l + 1) * int MAXOPBLOCKS > int LOGSIZE
          then seq (sleep Ch_log L_log) (ret False)
          else seq (modify (\<lambda>s. s\<lparr>log := (log s)\<lparr>lg_outstanding := lg_outstanding (log s) + 1\<rparr>\<rparr>)) (
               seq (release L_log) (
               ret True)))) False) (\<lambda>_.
     ret ()))"

definition write_log_one :: "nat \<Rightarrow> ('m lmach_scheme, unit) kern" where
  "write_log_one tail =
     bind (gets log) (\<lambda>l.
     bind (bread (lg_dev l) (lg_start l + of_nat tail + 1)) (\<lambda>b_to.
     bind (bread (lg_dev l) (lh_block (lg_lh l) tail)) (\<lambda>b_from.
     bind (gets (\<lambda>s. b_data (bufs s b_from))) (\<lambda>bs.
     seq (modify (set_buf b_to (\<lambda>q. q\<lparr>b_data := bs\<rparr>))) (
     seq (bwrite b_to) (
     seq (brelse b_from) (
     brelse b_to)))))))"

definition write_log :: "('m lmach_scheme, unit) kern" where
  "write_log = bind (gets (\<lambda>s. lh_n (lg_lh (log s)))) (\<lambda>n. for_each [0..<nat n] write_log_one)"

definition commit :: "('m lmach_scheme, unit) kern" where
  "commit =
     bind (gets (\<lambda>s. lh_n (lg_lh (log s)))) (\<lambda>n.
     whenM (n > 0) (
       seq write_log (
       seq write_head (
       seq (install_trans False) (
       seq clear_head write_head)))))"

definition end_op :: "('m lmach_scheme, unit) kern" where
  "end_op =
     seq (acquire L_log) (
     seq (modify (\<lambda>s. s\<lparr>log := (log s)\<lparr>lg_outstanding := lg_outstanding (log s) - 1\<rparr>\<rparr>)) (
     bind (gets log) (\<lambda>l.
     if lg_committing l then panic ''log.committing'' else
     let do_commit = (lg_outstanding l = 0) in
     seq (if do_commit then modify (\<lambda>s. s\<lparr>log := (log s)\<lparr>lg_committing := True\<rparr>\<rparr>) else wakeup Ch_log) (
     seq (release L_log) (
     whenM do_commit (
       seq commit (
       seq (acquire L_log) (
       seq (modify (\<lambda>s. s\<lparr>log := (log s)\<lparr>lg_committing := False\<rparr>\<rparr>)) (
       seq (wakeup Ch_log) (
       release L_log))))))))))"

definition log_slot :: "logheader \<Rightarrow> uint \<Rightarrow> nat" where
  "log_slot lh bno = (case find (\<lambda>i. lh_block lh i = bno) [0..<nat (lh_n lh)] of Some i \<Rightarrow> i | None \<Rightarrow> nat (lh_n lh))"

definition log_write :: "nat \<Rightarrow> ('m lmach_scheme, unit) kern" where
  "log_write b =
     seq (acquire L_log) (
     bind (gets log) (\<lambda>l.
     if lh_n (lg_lh l) \<ge> int LOGSIZE \<or> lh_n (lg_lh l) \<ge> lg_size l - 1 then panic ''too big a transaction'' else
     if lg_outstanding l < 1 then panic ''log_write outside of trans'' else
     bind (gets (\<lambda>s. b_blockno (bufs s b))) (\<lambda>bno.
     let i = log_slot (lg_lh l) bno in
     seq (modify (\<lambda>s. s\<lparr>log := (log s)\<lparr>lg_lh := (lg_lh (log s))\<lparr>lh_block := (lh_block (lg_lh (log s)))(i := bno)\<rparr>\<rparr>\<rparr>)) (
     seq (whenM (int i = lh_n (lg_lh l)) (
       seq (bpin b) (
       modify (\<lambda>s. s\<lparr>log := (log s)\<lparr>lg_lh := (lg_lh (log s))\<lparr>lh_n := lh_n (lg_lh (log s)) + 1\<rparr>\<rparr>\<rparr>)))) (
     release L_log)))))"

text \<open>The lock operations and the new fields do not interfere.\<close>

lemma lmach_sel [simp]:
  "log (acquired lk s) = log s"
  "log (touched s) = log s"
  "log (set_proc p g s) = log s"
  "log (set_sleeplock l h s) = log s"
  "log (set_lock lk k s) = log s"
  by (simp_all add: acquired_def pushed_def touched_def mach_upd_defs)

lemma lmach_upd [simp]:
  "log_update ulog (acquired lk s) = acquired lk (log_update ulog s)"
  "log_update ulog (touched s) = touched (log_update ulog s)"
  by (simp_all add: acquired_def pushed_def touched_def mach_upd_defs intr_get_def)

lemma lmach_ok [simp]:
  "cpu_ok (log_update ulog s) = cpu_ok s"
  "lock_free lk (log_update ulog s) = lock_free lk s"
  "mycpu (log_update ulog s) = mycpu s"
  "intr_get (log_update ulog s) = intr_get s"
  "holding lk (log_update ulog s) = holding lk s"
  "proc_locks_free (log_update ulog s) = proc_locks_free s"
  "running p (log_update ulog s) = running p s"
  by (simp_all add: cpu_ok_def lock_free_def mach_upd_defs intr_get_def holding_def proc_locks_free_def running_def)


lemma calm_log [simp]: "calm p (log_update f s) = calm p s"
  by (rule calm_cong) (simp add: mach.truncate_def)

section \<open>What a disk with a log means\<close>

definition log_blk :: "uint \<Rightarrow> nat \<Rightarrow> uint" where
  "log_blk st i = st + of_nat i + 1"

definition in_log :: "uint \<Rightarrow> uint \<Rightarrow> bool" where
  "in_log st x \<longleftrightarrow> unat st \<le> unat x \<and> unat x < unat st + LOGSIZE"

definition head_ok :: "uint \<Rightarrow> logheader \<Rightarrow> bool" where
  "head_ok st lh \<longleftrightarrow> 0 \<le> lh_n lh \<and> lh_n lh < int LOGSIZE \<and> inj_on (lh_block lh) {..<nat (lh_n lh)} \<and>
     (\<forall>i < nat (lh_n lh). \<not> in_log st (lh_block lh i) \<and> unat (lh_block lh i) < 2 ^ 31)"

text \<open>The contents of a block, by the log if it has a copy.\<close>

definition redo :: "logheader \<Rightarrow> uint \<Rightarrow> (uint \<Rightarrow> uchar list) \<Rightarrow> uint \<Rightarrow> uchar list" where
  "redo lh st D x = (case find (\<lambda>i. lh_block lh i = x) [0..<nat (lh_n lh)] of Some i \<Rightarrow> D (log_blk st i) | None \<Rightarrow> D x)"

definition recovered :: "uint \<Rightarrow> (uint \<Rightarrow> uchar list) \<Rightarrow> uint \<Rightarrow> uchar list" where
  "recovered st D = redo (decode_head (D st)) st D"

definition same_head :: "logheader \<Rightarrow> logheader \<Rightarrow> bool" where
  "same_head lh lh' \<longleftrightarrow> lh_n lh = lh_n lh' \<and> (\<forall>i < nat (lh_n lh'). lh_block lh i = lh_block lh' i)"

definition means :: "uint \<Rightarrow> (uint \<Rightarrow> uchar list) \<Rightarrow> (uint \<Rightarrow> uchar list) \<Rightarrow> bool" where
  "means st T D \<longleftrightarrow> head_ok st (decode_head (D st)) \<and> (\<forall>x. \<not> in_log st x \<longrightarrow> recovered st D x = T x)"

lemma LOGSIZE_pos [simp]: "0 < LOGSIZE"
  by (simp add: LOGSIZE_def MAXOPBLOCKS_def)

primrec upds :: "(nat \<Rightarrow> uint) \<Rightarrow> (nat \<Rightarrow> 'a) \<Rightarrow> nat \<Rightarrow> (uint \<Rightarrow> 'a) \<Rightarrow> uint \<Rightarrow> 'a" where
  "upds B v 0 D = D"
| "upds B v (Suc n) D = (upds B v n D)(B n := v n)"

lemma upds_other: "(\<And>i. i < n \<Longrightarrow> x \<noteq> B i) \<Longrightarrow> upds B v n D x = D x"
  by (induction n) auto

lemma upds_changed: "upds B v n D x \<noteq> D x \<Longrightarrow> \<exists>i < n. x = B i"
  using upds_other by metis

lemma upds_cong: "X x = Y x \<Longrightarrow> upds B v n X x = upds B v n Y x"
  by (induction n) auto

lemma upds_val_cong: "(\<And>i. i < n \<Longrightarrow> v i = v' i) \<Longrightarrow> upds B v n D = upds B v' n D"
  by (induction n) auto

lemma upds_id [simp]: "upds B (\<lambda>j. V (B j)) n V = V"
  by (induction n) auto

lemma upds_at: "inj_on B {..<n} \<Longrightarrow> i < n \<Longrightarrow> upds B v n D (B i) = v i"
proof (induction n)
  case (Suc n)
  then show ?case by (cases "i = n") (auto simp: inj_on_def)
qed simp

lemma log_blk_unat: "unat st + LOGSIZE < 2 ^ 31 \<Longrightarrow> i < LOGSIZE \<Longrightarrow> unat (log_blk st i) = unat st + i + 1"
  unfolding log_blk_def LOGSIZE_def MAXOPBLOCKS_def
  by (subst add.assoc) (simp add: unat_word_ariths unat_of_nat)

lemma log_blk_inj: "unat st + LOGSIZE < 2 ^ 31 \<Longrightarrow> n \<le> LOGSIZE \<Longrightarrow> inj_on (log_blk st) {..<n}"
  by (rule inj_onI) (metis (no_types, lifting) log_blk_unat add_left_cancel add_right_cancel lessThan_iff less_le_trans)

lemma log_blk_in: "unat st + LOGSIZE < 2 ^ 31 \<Longrightarrow> Suc i < LOGSIZE \<Longrightarrow> in_log st (log_blk st i) \<and> log_blk st i \<noteq> st \<and> unat (log_blk st i) < 2 ^ 31"
  using log_blk_unat [of st i] by (auto simp: in_log_def)

lemma redo_same: "same_head lh lh' \<Longrightarrow> redo lh st D x = redo lh' st D x"
  unfolding redo_def same_head_def by (auto intro!: arg_cong [where f = "case_option _ _"] find_cong)

lemma head_ok_same: "same_head lh lh' \<Longrightarrow> head_ok st lh = head_ok st lh'"
  unfolding head_ok_def same_head_def by (auto simp: inj_on_def)

lemma redo_listed:
  assumes "inj_on (lh_block lh) {..<nat (lh_n lh)}" "i < nat (lh_n lh)"
  shows "redo lh st D (lh_block lh i) = D (log_blk st i)"
proof -
  have "find (\<lambda>j. lh_block lh j = lh_block lh i) [0..<nat (lh_n lh)] = Some i"
    unfolding find_Some_iff using assms by (intro exI [of _ i]) (auto simp: inj_on_def)
  then show ?thesis by (simp add: redo_def)
qed

lemma redo_unlisted: "(\<And>i. i < nat (lh_n lh) \<Longrightarrow> lh_block lh i \<noteq> x) \<Longrightarrow> redo lh st D x = D x"
proof -
  assume "\<And>i. i < nat (lh_n lh) \<Longrightarrow> lh_block lh i \<noteq> x"
  then have "find (\<lambda>i. lh_block lh i = x) [0..<nat (lh_n lh)] = None" by (auto simp: find_None_iff)
  then show ?thesis by (simp add: redo_def)
qed

lemma head_cong:
  assumes "take 512 a = take 512 b" "0 \<le> lh_n (decode_head b)" "lh_n (decode_head b) \<le> int LOGSIZE"
  shows "same_head (decode_head a) (decode_head b)"
proof -
  have "get32 a off = get32 b off" if "off + 4 \<le> 512" for off
    using peek_take [OF that, of a] peek_take [OF that, of b] assms(1) by (simp add: get32_def)
  then show ?thesis using assms(2,3) by (auto simp: same_head_def decode_head_def LOGSIZE_def MAXOPBLOCKS_def)
qed

lemma decode_encode:
  assumes "length bs = BSIZE" "0 \<le> lh_n lh" "lh_n lh \<le> int LOGSIZE"
  shows "same_head (decode_head (encode_head lh bs)) lh"
proof -
  have le: "4 + 4 * nat (lh_n lh) \<le> length bs" using assms by (simp add: LOGSIZE_def MAXOPBLOCKS_def BSIZE_def)
  have "get32 (encode_head lh bs) 0 = word_of_int (lh_n lh)"
    using le by (simp add: encode_head_def get32_put_words_before)
  moreover have "sint (word_of_int (lh_n lh) :: uint) = lh_n lh"
    using assms by (simp add: LOGSIZE_def MAXOPBLOCKS_def signed_take_bit_int_eq_self signed_of_int)
  moreover have "get32 (encode_head lh bs) (4 + 4 * i) = lh_block lh i" if "i < nat (lh_n lh)" for i
    using le that by (simp add: encode_head_def get32_put_words)
  ultimately show ?thesis by (simp add: same_head_def decode_head_def)
qed

lemma length_encode [simp]: "length bs = BSIZE \<Longrightarrow> lh_n lh \<le> int LOGSIZE \<Longrightarrow> length (encode_head lh bs) = BSIZE"
  by (simp add: encode_head_def LOGSIZE_def MAXOPBLOCKS_def BSIZE_def)

section \<open>The steps of a commit\<close>

lemma bframe_log:
  assumes "bframe s t"
  shows "log t = log s"
proof -
  obtain a1 a2 a3 a4 a5 where "t = s\<lparr>sleeplocks := a1, vmmio := a2, vdisk := a3, bufs := a4, sectors := a5\<rparr>"
    using assms unfolding bframe_def by blast
  then show ?thesis by simp
qed

lemma run_for_each_upt:
  assumes "\<And>i s. i < n \<Longrightarrow> I i s \<Longrightarrow> disk_run f m (g i) s C (\<lambda>_ t. I (Suc i) t)" "I 0 s"
    and "\<And>t. I n t \<Longrightarrow> Q () t"
  shows "disk_run f (n * m) (for_each [0..<n] g) s C Q"
proof -
  have "disk_run f (length [0..<n] * m) (for_each [0..<n] g) s C (\<lambda>_ t. I (length [0..<n]) t)"
    using assms(1,2) by (intro disk_run_for_each) simp_all
  then show ?thesis by (rule disk_run_conseq [THEN disk_run_weaken]) (use assms(3) in simp_all)
qed

lemma write_log_one_run:
  assumes "cache d p s V R L D" "virtio_blk dev" "lg_dev (log s) = d" "log_blk (lg_start (log s)) i = lb"
    and "lh_block (lg_lh (log s)) i = x" "x \<noteq> lb" "\<not> L x" "\<not> L lb" "R x \<noteq> 0" "R x < 2 ^ 32 - 1" "R lb < 2 ^ 32 - 1"
    and "card {x. R x \<noteq> 0} < NBUF" "unat lb < 2 ^ 31" "unat x < 2 ^ 31" "\<And>w. P (D(lb := w))"
  shows "disk_run (serve dev p) 3 (write_log_one i) s (crash P)
    (\<lambda>_ t. cache d p t (V(lb := V x)) R L (D(lb := V x)) \<and> bframe s t)"
  unfolding write_log_one_def disk_run_bind_gets assms(3) log_blk_def [symmetric] assms(4,5) eval_nat_numeral(3) numeral_2_eq_2
proof (rule run_bread [OF assms(1,2,8)])
  have P0: "P D" using assms(15) [of "D lb"] by simp
  have L0: "L(lb := False, x := False) = L" "L(x := False, lb := False) = L" using assms(7,8) by (auto simp: fun_eq_iff)
  show "card {x. R x \<noteq> 0} < NBUF \<or> R lb \<noteq> 0" "R lb < 2 ^ 32 - 1" "unat lb < 2 ^ 31" "P D" using assms P0 by simp_all
  fix b t assume b: "held d p t b lb" and t: "cache d p t V (R(lb := Suc (R lb))) (L(lb := True)) D" and st: "bframe s t"
  show "disk_run (serve dev p) (Suc (Suc 0)) (bind (bread d x) (\<lambda>b_from. bind (gets (\<lambda>s. b_data (bufs s b_from))) (\<lambda>bs.
     seq (modify (set_buf b (\<lambda>q. q\<lparr>b_data := bs\<rparr>))) (seq (bwrite b) (seq (brelse b_from) (brelse b)))))) t (crash P)
    (\<lambda>_ t. cache d p t (V(lb := V x)) R L (D(lb := V x)) \<and> bframe s t)"
  proof (rule run_bread [OF t assms(2)], goal_cases)
    case (6 b2 u)
    note c = 6(1) 6(4) [OF b]
    show ?case
      unfolding disk_run_bind_gets held_value [OF 6(1,2)]
    proof (rule run_set_data [OF 6(2) c(2), where g = "\<lambda>_. V x"], goal_cases)
      case 1
      show ?case by (rule held_length [OF 6(1,2)])
    next
      case (2 v)
      note h2 = c [folded 2(3)]
      show ?case
      proof (rule run_bwrite [OF 2(1) assms(2) h2(2)], goal_cases)
        case 1
        show ?case by (rule assms(15))
      next
        case (2 w)
        show ?case
          using 2(3) [OF h2(1)] 2(3) [OF h2(2)] assms(6,9) L0
            bframe_trans [OF bframe_trans [OF bframe_trans [OF st \<open>bframe t u\<close>] \<open>bframe u v\<close>] 2(2)]
          by (intro run_brelse2 [OF 2(1)]) (auto elim: bframe_trans)
      qed
    qed
  qed (use assms P0 in auto)
qed
lemma card_ref: "card {y. (R(x := Suc k)) y \<noteq> 0} \<le> Suc (card {y. R y \<noteq> (0 :: nat)})"
proof -
  have "{y. (R(x := Suc k)) y \<noteq> 0} = insert x {y. R y \<noteq> 0}" by auto
  then show ?thesis by (cases "finite {y. R y \<noteq> 0}") (simp_all add: card_insert_if)
qed

lemma install_one_run:
  assumes "cache d p s V R L D" "virtio_blk dev" "lg_dev (log s) = d" "log_blk (lg_start (log s)) i = lb"
    and "lh_block (lg_lh (log s)) i = x" "x \<noteq> lb" "\<not> L x" "\<not> L lb" "R x < 2 ^ 32 - 1" "R lb < 2 ^ 32 - 1"
    and "if recovering then card {x. R x \<noteq> 0} + 1 < NBUF else card {x. R x \<noteq> 0} < NBUF \<and> R x \<noteq> 0"
    and "unat lb < 2 ^ 31" "unat x < 2 ^ 31" "\<And>w. P (D(x := w))" "V lb = D lb"
  shows "disk_run (serve dev p) 3 (install_one recovering i) s (crash P)
    (\<lambda>_ t. cache d p t (V(x := D lb)) (if recovering then R else R(x := R x - 1)) L (D(x := D lb)) \<and> bframe s t)"
  unfolding install_one_def disk_run_bind_gets assms(3) log_blk_def [symmetric] assms(4,5) eval_nat_numeral(3) numeral_2_eq_2
proof (rule run_bread [OF assms(1,2,8)], goal_cases)
  case (5 b t)
  have P0: "P D" using assms(14) [of "D x"] by simp
  have L0: "L(lb := False, x := False) = L" "L(x := False, lb := False) = L" using assms(7,8) by (auto simp: fun_eq_iff)
  show ?case
  proof (rule run_bread [OF 5(2) assms(2)], goal_cases)
    case 2
    show ?case
    proof (cases recovering)
      case True
      then have "card {x. (R(lb := Suc (R lb))) x \<noteq> 0} < NBUF" using assms(11) card_ref [of R lb "R lb"] by simp
      then show ?thesis ..
    qed (use assms(6,11) in simp)
  next
    case (6 b2 u)
    note c = 6(1) 6(4) [OF 5(1)]
    show ?case
      unfolding disk_run_bind_gets held_value [OF c(2) 6(2)] assms(15)
    proof (rule run_set_data [OF 6(2) c(1), where g = "\<lambda>_. D lb"], goal_cases)
      case 1
      show ?case using held_length [OF c(2) 6(2)] assms(15) by simp
    next
      case (2 v)
      note h2 = c [folded 2(3)]
      show ?case
      proof (rule run_bwrite [OF 2(1) assms(2) h2(1)], goal_cases)
        case 1
        show ?case by (rule assms(14))
      next
        case (2 w)
        note fr = bframe_trans [OF bframe_trans [OF bframe_trans [OF 5(3) 6(3)] \<open>bframe u v\<close>] 2(2)]
        note h3 = 2(3) [OF h2(1)] 2(3) [OF h2(2)]
        show ?case
        proof (cases recovering)
          case True
          then show ?thesis using h3 assms(6,15) L0 fr
            by simp (rule run_brelse2 [OF 2(1) h3(2,1)]; auto elim: bframe_trans)
        next
          case False
          have "disk_run (serve dev p) 0 (seq (bunpin b2) (seq (brelse b) (brelse b2))) w (crash P)
            (\<lambda>_ t. cache d p t (V(x := D lb)) (R(x := R x - 1)) L (D(x := D lb)) \<and> bframe s t)"
          proof (rule run_bunpin [OF 2(1) h3(1)], goal_cases)
            case (2 a)
            show ?case using 2 assms(6,11,15) L0 fr False
              by (intro run_brelse2 [OF 2(1) h3(2,1) [folded 2(3)]]) (auto elim: bframe_trans)
          qed (use assms(11) False in simp)
          then show ?thesis using False by simp
        qed
      qed
    qed
  qed (use assms P0 in auto)
qed (use assms assms(14) [of "D x"] in \<open>auto split: if_splits\<close>)

lemma cache_log [simp]:
  "cache d p (log_update f s) = cache d p s"
  by (rule cache_cong) simp_all

lemma held_log [simp]: "held d p (log_update f s) = held d p s"
  by (rule held_cong) simp_all

lemma write_head_run:
  assumes "cache d p s V R L D" "virtio_blk dev" "log s = l" "lg_dev l = d" "lg_start l = st" "\<not> L st" "R st < 2 ^ 32 - 1"
    and "card {x. R x \<noteq> 0} < NBUF" "unat st < 2 ^ 31" "lh_n (lg_lh l) \<le> int LOGSIZE"
    and "\<And>w. length w = BSIZE \<Longrightarrow> take 512 w = take 512 (encode_head (lg_lh l) (V st)) \<or> take 512 w = take 512 (D st) \<Longrightarrow> P (D(st := w))"
  shows "disk_run (serve dev p) 2 write_head s (crash P)
    (\<lambda>_ t. cache d p t (V(st := encode_head (lg_lh l) (V st))) R L (D(st := encode_head (lg_lh l) (V st))) \<and> bframe s t)"
  unfolding write_head_def disk_run_bind_gets assms(3-5) numeral_2_eq_2
proof (rule run_bread [OF assms(1,2,6)], goal_cases)
  case 4
  then show ?case using assms(11) [of "D st"] cacheD(5) [OF assms(1)] assms(9) by simp
next
  case (5 b t)
  show ?case
  proof (rule run_set_data [OF 5(2,1), where g = "encode_head (lg_lh l)"], goal_cases)
    case 1
    show ?case using held_length [OF 5(1,2)] assms(10) by simp
  next
    case (2 u)
    note h = 5(1) [folded 2(3)]
    show ?case
    proof (rule run_bwrite [OF 2(1) assms(2) h], goal_cases)
      case (2 v)
      then show ?case
        using bframe_trans [OF bframe_trans [OF 5(3) \<open>bframe t u\<close>] 2(2)] assms(6) 2(3) [OF h]
        by (intro run_brelse_last [OF 2(1)]) (auto elim: bframe_trans simp: fun_upd_idem)
    qed (use assms(11) in simp)
  qed
qed (use assms in simp_all)

lemma read_head_run:
  assumes "cache d p s V R L D" "virtio_blk dev" "log s = l" "lg_dev l = d" "lg_start l = st" "\<not> L st" "R st < 2 ^ 32 - 1"
    and "card {x. R x \<noteq> 0} < NBUF" "unat st < 2 ^ 31" "V st = D st" "P D"
  shows "disk_run (serve dev p) 1 read_head s (crash P)
    (\<lambda>_ t. cache d p t V R L D \<and> lg_dev (log t) = d \<and> lg_start (log t) = st \<and> same_head (lg_lh (log t)) (decode_head (D st)))"
  unfolding read_head_def disk_run_bind_gets assms(3-5) One_nat_def
proof (rule run_bread [OF assms(1,2,6)], goal_cases)
  case (5 b t)
  show ?case
    unfolding disk_run_bind_gets disk_run_seq_modify held_value [OF 5(1,2)] assms(10)
    using 5 assms(4-6,10)
    by (intro run_brelse_last [where b = b and bno = st and p = p and d = d])
      (auto simp: fun_upd_idem same_head_def bframe_log assms(3))
qed (use assms in simp_all)

lemma write_log_run:
  assumes c: "cache d p s V R L D" and dev: "virtio_blk dev" and l: "log s = l" "lg_dev l = d" "lg_start l = st" "lg_lh l = lh"
    and hd: "head_ok st lh" "unat st + LOGSIZE < 2 ^ 31"
    and pinned: "\<And>i. i < nat (lh_n lh) \<Longrightarrow> \<not> L (lh_block lh i) \<and> R (lh_block lh i) \<noteq> 0 \<and> R (lh_block lh i) < 2 ^ 32 - 1"
    and free: "\<And>x. in_log st x \<Longrightarrow> \<not> L x \<and> R x < 2 ^ 32 - 1" "card {x. R x \<noteq> 0} < NBUF"
    and P: "\<And>D'. (\<And>x. D' x \<noteq> D x \<Longrightarrow> in_log st x \<and> x \<noteq> st) \<Longrightarrow> P D'"
  shows "disk_run (serve dev p) (nat (lh_n lh) * 3) write_log s (crash P)
    (\<lambda>_ t. cache d p t (upds (log_blk st) (\<lambda>j. V (lh_block lh j)) (nat (lh_n lh)) V) R L
        (upds (log_blk st) (\<lambda>j. V (lh_block lh j)) (nat (lh_n lh)) D) \<and> bframe s t)"
  unfolding write_log_def disk_run_bind_gets l
proof (rule run_for_each_upt [where I = "\<lambda>i t. cache d p t (upds (log_blk st) (\<lambda>j. V (lh_block lh j)) i V) R L
      (upds (log_blk st) (\<lambda>j. V (lh_block lh j)) i D) \<and> bframe s t"], goal_cases)
  case (1 i t)
  have i: "Suc i < LOGSIZE" using 1(1) hd(1) unfolding head_ok_def by linarith
  have lt: "log t = l" using 1(2) l by (auto dest: bframe_log)
  have home: "\<not> in_log st (lh_block lh i)" "unat (lh_block lh i) < 2 ^ 31" using hd(1) 1(1) by (auto simp: head_ok_def)
  have lb: "in_log st (log_blk st j) \<and> log_blk st j \<noteq> st \<and> unat (log_blk st j) < 2 ^ 31" if "j \<le> i" for j
    using log_blk_in [OF hd(2)] i that by simp
  have same: "upds (log_blk st) (\<lambda>j. V (lh_block lh j)) i V (lh_block lh i) = V (lh_block lh i)"
    using home lb by (intro upds_other) (metis less_imp_le)
  have "P ((upds (log_blk st) (\<lambda>j. V (lh_block lh j)) i D)(log_blk st i := w))" for w
  proof (rule P)
    show "in_log st x \<and> x \<noteq> st" if "((upds (log_blk st) (\<lambda>j. V (lh_block lh j)) i D)(log_blk st i := w)) x \<noteq> D x" for x
      using that lb upds_changed [of "log_blk st" "\<lambda>j. V (lh_block lh j)" i D x] by (cases "x = log_blk st i") auto
  qed
  then have "disk_run (serve dev p) 3 (write_log_one i) t (crash P)
    (\<lambda>_ u. cache d p u ((upds (log_blk st) (\<lambda>j. V (lh_block lh j)) i V)(log_blk st i := upds (log_blk st) (\<lambda>j. V (lh_block lh j)) i V (lh_block lh i))) R L
      ((upds (log_blk st) (\<lambda>j. V (lh_block lh j)) i D)(log_blk st i := upds (log_blk st) (\<lambda>j. V (lh_block lh j)) i V (lh_block lh i))) \<and> bframe t u)"
    using 1 l lt pinned [OF 1(1)] free home lb [of i] dev by (intro write_log_one_run) auto
  then show ?case
    by (rule disk_run_conseq) (use same 1 bframe_trans in \<open>auto\<close>)
qed (use c in auto)

lemma install_trans_run:
  assumes c: "cache d p s V R L D" and dev: "virtio_blk dev" and l: "log s = l" "lg_dev l = d" "lg_start l = st" "lg_lh l = lh"
    and hd: "head_ok st lh" "unat st + LOGSIZE < 2 ^ 31"
    and room: "if recovering then card {x. R x \<noteq> 0} + 1 < NBUF else card {x. R x \<noteq> 0} < NBUF \<and> (\<forall>i < nat (lh_n lh). R (lh_block lh i) \<noteq> 0)"
    and free: "\<And>i. i < nat (lh_n lh) \<Longrightarrow> \<not> L (lh_block lh i) \<and> R (lh_block lh i) < 2 ^ 32 - 1"
      "\<And>x. in_log st x \<Longrightarrow> \<not> L x \<and> R x < 2 ^ 32 - 1"
    and copy: "\<And>i. i < nat (lh_n lh) \<Longrightarrow> V (log_blk st i) = D (log_blk st i)"
    and P: "\<And>D'. (\<And>x. D' x \<noteq> D x \<Longrightarrow> \<exists>i < nat (lh_n lh). x = lh_block lh i) \<Longrightarrow> P D'"
  shows "disk_run (serve dev p) (nat (lh_n lh) * 3) (install_trans recovering) s (crash P)
    (\<lambda>_ t. cache d p t (upds (lh_block lh) (\<lambda>j. D (log_blk st j)) (nat (lh_n lh)) V)
        (if recovering then R else upds (lh_block lh) (\<lambda>j. R (lh_block lh j) - 1) (nat (lh_n lh)) R) L
        (upds (lh_block lh) (\<lambda>j. D (log_blk st j)) (nat (lh_n lh)) D) \<and> bframe s t)"
  unfolding install_trans_def disk_run_bind_gets l
proof (rule run_for_each_upt [where I = "\<lambda>i t. cache d p t (upds (lh_block lh) (\<lambda>j. D (log_blk st j)) i V)
        (if recovering then R else upds (lh_block lh) (\<lambda>j. R (lh_block lh j) - 1) i R) L
        (upds (lh_block lh) (\<lambda>j. D (log_blk st j)) i D) \<and> bframe s t"], goal_cases)
  case (1 i t)
  let ?B = "lh_block lh"
  let ?R = "if recovering then R else upds ?B (\<lambda>j. R (?B j) - 1) i R"
  have i: "Suc i < LOGSIZE" using 1(1) hd(1) unfolding head_ok_def by linarith
  have lt: "log t = l" using 1(2) l by (auto dest: bframe_log)
  have home: "\<not> in_log st (?B j)" "unat (?B j) < 2 ^ 31" "j < i \<Longrightarrow> ?B j \<noteq> ?B i" if "j \<le> i" for j
    using hd(1) 1(1) that by (auto simp: head_ok_def inj_on_def)
  note lb = log_blk_in [OF hd(2) i]
  have keep: "upds ?B v i X (log_blk st i) = X (log_blk st i)" for v and X :: "uint \<Rightarrow> 'z"
    using home(1) lb by (intro upds_other) (metis less_imp_le)
  have keepB: "upds ?B v i X (?B i) = X (?B i)" for v and X :: "uint \<Rightarrow> 'z"
    using home(3) by (intro upds_other) (metis less_imp_le)
  have "card {x. upds ?B (\<lambda>j. R (?B j) - 1) i R x \<noteq> 0} \<le> card {x. R x \<noteq> 0}"
  proof (rule card_mono [OF cache_finite [OF c]])
    show "{x. upds ?B (\<lambda>j. R (?B j) - 1) i R x \<noteq> 0} \<subseteq> {x. R x \<noteq> 0}" by (induction i) auto
  qed
  then have rm: "if recovering then card {x. ?R x \<noteq> 0} + 1 < NBUF else card {x. ?R x \<noteq> 0} < NBUF \<and> ?R (?B i) \<noteq> 0"
    using room keepB [of _ R] 1(1) by (cases recovering) simp_all
  have "P ((upds ?B (\<lambda>j. D (log_blk st j)) i D)(?B i := w))" for w
  proof (rule P)
    show "\<exists>i < nat (lh_n lh). x = ?B i" if "((upds ?B (\<lambda>j. D (log_blk st j)) i D)(?B i := w)) x \<noteq> D x" for x
      using that 1(1) upds_changed [of ?B "\<lambda>j. D (log_blk st j)" i D x] less_trans by (cases "x = ?B i") auto
  qed
  then have "disk_run (serve dev p) 3 (install_one recovering i) t (crash P)
    (\<lambda>_ u. cache d p u ((upds ?B (\<lambda>j. D (log_blk st j)) i V)(?B i := upds ?B (\<lambda>j. D (log_blk st j)) i D (log_blk st i)))
      (if recovering then ?R else ?R(?B i := ?R (?B i) - 1)) L
      ((upds ?B (\<lambda>j. D (log_blk st j)) i D)(?B i := upds ?B (\<lambda>j. D (log_blk st j)) i D (log_blk st i))) \<and> bframe t u)"
    using l lt free(1) [OF 1(1)] free(2) home(1,2) [of i] lb copy [OF 1(1)]
    by (intro install_one_run [OF 1(2) [THEN conjunct1] dev _ _ _ _ _ _ _ _ rm]) (auto simp: keep keepB)
  then show ?case
    by (rule disk_run_conseq) (use 1 bframe_trans in \<open>auto simp: keep keepB\<close>)
qed (use c in auto)

section \<open>Commit and recovery\<close>

lemma meansI:
  assumes "head_ok st lh" "same_head (decode_head (D st)) lh"
    and "\<And>i. i < nat (lh_n lh) \<Longrightarrow> D (log_blk st i) = T (lh_block lh i)"
    and "\<And>x. \<not> in_log st x \<Longrightarrow> (\<And>i. i < nat (lh_n lh) \<Longrightarrow> lh_block lh i \<noteq> x) \<Longrightarrow> D x = T x"
  shows "means st T D"
proof -
  have "redo lh st D x = T x" if "\<not> in_log st x" for x
  proof (cases "\<exists>i < nat (lh_n lh). lh_block lh i = x")
    case True
    then obtain i where "i < nat (lh_n lh)" "x = lh_block lh i" by auto
    then show ?thesis using redo_listed assms(1,3) by (simp add: head_ok_def)
  next
    case False
    then have "redo lh st D x = D x" by (intro redo_unlisted) blast
    moreover have "D x = T x" using False by (intro assms(4) that) blast
    ultimately show ?thesis by simp
  qed
  then show ?thesis using assms(1,2) by (simp add: means_def recovered_def redo_same head_ok_same)
qed

lemma means_empty:
  assumes "lh_n (decode_head (D st)) = 0" "\<And>x. \<not> in_log st x \<Longrightarrow> D x = T x"
  shows "means st T D"
  using assms by (intro meansI [of st "decode_head (D st)"]) (simp_all add: head_ok_def same_head_def)

definition after_commit :: "logst \<Rightarrow> (uint \<Rightarrow> uchar list) \<Rightarrow> (uint \<Rightarrow> uchar list) \<Rightarrow> uint \<Rightarrow> uchar list" where
  "after_commit l V D = upds (lh_block (lg_lh l)) (\<lambda>j. V (lh_block (lg_lh l) j)) (nat (lh_n (lg_lh l))) D"

text \<open>The states in which a transaction may be after_commit.\<close>

definition ready :: "uint \<Rightarrow> nat \<Rightarrow> 'm lmach_scheme \<Rightarrow> (uint \<Rightarrow> uchar list) \<Rightarrow> (uint \<Rightarrow> nat) \<Rightarrow> (uint \<Rightarrow> bool) \<Rightarrow> (uint \<Rightarrow> uchar list) \<Rightarrow> bool" where
  "ready d p s V R L D \<longleftrightarrow> cache d p s V R L D \<and> lg_dev (log s) = d \<and>
     (let st = lg_start (log s); lh = lg_lh (log s) in
      unat st + LOGSIZE < 2 ^ 31 \<and> head_ok st lh \<and> lh_n (decode_head (D st)) = 0 \<and> card {x. R x \<noteq> 0} < NBUF \<and>
      (\<forall>x. in_log st x \<longrightarrow> \<not> L x \<and> R x < 2 ^ 32 - 1) \<and>
      (\<forall>i < nat (lh_n lh). \<not> L (lh_block lh i) \<and> R (lh_block lh i) \<noteq> 0 \<and> R (lh_block lh i) < 2 ^ 32 - 1))"

text \<open>The state after the commit, and what the disk may hold on the way.\<close>

lemma write_log_commit:
  assumes r: "ready d p s V R L D" and "virtio_blk dev" and l: "log s = l" "lg_start l = st" "lg_lh l = lh"
    and P: "\<And>D'. means st D D' \<or> means st (after_commit l V D) D' \<Longrightarrow> P D'"
  shows "disk_run (serve dev p) (nat (lh_n lh) * 3) write_log s (crash P)
    (\<lambda>_ t. cache d p t (upds (log_blk st) (\<lambda>j. V (lh_block lh j)) (nat (lh_n lh)) V) R L
        (upds (log_blk st) (\<lambda>j. V (lh_block lh j)) (nat (lh_n lh)) D) \<and> bframe s t)"
proof (rule write_log_run [OF _ assms(2) l(1) _ l(2,3)], goal_cases)
  case (8 D')
  have "means st D D'"
  proof (rule means_empty)
    have "\<not> (in_log st st \<and> st \<noteq> st)" by simp
    then have "D' st = D st" using 8 by blast
    then show "lh_n (decode_head (D' st)) = 0" using r l by (simp add: ready_def)
    show "D' x = D x" if "\<not> in_log st x" for x using 8 that by blast
  qed
  then show ?case by (intro P disjI1)
qed (use r l in \<open>auto simp: ready_def Let_def\<close>)

text \<open>The views of the disk during a commit: the copies in the log, then the header, then the blocks at their places.\<close>

definition copied :: "uint \<Rightarrow> logheader \<Rightarrow> (uint \<Rightarrow> uchar list) \<Rightarrow> (uint \<Rightarrow> uchar list) \<Rightarrow> (uint \<Rightarrow> uchar list) \<Rightarrow> bool" where
  "copied st lh V D D1 \<longleftrightarrow> (\<forall>i < nat (lh_n lh). D1 (log_blk st i) = V (lh_block lh i) \<and> log_blk st i \<noteq> st \<and> in_log st (log_blk st i)) \<and>
     (\<forall>x. x = st \<or> \<not> in_log st x \<longrightarrow> D1 x = D x) \<and> head_ok st lh \<and> in_log st st"

lemma copied_upds:
  assumes "head_ok st lh" "unat st + LOGSIZE < 2 ^ 31" "\<And>i. i < nat (lh_n lh) \<Longrightarrow> v i = V (lh_block lh i)"
  shows "copied st lh V D (upds (log_blk st) v (nat (lh_n lh)) D)"
proof -
  have n: "nat (lh_n lh) < LOGSIZE" using assms(1) unfolding head_ok_def by linarith
  have inl: "log_blk st i \<noteq> st \<and> in_log st (log_blk st i)" if "i < nat (lh_n lh)" for i
    using log_blk_in [OF assms(2), of i] n that by simp
  then have "upds (log_blk st) v (nat (lh_n lh)) D x = D x" if "x = st \<or> \<not> in_log st x" for x
    using that by (intro upds_other) auto
  moreover have "upds (log_blk st) v (nat (lh_n lh)) D (log_blk st i) = V (lh_block lh i)" if "i < nat (lh_n lh)" for i
    using upds_at [OF log_blk_inj [OF assms(2) less_imp_le [OF n]] that, where v = v and D = D] assms(3) [OF that] by simp
  moreover have "in_log st st" by (simp add: in_log_def)
  ultimately show ?thesis using inl assms(1) unfolding copied_def by blast
qed

lemma after_commit_at:
  assumes "head_ok st (lg_lh l)"
  shows "i < nat (lh_n (lg_lh l)) \<Longrightarrow> after_commit l V D (lh_block (lg_lh l) i) = V (lh_block (lg_lh l) i)"
    and "(\<And>i. i < nat (lh_n (lg_lh l)) \<Longrightarrow> lh_block (lg_lh l) i \<noteq> x) \<Longrightarrow> after_commit l V D x = D x"
  unfolding after_commit_def using assms by (auto simp: head_ok_def intro!: upds_at upds_other)

lemma means_install:
  assumes "copied st (lg_lh l) V D D1" "same_head (decode_head e) (lg_lh l)"
    and "\<And>x. D' x \<noteq> (D1(st := e)) x \<Longrightarrow> \<exists>i < nat (lh_n (lg_lh l)). x = lh_block (lg_lh l) i"
  shows "means st (after_commit l V D) D'"
proof (rule meansI)
  show hd: "head_ok st (lg_lh l)" using assms(1) by (simp add: copied_def)
  have keep: "D' x = (D1(st := e)) x" if "in_log st x" for x using assms(3) [of x] that hd unfolding head_ok_def by blast
  show "same_head (decode_head (D' st)) (lg_lh l)" using keep [of st] assms(1,2) by (simp add: copied_def)
  show "D' (log_blk st i) = after_commit l V D (lh_block (lg_lh l) i)" if "i < nat (lh_n (lg_lh l))" for i
    using that keep [of "log_blk st i"] after_commit_at(1) [OF hd that] assms(1) by (simp add: copied_def)
  show "D' x = after_commit l V D x" if "\<not> in_log st x" "\<And>i. i < nat (lh_n (lg_lh l)) \<Longrightarrow> lh_block (lg_lh l) i \<noteq> x" for x
  proof -
    have "D' x = (D1(st := e)) x" using assms(3) [of x] that(2) by metis
    moreover have "x \<noteq> st" "D1 x = D x" using assms(1) that(1) by (auto simp: copied_def)
    ultimately show ?thesis using after_commit_at(2) [OF hd, of x V D] that(2) by auto
  qed
qed

lemma means_head:
  assumes "copied st (lg_lh l) V D D1" "same_head (decode_head e) (lg_lh l)" "lh_n (decode_head (D st)) = 0"
    and "take 512 w = take 512 e \<or> take 512 w = take 512 (D1 st)"
  shows "means st D (D1(st := w)) \<or> means st (after_commit l V D) (D1(st := w))"
  using assms(4)
proof
  assume "take 512 w = take 512 e"
  then have "same_head (decode_head w) (decode_head e)"
    using assms(1,2) by (intro head_cong) (auto simp: copied_def head_ok_def same_head_def)
  then have "same_head (decode_head w) (lg_lh l)" using assms(2) by (auto simp: same_head_def)
  then show ?thesis using assms(1) by (intro disjI2 means_install [of st l V D D1 w]) auto
next
  assume "take 512 w = take 512 (D1 st)"
  then have "same_head (decode_head w) (decode_head (D st))"
    using assms(1,3) by (intro head_cong) (simp_all add: copied_def)
  then show ?thesis using assms(1,3) by (intro disjI1 means_empty) (auto simp: same_head_def copied_def)
qed

lemma means_clear:
  assumes "copied st (lg_lh l) V D D1" "same_head (decode_head e) (lg_lh l)" "lh_n (decode_head e') = 0"
    and D3: "D3 = upds (lh_block (lg_lh l)) (\<lambda>j. V (lh_block (lg_lh l) j)) (nat (lh_n (lg_lh l))) (D1(st := e))"
    and "take 512 w = take 512 e' \<or> take 512 w = take 512 (D3 st)"
  shows "means st (after_commit l V D) (D3(st := w))"
  using assms(5)
proof
  have hd: "head_ok st (lg_lh l)" "in_log st st" using assms(1) by (simp_all add: copied_def)
  assume "take 512 w = take 512 e'"
  then have "same_head (decode_head w) (decode_head e')" using assms(3) by (intro head_cong) simp_all
  then have "lh_n (decode_head w) = 0" using assms(3) by (simp add: same_head_def)
  moreover have "(D3(st := w)) x = after_commit l V D x" if "\<not> in_log st x" for x
    using that assms(1) hd(2) upds_cong [of "D1(st := e)" x D] unfolding D3 after_commit_def copied_def by fastforce
  ultimately show ?thesis by (intro means_empty) simp_all
next
  have "D3 st = e" unfolding D3 using assms(1) by (subst upds_other) (auto simp: copied_def head_ok_def)
  moreover assume "take 512 w = take 512 (D3 st)"
  ultimately have "same_head (decode_head w) (decode_head e)"
    using assms(1,2) by (intro head_cong) (auto simp: copied_def head_ok_def same_head_def)
  then have "same_head (decode_head w) (lg_lh l)" using assms(2) by (auto simp: same_head_def)
  moreover have "\<exists>i < nat (lh_n (lg_lh l)). x = lh_block (lg_lh l) i" if "(D3(st := w)) x \<noteq> (D1(st := w)) x" for x
    using that upds_changed [of "lh_block (lg_lh l)" "\<lambda>j. V (lh_block (lg_lh l) j)" "nat (lh_n (lg_lh l))" "D1(st := e)" x]
    unfolding D3 by (cases "x = st") simp_all
  ultimately show ?thesis by (intro means_install [OF assms(1), of w])
qed
lemma upds_card:
  assumes "cache d p s V R L D"
  shows "card {x. upds B (\<lambda>j. R (B j) - 1) n R x \<noteq> 0} \<le> card {x. R x \<noteq> 0}"
proof (rule card_mono [OF cache_finite [OF assms]])
  show "{x. upds B (\<lambda>j. R (B j) - 1) n R x \<noteq> 0} \<subseteq> {x. R x \<noteq> 0}" by (induction n) auto
qed

lemma readyD:
  assumes "ready d p s V R L D" "log s = l" "lg_start l = st" "lg_lh l = lh"
  shows "cache d p s V R L D" "lg_dev l = d" "unat st + LOGSIZE < 2 ^ 31" "head_ok st lh" "lh_n (decode_head (D st)) = 0"
    "card {x. R x \<noteq> 0} < NBUF" "\<And>x. in_log st x \<Longrightarrow> \<not> L x \<and> R x < 2 ^ 32 - 1" "in_log st st" "lh_n lh \<le> int LOGSIZE" "0 \<le> lh_n lh"
    "\<And>i. i < nat (lh_n lh) \<Longrightarrow> \<not> L (lh_block lh i) \<and> R (lh_block lh i) \<noteq> 0 \<and> R (lh_block lh i) < 2 ^ 32 - 1" "unat st < 2 ^ 31"
  using assms by (auto simp: ready_def Let_def in_log_def head_ok_def LOGSIZE_def MAXOPBLOCKS_def)

lemma install_commit:
  assumes r: "ready d p s V R L D" and dev: "virtio_blk dev" and l: "log s = l" "lg_start l = st" "lg_lh l = lh"
    and c1: "copied st lh V V V1" "copied st lh V D D1" and e: "same_head (decode_head e) lh"
    and t: "cache d p t (V1(st := e)) R L (D1(st := e))" "log t = l"
    and P: "\<And>D'. means st (after_commit l V D) D' \<Longrightarrow> P D'"
  shows "disk_run (serve dev p) (nat (lh_n lh) * 3 + 2) (seq (install_trans False) (seq clear_head write_head)) t (crash P)
    (\<lambda>_ t. \<exists>V' D'. cache d p t V' (upds (lh_block lh) (\<lambda>j. R (lh_block lh j) - 1) (nat (lh_n lh)) R) L D' \<and>
      (\<forall>x. \<not> in_log st x \<longrightarrow> V' x = V x \<and> D' x = after_commit l V D x) \<and> lh_n (decode_head (D' st)) = 0 \<and>
      log t = l\<lparr>lg_lh := lh\<lparr>lh_n := 0\<rparr>\<rparr>)"
proof (rule disk_run_seq)
  let ?n = "nat (lh_n lh)" and ?B = "lh_block lh"
  let ?v = "\<lambda>j. V (?B j)" and ?R' = "upds ?B (\<lambda>j. R (?B j) - 1) ?n R"
  note r = readyD [OF r l]
  have cp: "(D1(st := e)) (log_blk st i) = V (?B i)" "(V1(st := e)) (log_blk st i) = V (?B i)" if "i < ?n" for i
    using c1 that by (auto simp: copied_def)
  have "disk_run (serve dev p) (?n * 3) (install_trans False) t (crash P)
    (\<lambda>_ u. cache d p u (upds ?B (\<lambda>j. (D1(st := e)) (log_blk st j)) ?n (V1(st := e)))
      (if False then R else ?R') L (upds ?B (\<lambda>j. (D1(st := e)) (log_blk st j)) ?n (D1(st := e))) \<and> bframe t u)"
    using r cp means_install [OF c1(2) [folded l(3)] e [folded l(3)]] l(3)
    by (intro install_trans_run [OF t(1) dev t(2) _ l(2,3)] P) auto
  then show "disk_run (serve dev p) (?n * 3) (install_trans False) t (crash P)
    (\<lambda>_ u. disk_run (serve dev p) 2 (seq clear_head write_head) u (crash P) (\<lambda>_ t. \<exists>V' D'. cache d p t V' ?R' L D' \<and>
      (\<forall>x. \<not> in_log st x \<longrightarrow> V' x = V x \<and> D' x = after_commit l V D x) \<and> lh_n (decode_head (D' st)) = 0 \<and>
      log t = l\<lparr>lg_lh := lh\<lparr>lh_n := 0\<rparr>\<rparr>))"
  proof (rule disk_run_conseq, goal_cases)
    case (1 x u)
    let ?V3 = "upds ?B ?v ?n (V1(st := e))" and ?D3 = "upds ?B ?v ?n (D1(st := e))"
    let ?l = "l\<lparr>lg_lh := lh\<lparr>lh_n := 0\<rparr>\<rparr>"
    have u: "cache d p u ?V3 ?R' L ?D3" "log u = l"
      using 1 cp upds_val_cong [of ?n "\<lambda>j. (D1(st := e)) (log_blk st j)" ?v ?B] t(2) by (auto dest: bframe_log)
    let ?u = "u\<lparr>log := ?l\<rparr>" and ?e' = "encode_head (lh\<lparr>lh_n := 0\<rparr>) (?V3 st)"
    have st: "?R' st = R st"
      using r(4,8) by (intro upds_other) (auto simp: head_ok_def)
    have e': "lh_n (decode_head ?e') = 0"
      using decode_encode [of "?V3 st" "lh\<lparr>lh_n := 0\<rparr>"] cache_length [OF u(1) r(12)] by (simp add: same_head_def)
    have "disk_run (serve dev p) 2 write_head ?u (crash P)
      (\<lambda>_ t. cache d p t (?V3(st := encode_head (lg_lh ?l) (?V3 st))) ?R' L (?D3(st := encode_head (lg_lh ?l) (?V3 st))) \<and> bframe ?u t)"
    proof (rule write_head_run [where l = ?l])
      show "cache d p ?u ?V3 ?R' L ?D3" using u by simp
      show "?R' st < 2 ^ 32 - 1" "\<not> L st" using r(7) [OF r(8)] st by simp_all
      show "card {x. ?R' x \<noteq> 0} < NBUF" using upds_card [OF r(1), of ?B ?n] r(6) by simp
      show "P (?D3(st := w))" if "length w = BSIZE" "take 512 w = take 512 (encode_head (lg_lh ?l) (?V3 st)) \<or> take 512 w = take 512 (?D3 st)" for w
        using that means_clear [OF c1(2) [folded l(3)] e [folded l(3)] e' refl, of w] l(3) by (intro P) simp
    qed (use r l dev in simp_all)
    then show ?case
      unfolding clear_head_def disk_run_seq_modify u(2) l(3)
    proof (rule disk_run_conseq, goal_cases)
      case (1 y w)
      have "?V3 x = V x \<and> ?D3 x = after_commit l V D x \<and> x \<noteq> st" if "\<not> in_log st x" for x
      proof -
        have "(V1(st := e)) x = V x" "(D1(st := e)) x = D x" "x \<noteq> st" using that c1 r(8) by (auto simp: copied_def)
        then show ?thesis
          using upds_cong [of "V1(st := e)" x V ?B ?v ?n] upds_cong [of "D1(st := e)" x D ?B ?v ?n]
          by (simp add: after_commit_def l(3))
      qed
      moreover have "log w = ?l" using 1 bframe_log [of ?u w] by simp
      ultimately show ?case
        using 1 e' by (intro exI [of _ "?V3(st := ?e')"] exI [of _ "?D3(st := ?e')"]) simp
    qed
  qed
qed
lemma commit_run:
  assumes r: "ready d p s V R L D" and dev: "virtio_blk dev" and l: "log s = l" "lg_start l = st" "lg_lh l = lh"
    and P: "\<And>D'. means st D D' \<or> means st (after_commit l V D) D' \<Longrightarrow> P D'"
  shows "disk_run (serve dev p) (nat (lh_n lh) * 3 + (2 + (nat (lh_n lh) * 3 + 2)))
    (seq write_log (seq write_head (seq (install_trans False) (seq clear_head write_head)))) s (crash P)
    (\<lambda>_ t. \<exists>V' D'. cache d p t V' (upds (lh_block lh) (\<lambda>j. R (lh_block lh j) - 1) (nat (lh_n lh)) R) L D' \<and>
      (\<forall>x. \<not> in_log st x \<longrightarrow> V' x = V x \<and> D' x = after_commit l V D x) \<and> lh_n (decode_head (D' st)) = 0 \<and>
      log t = l\<lparr>lg_lh := lh\<lparr>lh_n := 0\<rparr>\<rparr>)"
proof (rule disk_run_seq, rule disk_run_conseq [OF write_log_commit [OF r dev l]], rule P, assumption)
  let ?V1 = "upds (log_blk st) (\<lambda>j. V (lh_block lh j)) (nat (lh_n lh)) V"
  let ?D1 = "upds (log_blk st) (\<lambda>j. V (lh_block lh j)) (nat (lh_n lh)) D"
  note rd = readyD [OF r l]
  have c: "copied st lh V V ?V1" "copied st lh V D ?D1" by (rule copied_upds [OF rd(4,3)], rule refl)+
  fix x t assume t: "cache d p t ?V1 R L ?D1 \<and> bframe s t"
  let ?e = "encode_head lh (?V1 st)"
  have e: "same_head (decode_head ?e) lh"
    using t cache_length rd(12) by (intro decode_encode [OF _ rd(10,9)]) blast
  have lt: "log t = l" using t l(1) by (auto dest: bframe_log)
  have "disk_run (serve dev p) 2 write_head t (crash P)
      (\<lambda>_ t'. cache d p t' (?V1(st := encode_head (lg_lh l) (?V1 st))) R L (?D1(st := encode_head (lg_lh l) (?V1 st))) \<and> bframe t t')"
    using means_head [OF c(2) [folded l(3)] e [folded l(3)] rd(5)] P l t rd(7) [OF rd(8)] rd(9) lt
    by (intro write_head_run [where l = l, OF _ dev _ rd(2) l(2) _ _ rd(6,12)]) auto
  then show "disk_run (serve dev p) (2 + (nat (lh_n lh) * 3 + 2)) (seq write_head (seq (install_trans False) (seq clear_head write_head))) t (crash P)
    (\<lambda>_ t. \<exists>V' D'. cache d p t V' (upds (lh_block lh) (\<lambda>j. R (lh_block lh j) - 1) (nat (lh_n lh)) R) L D' \<and>
      (\<forall>x. \<not> in_log st x \<longrightarrow> V' x = V x \<and> D' x = after_commit l V D x) \<and> lh_n (decode_head (D' st)) = 0 \<and>
      log t = l\<lparr>lg_lh := lh\<lparr>lh_n := 0\<rparr>\<rparr>)"
    using lt l(3) by (intro disk_run_seq, elim disk_run_conseq, intro install_commit [OF r dev l c e _ _ P]) (auto dest: bframe_log)
qed
lemma means_self: "head_ok st (decode_head (D st)) \<Longrightarrow> means st (recovered st D) D"
  by (simp add: means_def)

lemma copied_recovered:
  assumes "head_ok st lh" "same_head (decode_head (D st)) lh" "unat st + LOGSIZE < 2 ^ 31"
  shows "copied st lh (recovered st D) D D"
proof -
  have "recovered st D (lh_block lh i) = D (log_blk st i)" if "i < nat (lh_n lh)" for i
    using redo_listed [OF _ that] assms(1) redo_same [OF assms(2)] by (simp add: recovered_def head_ok_def)
  moreover have "Suc i < LOGSIZE" if "i < nat (lh_n lh)" for i using that assms(1) unfolding head_ok_def by linarith
  ultimately show ?thesis
    using log_blk_in [OF assms(3)] assms(1) unfolding copied_def by (auto simp: in_log_def)
qed

lemma after_commit_recovered:
  assumes "head_ok st (lg_lh l)" "same_head (decode_head (D st)) (lg_lh l)"
  shows "after_commit l (recovered st D) D = recovered st D"
proof
  fix x
  show "after_commit l (recovered st D) D x = recovered st D x"
  proof (cases "\<exists>i < nat (lh_n (lg_lh l)). lh_block (lg_lh l) i = x")
    case True
    then show ?thesis using after_commit_at(1) [OF assms(1)] by blast
  next
    case False
    then show ?thesis using after_commit_at(2) [OF assms(1), of x] redo_unlisted [of "lg_lh l" x st D] redo_same [OF assms(2)]
      by (auto simp: recovered_def)
  qed
qed

text \<open>A disk as a boot finds it: nothing is cached.\<close>

definition booted :: "uint \<Rightarrow> nat \<Rightarrow> uint \<Rightarrow> 'm lmach_scheme \<Rightarrow> (uint \<Rightarrow> uchar list) \<Rightarrow> bool" where
  "booted d p st s D \<longleftrightarrow> cache d p s D (\<lambda>_. 0) (\<lambda>_. False) D \<and> head_ok st (decode_head (D st)) \<and> unat st + LOGSIZE < 2 ^ 31"

lemma recover_run:
  assumes b: "booted d p st s D" and dev: "virtio_blk dev" and l: "lg_dev (log s) = d" "lg_start (log s) = st"
    and P: "\<And>D'. means st (recovered st D) D' \<Longrightarrow> P D'"
  shows "disk_run (serve dev p) (1 + (nat (lh_n (decode_head (D st))) * 3 + 2)) recover_from_log s (crash P)
    (\<lambda>_ t. \<exists>D'. cache d p t D' (\<lambda>_. 0) (\<lambda>_. False) D' \<and> (\<forall>x. \<not> in_log st x \<longrightarrow> D' x = recovered st D x) \<and>
      lh_n (decode_head (D' st)) = 0 \<and> lh_n (lg_lh (log t)) = 0 \<and> lg_dev (log t) = d \<and> lg_start (log t) = st)"
  unfolding recover_from_log_def
proof (rule disk_run_seq, rule disk_run_conseq [OF read_head_run [OF b [unfolded booted_def, THEN conjunct1] dev refl l]], goal_cases)
  case (7 x t)
  let ?lh = "lg_lh (log t)" and ?T = "recovered st D"
  let ?n = "nat (lh_n ?lh)" and ?B = "lh_block ?lh"
  have bd: "head_ok st (decode_head (D st))" "unat st + LOGSIZE < 2 ^ 31" "unat st < 2 ^ 31" using b by (simp_all add: booted_def)
  have h: "same_head (decode_head (D st)) ?lh" "head_ok st ?lh" "nat (lh_n (decode_head (D st))) = ?n"
    using 7 bd head_ok_same by (auto simp: same_head_def)
  note cp = copied_recovered [where D = D, OF h(2,1) bd(2)] and T = after_commit_recovered [where D = D, OF h(2,1)]
  note mi = means_install [OF cp h(1), unfolded T fun_upd_triv]
  have cpy: "D (log_blk st i) = ?T (?B i)" if "i < ?n" for i using cp that by (simp add: copied_def)
  have "disk_run (serve dev p) (?n * 3) (install_trans True) t (crash P)
    (\<lambda>_ u. cache d p u (upds ?B (\<lambda>j. D (log_blk st j)) ?n D) (if True then \<lambda>_. 0 else upds ?B (\<lambda>j. 0 - 1) ?n (\<lambda>_. 0)) (\<lambda>_. False)
      (upds ?B (\<lambda>j. D (log_blk st j)) ?n D) \<and> bframe t u)"
    using 7 bd h(2) mi by (intro install_trans_run [OF _ dev refl] P) (auto simp: NBUF_def MAXOPBLOCKS_def)
  then show ?case
    unfolding h(3)
  proof (intro disk_run_seq, elim disk_run_conseq, goal_cases)
    case (1 y u)
    let ?D3 = "upds ?B (\<lambda>j. ?T (?B j)) ?n D"
    let ?l = "(log u)\<lparr>lg_lh := (lg_lh (log u))\<lparr>lh_n := 0\<rparr>\<rparr>"
    let ?u = "u\<lparr>log := ?l\<rparr>" and ?e' = "encode_head (lg_lh ?l) (?D3 st)"
    have u: "cache d p u ?D3 (\<lambda>_. 0) (\<lambda>_. False) ?D3" "log u = log t"
      using 1 cpy upds_val_cong [of ?n "\<lambda>j. D (log_blk st j)" "\<lambda>j. ?T (?B j)" ?B] by (auto dest: bframe_log)
    have e': "lh_n (decode_head ?e') = 0"
      using decode_encode [of "?D3 st" "lg_lh ?l"] cache_length [OF u(1) bd(3)] by (simp add: same_head_def)
    have "disk_run (serve dev p) 2 write_head ?u (crash P)
      (\<lambda>_ v. cache d p v (?D3(st := encode_head (lg_lh ?l) (?D3 st))) (\<lambda>_. 0) (\<lambda>_. False) (?D3(st := encode_head (lg_lh ?l) (?D3 st))) \<and> bframe ?u v)"
      using 7 u bd dev means_clear [OF cp h(1) e', unfolded fun_upd_triv T, OF refl]
      by (intro write_head_run [where l = ?l] P) (auto simp: NBUF_def MAXOPBLOCKS_def)
    then show ?case
      unfolding clear_head_def disk_run_seq_modify
    proof (rule disk_run_conseq, goal_cases)
      case (1 z v)
      have "?D3 x = ?T x \<and> x \<noteq> st" if "\<not> in_log st x" for x
        using that T by (auto simp: after_commit_def in_log_def fun_eq_iff)
      then show ?case using 1 e' u(2) 7 bframe_log [of ?u v] by (intro exI [of _ "?D3(st := ?e')"]) auto
    qed
  qed
qed (use b P means_self in \<open>auto simp: booted_def NBUF_def MAXOPBLOCKS_def\<close>)
lemma cache_initlock:
  assumes "cache d p s V R L D"
  shows "cache d p (set_lock lk (\<lambda>l. l\<lparr>lk_name := n, locked := False, lk_cpu := None\<rparr>) s) V R L D"
  using assms calm_initlock [OF cacheD(1) [OF assms], of lk n] cacheD(1) [OF assms]
  by (subst cache_cong [of p _ s]) simp_all

lemma initlog_run:
  assumes b: "booted d p (sb_logstart sb) s D" and dev: "virtio_blk dev"
    and P: "\<And>D'. means (sb_logstart sb) (recovered (sb_logstart sb) D) D' \<Longrightarrow> P D'"
  shows "disk_run (serve dev p) (3 * LOGSIZE + 3) (initlog d sb) s (crash P)
    (\<lambda>_ t. \<exists>D'. cache d p t D' (\<lambda>_. 0) (\<lambda>_. False) D' \<and> (\<forall>x. \<not> in_log (sb_logstart sb) x \<longrightarrow> D' x = recovered (sb_logstart sb) D x) \<and>
      lh_n (decode_head (D' (sb_logstart sb))) = 0 \<and> lh_n (lg_lh (log t)) = 0 \<and> lg_dev (log t) = d \<and> lg_start (log t) = sb_logstart sb)"
proof -
  let ?st = "sb_logstart sb"
  have n: "nat (lh_n (decode_head (D ?st))) \<le> LOGSIZE" using b unfolding booted_def head_ok_def by linarith
  have sz: "\<not> BSIZE \<le> 4 + 4 * LOGSIZE" by (simp add: BSIZE_def LOGSIZE_def MAXOPBLOCKS_def)
  have "booted d p ?st ((set_lock L_log (\<lambda>l. l\<lparr>lk_name := ''log'', locked := False, lk_cpu := None\<rparr>) s)
      \<lparr>log := (log s)\<lparr>lg_start := ?st, lg_size := sint (sb_nlog sb), lg_dev := d\<rparr>\<rparr>) D"
    using b cache_initlock [of d p s D _ _ D L_log "''log''"] by (simp add: booted_def)
  from recover_run [where P = P, OF this dev _ _ P] show ?thesis
    unfolding initlog_def using n sz
    by (auto simp: initlock_def elim!: disk_run_weaken)
qed

text \<open>
  C1: A commit is atomic.  Take a transaction in the buffer cache, and let the power fail at any
  point of \<^verbatim>\<open>commit\<close>, even with a block half written.  Then a boot from what is on
  the disk, with a run of \<^verbatim>\<open>initlog\<close> to its end, finds the file system with all blocks of
  the transaction or with none of them.  If the power does not fail, all of them are at
  their places when \<^verbatim>\<open>commit\<close> returns.
\<close>

theorem commit_atomic:
  fixes s :: "'m lmach_scheme"
  assumes "ready d p s V R L D" "0 < lh_n (lg_lh (log s))" "virtio_blk dev" "sb_logstart sb = lg_start (log s)"
  shows "case commit s (replicate k (serve dev p)) of
      Ok _ t _ \<Rightarrow> \<forall>x. \<not> in_log (lg_start (log s)) x \<longrightarrow> disk_view (sectors t) x = after_commit (log s) V D x
    | Blocked t \<Rightarrow> \<forall>img \<in> torn t. \<exists>T \<in> {D, after_commit (log s) V D}. \<forall>(s' :: 'm lmach_scheme) q.
        cache d q s' (disk_view img) (\<lambda>_. 0) (\<lambda>_. False) (disk_view img) \<longrightarrow>
        (\<exists>t' e. initlog d sb s' (replicate (3 * LOGSIZE + 3) (serve dev q)) = Ok () t' e \<and>
          (\<forall>x. \<not> in_log (lg_start (log s)) x \<longrightarrow> disk_view (sectors t') x = T x))
    | _ \<Rightarrow> False"
proof -
  let ?st = "lg_start (log s)" and ?n = "nat (lh_n (lg_lh (log s)))"
  let ?P = "\<lambda>D'. \<exists>T \<in> {D, after_commit (log s) V D}. means ?st T D'"
  have "disk_run (serve dev p) (?n * 3 + (2 + (?n * 3 + 2))) commit s (crash ?P)
    (\<lambda>_ t. \<forall>x. \<not> in_log ?st x \<longrightarrow> disk_view (sectors t) x = after_commit (log s) V D x)"
    unfolding commit_def disk_run_bind_gets whenM_def if_P [OF assms(2)]
    by (rule disk_run_conseq [OF commit_run [OF assms(1,3) refl refl refl]]) (auto dest: cacheD(3))
  note run = disk_run_case [OF this, of k]
  have again: "\<exists>t' e. initlog d sb s' (replicate (3 * LOGSIZE + 3) (serve dev q)) = Ok () t' e \<and>
        (\<forall>x. \<not> in_log ?st x \<longrightarrow> disk_view (sectors t') x = T x)"
    if "means ?st T (disk_view img)" "cache d q s' (disk_view img) (\<lambda>_. 0) (\<lambda>_. False) (disk_view img)"
    for T img q and s' :: "'m lmach_scheme"
  proof -
    have "booted d q (sb_logstart sb) s' (disk_view img)"
      using that assms(1,4) by (simp add: booted_def means_def ready_def Let_def)
    from disk_run_returns [OF initlog_run [OF this assms(3), of "\<lambda>_. True"], of "3 * LOGSIZE + 3"]
    show ?thesis using that(1) assms(4) unfolding means_def by (fastforce dest: cacheD(3))
  qed
  show ?thesis
  proof (cases "commit s (replicate k (serve dev p))")
    case (Blocked t)
    then have "\<forall>img \<in> torn t. ?P (disk_view img)" using run by (simp add: crash_def)
    then show ?thesis unfolding Blocked outcome.case using again by meson
  qed (use run in simp_all)
qed

text \<open>
  C2: Recovery may itself be interrupted: what a crash during \<^verbatim>\<open>initlog\<close> leaves on the
  disk still means the same contents for every block, so that the next boot
  recovers it; and after a complete run the log is empty.
\<close>

theorem recovery_idempotent:
  assumes "booted d p (sb_logstart sb) s D" "virtio_blk dev"
  shows "case initlog d sb s (replicate k (serve dev p)) of
      Ok _ t _ \<Rightarrow> lh_n (decode_head (disk_view (sectors t) (sb_logstart sb))) = 0 \<and>
        (\<forall>x. \<not> in_log (sb_logstart sb) x \<longrightarrow> disk_view (sectors t) x = recovered (sb_logstart sb) D x)
    | Blocked t \<Rightarrow> \<forall>img \<in> torn t. \<forall>x. \<not> in_log (sb_logstart sb) x \<longrightarrow>
        recovered (sb_logstart sb) (disk_view img) x = recovered (sb_logstart sb) D x
    | _ \<Rightarrow> False"
  using disk_run_case [OF initlog_run [OF assms, where P = "means (sb_logstart sb) (recovered (sb_logstart sb) D)"], of k]
  by (cases "initlog d sb s (replicate k (serve dev p))") (auto simp: crash_def means_def dest: cacheD(3))

text \<open>A transaction of one block, on an empty disk.\<close>

definition lboot :: lmach where
  "lboot = bmach.extend bboot (lmach.fields \<lparr>lg_start = 2, lg_size = 30, lg_outstanding = 0, lg_committing = False, lg_dev = 1,
     lg_lh = \<lparr>lh_n = 1, lh_block = (\<lambda>_. 40)\<rparr>\<rparr>)"

lemma lboot_simps:
  "calm 0 lboot" "vd_idle (vdisk lboot)" "bufs lboot = (\<lambda>_. zero_buf)" "sectors lboot = (\<lambda>_. replicate 512 0)"
proof -
  have "calm 0 lboot = calm 0 bboot" by (rule calm_cong) (simp add: lboot_def bmach.defs mach.truncate_def)
  then show "calm 0 lboot" using bboot_simps(1) by simp
qed (use bboot_simps in \<open>simp_all add: lboot_def bmach.defs\<close>)

lemma lboot_fresh:
  "\<exists>s :: lmach. cache 1 0 s (disk_view (\<lambda>_. replicate 512 0)) (\<lambda>_. 0) (\<lambda>_. False) (disk_view (\<lambda>_. replicate 512 0))"
proof -
  have "\<forall>i < NBUF. b_dev (bufs lboot i) \<noteq> 1 \<and> b_refcnt (bufs lboot i) = 0 \<and> \<not> b_disk (bufs lboot i) \<and> length (b_data (bufs lboot i)) = BSIZE"
    "\<forall>n. length (sectors lboot n) = 512" by (simp_all add: lboot_simps zero_buf_def BSIZE_def)
  from binit_cache [OF this lboot_simps(2,1), of "[]"] show ?thesis unfolding lboot_simps(4) by blast
qed

lemma le_word_zero: "le_word (replicate n 0) = 0"
  by (induction n) (simp_all add: le_word_def)

lemma lboot_head: "lh_n (decode_head (disk_view (\<lambda>_. replicate 512 0) 2)) = 0"
  by (simp add: decode_head_def disk_view_def get_block_def get32_def peek_def le_word_zero flip: replicate_add)

lemma lboot_pinned:
  "\<exists>s :: lmach. cache 1 0 s (disk_view (\<lambda>_. replicate 512 0)) ((\<lambda>_. 0)(40 := 1)) (\<lambda>_. False) (disk_view (\<lambda>_. replicate 512 0))"
proof -
  let ?D = "disk_view (\<lambda>_. replicate 512 0)"
  obtain s :: lmach where s: "cache 1 0 s ?D (\<lambda>_. 0) (\<lambda>_. False) ?D" using lboot_fresh by blast
  have "disk_run (serve blk_device 0) 1 (bind (bread 1 40) (\<lambda>b. seq (bpin b) (brelse b))) s (crash (\<lambda>_. True))
    (\<lambda>_ t. cache 1 0 t ?D ((\<lambda>_. 0)(40 := 1)) (\<lambda>_. False) ?D)"
    unfolding One_nat_def
  proof (rule run_bread [OF s virtio_blk_device], goal_cases)
    case (6 b t)
    note c = cacheD [OF 6(2)]
    obtain u where u: "\<And>e. bpin b t e = Ok () u e" "bio 1 u ?D (((\<lambda>_. 0)(40 := Suc 0))(40 := Suc (Suc 0))) ((\<lambda>_. False)(40 := True))"
      "bframe t u" "sectors u = sectors t" "held 1 0 u b 40"
      using bpin_spec [OF c(1,2) 6(1)] 6(1) by auto
    then have "cache 1 0 u ?D (((\<lambda>_. 0)(40 := Suc 0))(40 := Suc (Suc 0))) ((\<lambda>_. False)(40 := True)) ?D"
      using c bframeD(1) [OF u(3), of 0] by (simp add: cache_def)
    then show ?case
      by (intro disk_run_seq_eq [where m = "bpin b" and s = t and t = u, OF u(1)] run_brelse_last [OF _ u(5)]) (auto simp: fun_upd_idem)
  qed (simp_all add: NBUF_def MAXOPBLOCKS_def)
  from disk_run_returns [OF this, of 1] show ?thesis by auto
qed

lemma lboot_log: "lg_lh (log lboot) = \<lparr>lh_n = 1, lh_block = (\<lambda>_. 40)\<rparr>" "lg_start (log lboot) = 2" "lg_dev (log lboot) = 1"
  by (simp_all add: lboot_def bmach.defs lmach.defs)

theorem commit_atomic_witness:
  "\<exists>(s :: lmach) V R L D. ready 1 0 s V R L D \<and> lh_n (lg_lh (log s)) = 1 \<and>
     (case commit s (replicate 7 (serve blk_device 0)) of
        Ok _ t _ \<Rightarrow> disk_view (sectors t) 40 = V 40
      | Blocked t \<Rightarrow> True
      | _ \<Rightarrow> False)"
proof -
  let ?D = "disk_view (\<lambda>_. replicate 512 0)" and ?R = "(\<lambda>_. 0)(40 := 1) :: uint \<Rightarrow> nat"
  obtain s :: lmach where s: "cache 1 0 s ?D ?R (\<lambda>_. False) ?D" using lboot_pinned by blast
  obtain sb :: superblock where sb: "sb_logstart sb = 2" by (metis superblock.select_convs(6))
  define t where "t = s\<lparr>log := log lboot\<rparr>"
  have t: "cache 1 0 t ?D ?R (\<lambda>_. False) ?D" "log t = log lboot" using s by (simp_all add: t_def)
  have "card {x. ?R x \<noteq> 0} = 1" by simp
  then have r: "ready 1 0 t ?D ?R (\<lambda>_. False) ?D"
    using t lboot_head unfolding ready_def Let_def t(2) lboot_log
    by (simp add: head_ok_def in_log_def inj_on_def LOGSIZE_def MAXOPBLOCKS_def NBUF_def)
  have "\<not> in_log 2 40" "after_commit (log t) ?D ?D 40 = ?D 40"
    by (simp_all add: t(2) lboot_log in_log_def LOGSIZE_def MAXOPBLOCKS_def after_commit_def)
  then have "case commit t (replicate 7 (serve blk_device 0)) of
      Ok _ t _ \<Rightarrow> disk_view (sectors t) 40 = ?D 40 | Blocked t \<Rightarrow> True | _ \<Rightarrow> False"
    using commit_atomic [OF r _ virtio_blk_device, of sb 7]
    by (cases "commit t (replicate 7 (serve blk_device 0))") (simp_all add: t(2) lboot_log sb)
  then show ?thesis using r t(2) lboot_log(1)
    by (intro exI [of _ t] exI [of _ ?D] exI [of _ ?R] exI [of _ "\<lambda>_. False"]) simp
qed

theorem recovery_idempotent_witness:
  "\<exists>(s :: lmach) D sb. booted 1 0 (sb_logstart sb) s D \<and> sb_logstart sb = 2 \<and>
     (case initlog 1 sb s [] of
        Ok _ t _ \<Rightarrow> True
      | Blocked t \<Rightarrow> \<forall>img \<in> torn t. recovered 2 (disk_view img) 40 = recovered 2 D 40
      | _ \<Rightarrow> False)"
proof -
  let ?D = "disk_view (\<lambda>_. replicate 512 0)"
  obtain s :: lmach where s: "cache 1 0 s ?D (\<lambda>_. 0) (\<lambda>_. False) ?D" using lboot_fresh by blast
  obtain sb :: superblock where sb: "sb_logstart sb = 2" by (metis superblock.select_convs(6))
  have b: "booted 1 0 (sb_logstart sb) s ?D"
    using s lboot_head by (simp add: sb booted_def head_ok_def LOGSIZE_def MAXOPBLOCKS_def)
  have "\<not> in_log 2 40" by (simp add: in_log_def LOGSIZE_def MAXOPBLOCKS_def)
  then have "case initlog 1 sb s [] of
      Ok _ t _ \<Rightarrow> True
    | Blocked t \<Rightarrow> \<forall>img \<in> torn t. recovered 2 (disk_view img) 40 = recovered 2 ?D 40
    | _ \<Rightarrow> False"
    using recovery_idempotent [OF b virtio_blk_device, of 0] sb by (cases "initlog 1 sb s []") auto
  then show ?thesis using b sb by blast
qed

end
