(* ===== verification/Trans.thy ===== *)
theory Trans
  imports Log
begin

text \<open>
  The contract of \<^verbatim>\<open>log_write\<close> towards the file system, as rules for runs inside a
  transaction.  \<open>txn d p s V L D\<close> says all the file system needs to know of the state \<open>s\<close>:
  process \<open>p\<close> is inside a transaction on device \<open>d\<close>, block \<open>x\<close> has the contents \<open>V x\<close>, the blocks
  with \<open>L x\<close> are locked by the process, and \<open>D\<close> is on the disk, which the transaction does
  not touch: a block that differs from the disk is in the log, or still locked.
\<close>

definition listed :: "logheader \<Rightarrow> uint \<Rightarrow> bool" where
  "listed lh x \<longleftrightarrow> (\<exists>i < nat (lh_n lh). lh_block lh i = x)"

definition txn ::
  "uint \<Rightarrow> nat \<Rightarrow> 'm lmach_scheme \<Rightarrow> (uint \<Rightarrow> uchar list) \<Rightarrow> (uint \<Rightarrow> bool) \<Rightarrow> (uint \<Rightarrow> uchar list) \<Rightarrow> bool" where
  "txn d p s V L D \<longleftrightarrow>
     cache d p s V (\<lambda>x. of_bool (listed (lg_lh (log s)) x) + of_bool (L x)) L D \<and>
     lg_size (log s) = int LOGSIZE \<and> head_ok (lg_start (log s)) (lg_lh (log s)) \<and>
     (\<forall>x. V x \<noteq> D x \<longrightarrow> listed (lg_lh (log s)) x \<or> L x)"

text \<open>The number of blocks in the log.\<close>

definition logged :: "'m lmach_scheme \<Rightarrow> nat" where
  "logged s = nat (lh_n (lg_lh (log s)))"

text \<open>Inside a transaction, with room for \<open>k\<close> more blocks.\<close>

abbreviation may_log :: "nat \<Rightarrow> 'm lmach_scheme \<Rightarrow> bool" where
  "may_log k s \<equiv> logged s + k < LOGSIZE \<and> 1 \<le> lg_outstanding (log s)"

text \<open>The state changes in the cache and the log only; the log lies elsewhere.\<close>

definition tframe :: "'m lmach_scheme \<Rightarrow> 'm lmach_scheme \<Rightarrow> bool" where
  "tframe s t \<longleftrightarrow> t = s\<lparr>sleeplocks := sleeplocks t, vmmio := vmmio t, vdisk := vdisk t, bufs := bufs t, sectors := sectors t,
     log := log t\<rparr> \<and> lg_start (log t) = lg_start (log s) \<and> lg_outstanding (log t) = lg_outstanding (log s)"

lemma tframe_refl [simp]: "tframe s s"
  by (simp add: tframe_def)

lemma tframeE:
  assumes "tframe s t"
  obtains a1 a2 a3 a4 a5 a6 where
    "t = s\<lparr>sleeplocks := a1, vmmio := a2, vdisk := a3, bufs := a4, sectors := a5, log := a6\<rparr>" "lg_start (log t) = lg_start (log s)" "lg_outstanding (log t) = lg_outstanding (log s)"
  using assms unfolding tframe_def by blast

lemma tframe_trans:
  assumes "tframe s t" "tframe t u"
  shows "tframe s u"
proof -
  from assms(1) obtain a1 a2 a3 a4 a5 a6 where
    t: "t = s\<lparr>sleeplocks := a1, vmmio := a2, vdisk := a3, bufs := a4, sectors := a5, log := a6\<rparr>" "lg_start (log t) = lg_start (log s)"
      "lg_outstanding (log t) = lg_outstanding (log s)"
    by (rule tframeE)
  from assms(2) obtain b1 b2 b3 b4 b5 b6 where
    u: "u = t\<lparr>sleeplocks := b1, vmmio := b2, vdisk := b3, bufs := b4, sectors := b5, log := b6\<rparr>" "lg_start (log u) = lg_start (log t)"
      "lg_outstanding (log u) = lg_outstanding (log t)"
    by (rule tframeE)
  have "u = s\<lparr>sleeplocks := b1, vmmio := b2, vdisk := b3, bufs := b4, sectors := b5, log := b6\<rparr>"
    unfolding u(1) t(1) by (rule lmach.equality) simp_all
  then show ?thesis using t(2,3) u(2,3) by (simp add: tframe_def)
qed

lemma bframe_tframe:
  assumes "bframe s t"
  shows "tframe s t"
proof -
  obtain a1 a2 a3 a4 a5 where "t = s\<lparr>sleeplocks := a1, vmmio := a2, vdisk := a3, bufs := a4, sectors := a5\<rparr>"
    using assms unfolding bframe_def by blast
  then show ?thesis by (simp add: tframe_def)
qed

lemma tframe_log: "lg_start l = lg_start (log s) \<Longrightarrow> lg_outstanding l = lg_outstanding (log s) \<Longrightarrow> tframe s (s\<lparr>log := l\<rparr>)"
  by (simp add: tframe_def)

lemma tframeD:
  assumes "tframe s t"
  shows "calm p t = calm p s" "procs t = procs s" "mem t = mem s" "klocal t = klocal s" "lmach.more t = lmach.more s"
    "lg_start (log t) = lg_start (log s)" "lg_outstanding (log t) = lg_outstanding (log s)"
proof -
  from assms obtain a1 a2 a3 a4 a5 a6 where
    t: "t = s\<lparr>sleeplocks := a1, vmmio := a2, vdisk := a3, bufs := a4, sectors := a5, log := a6\<rparr>" "lg_start (log t) = lg_start (log s)"
      "lg_outstanding (log t) = lg_outstanding (log s)"
    by (rule tframeE)
  show "calm p t = calm p s" unfolding t(1) by simp
  show "procs t = procs s" "mem t = mem s" "klocal t = klocal s" "lmach.more t = lmach.more s" "lg_start (log t) = lg_start (log s)"
    "lg_outstanding (log t) = lg_outstanding (log s)"
    using t by simp_all
qed

text \<open>What is on the disk when the machine crashes inside the transaction.\<close>

abbreviation unchanged :: "(uint \<Rightarrow> uchar list) \<Rightarrow> 'm lmach_scheme \<Rightarrow> bool" where
  "unchanged D \<equiv> crash (\<lambda>X. X = D)"

section \<open>Rules\<close>

lemma txnD:
  assumes "txn d p s V L D"
  shows "cache d p s V (\<lambda>x. of_bool (listed (lg_lh (log s)) x) + of_bool (L x)) L D"
    "lg_size (log s) = int LOGSIZE" "head_ok (lg_start (log s)) (lg_lh (log s))"
    "V x \<noteq> D x \<Longrightarrow> listed (lg_lh (log s)) x \<or> L x" "calm p s"
  using assms by (auto simp: txn_def cache_def)

lemma txn_held: "txn d p s V L D \<Longrightarrow> held d p s b bno \<Longrightarrow> L bno"
  using heldD(7) cacheD(2) txnD(1) by metis

lemma txn_value: "txn d p s V L D \<Longrightarrow> held d p s b bno \<Longrightarrow> b_data (bufs s b) = V bno"
  using held_value txnD(1) by metis

lemma txn_length: "txn d p s V L D \<Longrightarrow> unat bno < 2 ^ 31 \<Longrightarrow> length (V bno) = BSIZE"
  using cache_length txnD(1) by metis

text \<open>\<open>advances k s t\<close>: a step inside a transaction that logs at most \<open>k\<close> new blocks.\<close>

definition advances :: "nat \<Rightarrow> 'm lmach_scheme \<Rightarrow> 'm lmach_scheme \<Rightarrow> bool" where
  "advances k s t \<longleftrightarrow> tframe s t \<and> logged t \<le> logged s + k \<and> (\<forall>x. listed (lg_lh (log s)) x \<longrightarrow> listed (lg_lh (log t)) x)"

lemma advances_refl [simp]: "advances k s s"
  by (simp add: advances_def)

lemma advances_trans: "advances j s t \<Longrightarrow> advances k t u \<Longrightarrow> advances (j + k) s u"
  using tframe_trans by (fastforce simp: advances_def)

lemma advances_mono: "advances j s t \<Longrightarrow> j \<le> k \<Longrightarrow> advances k s t"
  by (auto simp: advances_def)

lemma advancesD:
  "advances k s t \<Longrightarrow> tframe s t" "advances k s t \<Longrightarrow> logged t \<le> logged s + k"
  "advances k s t \<Longrightarrow> listed (lg_lh (log s)) x \<Longrightarrow> listed (lg_lh (log t)) x"
  "advances k s t \<Longrightarrow> lg_start (log t) = lg_start (log s)"
  "advances k s t \<Longrightarrow> lg_outstanding (log t) = lg_outstanding (log s)"
  by (auto simp: advances_def tframeD(6,7))

lemma bframe_advances: "bframe s t \<Longrightarrow> advances 0 s t"
  using bframe_log [of s t] by (simp add: advances_def bframe_tframe logged_def)

lemma txn_cards:
  assumes "txn d p s V L D"
  shows "finite {x. L x}" "card {x. (of_bool (listed (lg_lh (log s)) x) + of_bool (L x) :: nat) \<noteq> 0} \<le> logged s + card {x. L x}"
proof -
  note fin = cache_finite [OF txnD(1) [OF assms]]
  show "finite {x. L x}" by (rule finite_subset [OF _ fin]) auto
  have "{x. (of_bool (listed (lg_lh (log s)) x) + of_bool (L x) :: nat) \<noteq> 0} =
      lh_block (lg_lh (log s)) ` {..<logged s} \<union> {x. L x}"
    by (auto simp: listed_def logged_def)
  moreover have "card (lh_block (lg_lh (log s)) ` {..<logged s}) \<le> logged s"
    using card_image_le [of "{..<logged s}"] by simp
  ultimately show "card {x. (of_bool (listed (lg_lh (log s)) x) + of_bool (L x) :: nat) \<noteq> 0} \<le> logged s + card {x. L x}"
    using card_Un_le [of "lh_block (lg_lh (log s)) ` {..<logged s}" "{x. L x}"] by simp
qed

lemma txn_bread:
  assumes "txn d p s V L D" "virtio_blk dev" "\<not> L bno" "logged s + card {x. L x} < NBUF" "unat bno < 2 ^ 31"
    and cont: "\<And>b t. held d p t b bno \<Longrightarrow> txn d p t V (L(bno := True)) D \<Longrightarrow> advances 0 s t \<Longrightarrow>
      (\<And>b' x. held d p s b' x \<Longrightarrow> held d p t b' x) \<Longrightarrow> disk_run (serve dev p) n (h b) t (unchanged D) Q"
  shows "disk_run (serve dev p) (Suc n) (bind (bread d bno) h) s (unchanged D) Q"
proof (rule run_bread [OF txnD(1) [OF assms(1)] assms(2,3)], goal_cases)
  case 1
  show ?case using txn_cards(2) [OF assms(1)] assms(4) by simp
next
  case (5 b t)
  have log: "log t = log s" by (rule bframe_log [OF 5(3)])
  have "(\<lambda>x. of_bool (listed (lg_lh (log s)) x) + of_bool (L x))(bno := Suc (of_bool (listed (lg_lh (log s)) bno) + of_bool (L bno))) =
      (\<lambda>x. of_bool (listed (lg_lh (log s)) x) + of_bool ((L(bno := True)) x) :: nat)"
    using assms(3) by (auto simp: fun_eq_iff)
  then have "txn d p t V (L(bno := True)) D"
    using 5(2) txnD [OF assms(1)] log by (auto simp: txn_def)
  then show ?case using 5 by (intro cont bframe_advances) auto
qed (use assms(5) in auto)

lemma txn_set_data:
  assumes "txn d p s V L D" "held d p s b bno" "length (g (V bno)) = BSIZE"
    and cont: "\<And>t. txn d p t (V(bno := g (V bno))) L D \<Longrightarrow> advances 0 s t \<Longrightarrow>
      (\<And>b' x. held d p t b' x = held d p s b' x) \<Longrightarrow> disk_run f n h t C Q"
  shows "disk_run f n (seq (modify (set_buf b (\<lambda>q. q\<lparr>b_data := g (b_data q)\<rparr>))) h) s C Q"
proof (rule run_set_data [OF txnD(1) [OF assms(1)] assms(2), where g = g, OF assms(3)])
  fix t :: "'a lmach_scheme" assume t: "cache d p t (V(bno := g (V bno))) (\<lambda>x. of_bool (listed (lg_lh (log s)) x) + of_bool (L x)) L D"
    "bframe s t" "\<And>b' x. held d p t b' x = held d p s b' x"
  have log: "log t = log s" by (rule bframe_log [OF t(2)])
  then have "txn d p t (V(bno := g (V bno))) L D" using t(1) txn_held [OF assms(1,2)] txnD [OF assms(1)] by (auto simp: txn_def)
  then show "disk_run f n h t C Q" using t by (intro cont bframe_advances) auto
qed

definition log_add :: "uint \<Rightarrow> logheader \<Rightarrow> logheader" where
  "log_add bno lh = (if listed lh bno then lh else lh\<lparr>lh_block := (lh_block lh)(nat (lh_n lh) := bno), lh_n := lh_n lh + 1\<rparr>)"

lemma listed_log_add: "0 \<le> lh_n lh \<Longrightarrow> listed (log_add bno lh) x \<longleftrightarrow> listed lh x \<or> x = bno"
proof (cases "listed lh bno")
  case False
  assume "0 \<le> lh_n lh"
  then have "listed (log_add bno lh) x \<longleftrightarrow> (\<exists>i < Suc (nat (lh_n lh)). ((lh_block lh)(nat (lh_n lh) := bno)) i = x)"
    unfolding log_add_def if_not_P [OF False] by (simp add: listed_def nat_add_distrib)
  also have "\<dots> \<longleftrightarrow> (\<exists>i < nat (lh_n lh). lh_block lh i = x) \<or> x = bno"
    by (auto simp: less_Suc_eq) (metis less_irrefl)
  finally show ?thesis by (simp add: listed_def)
qed (auto simp: log_add_def)

lemma log_add_same: "log_slot lh bno = i \<Longrightarrow> listed lh bno \<Longrightarrow> int i \<noteq> lh_n lh \<and> (lh_block lh)(i := bno) = lh_block lh"
  unfolding log_slot_def listed_def
  by (cases "find (\<lambda>i. lh_block lh i = bno) [0..<nat (lh_n lh)]") (auto simp: find_None_iff find_Some_iff)

lemma log_add_new:
  assumes "\<not> listed lh bno"
  shows "log_slot lh bno = nat (lh_n lh)"
proof -
  have "find (\<lambda>i. lh_block lh i = bno) [0..<nat (lh_n lh)] = None"
    using assms by (auto simp: listed_def find_None_iff)
  then show ?thesis by (simp add: log_slot_def)
qed

lemma head_ok_add:
  assumes "head_ok st lh" "lh_n lh < int LOGSIZE - 1" "\<not> in_log st bno" "unat bno < 2 ^ 31"
  shows "head_ok st (log_add bno lh)"
proof (cases "listed lh bno")
  case False
  then have "inj_on ((lh_block lh)(nat (lh_n lh) := bno)) {..<Suc (nat (lh_n lh))}"
    using assms(1) by (auto simp: head_ok_def listed_def inj_on_def less_Suc_eq)
  then show ?thesis
    using assms False by (auto simp: head_ok_def log_add_def nat_add_distrib less_Suc_eq)
qed (use assms(1) in \<open>simp add: log_add_def\<close>)

lemma log_write_ends:
  assumes "txn d p s V L D" "held d p s b bno" "may_log 1 s" "\<not> in_log (lg_start (log s)) bno"
  shows "\<exists>t. (\<forall>e. log_write b s e = Ok () t e) \<and> txn d p t V L D \<and> advances 1 s t \<and> listed (lg_lh (log t)) bno \<and>
    (\<forall>b' x. held d p t b' x = held d p s b' x)"
proof -
  note t = txnD [OF assms(1)]
  define lh where "lh = lg_lh (log s)"
  have nn: "0 \<le> lh_n lh" "lh_n lh < int LOGSIZE - 1" using t(3) assms(3) by (auto simp: head_ok_def lh_def logged_def)
  have bno: "b_blockno (bufs s b) = bno" using assms(2) idx_Some(3) unfolding held_def by blast
  show ?thesis
  proof (cases "listed lh bno")
    case True
    have "log_write b s e = Ok () s e" for e
      using log_add_same [OF refl True] nn t(2,5) assms(3) bno calmD [OF t(5)]
      by (simp add: log_write_def acquire_run lh_def [symmetric] Let_def whenM_def)
    then show ?thesis using True assms(1) by (intro exI [of _ s]) (simp add: lh_def)
  next
    case False
    define s1 where "s1 = s\<lparr>log := (log s)\<lparr>lg_lh := log_add bno lh\<rparr>\<rparr>"
    define u where "u = set_buf b (\<lambda>q. q\<lparr>b_refcnt := b_refcnt q + 1\<rparr>) s1"
    have run: "log_write b s e = Ok () u e" for e
      using log_add_new [OF False] nn t(2,5) assms(3) bno calmD [OF t(5)] False
      by (simp add: log_write_def bpin_def acquire_run lh_def [symmetric] Let_def whenM_def u_def s1_def log_add_def set_buf_def)
    have c1: "cache d p s1 V (\<lambda>x. of_bool (listed lh x) + of_bool (L x)) L D" "held d p s1 = held d p s"
      using t(1) cache_cong [of p s1 s d] held_cong [of s1 s d p] by (simp_all add: s1_def lh_def)
    have "unat (b_refcnt (bufs s1 b)) = 1"
      using heldD(8) [of d p s1 b bno] c1 assms(2) txn_held [OF assms(1,2)] False cacheD(2) [OF c1(1)] by auto
    then have "unat (b_refcnt (bufs s1 b) + 1) = 2" by (simp add: unat_inc)
    with refcnt_spec [where g = "\<lambda>n. n + 1" and n = 2, OF cacheD(1,2) [OF c1(1)] _ _ _ u_def] c1(2) assms(2)
    have u: "bio d u V ((\<lambda>x. of_bool (listed lh x) + of_bool (L x))(bno := 2)) L" "held d p u b' x = held d p s b' x"
      "bframe s1 u" "sectors u = sectors s1" for b' x by auto
    have log: "log u = log s1" by (rule bframe_log [OF u(3)])
    have lists: "listed (log_add bno lh) x \<longleftrightarrow> listed lh x \<or> x = bno" for x by (rule listed_log_add [OF nn(1)])
    have "(\<lambda>x. of_bool (listed lh x) + of_bool (L x))(bno := 2) = (\<lambda>x. of_bool (listed (log_add bno lh) x) + of_bool (L x) :: nat)"
      using False txn_held [OF assms(1,2)] by (auto simp: lists fun_eq_iff)
    then have "cache d p u V (\<lambda>x. of_bool (listed (lg_lh (log u)) x) + of_bool (L x)) L D"
      using u c1(1) bframeD(1) [OF u(3), of p] log by (simp add: cache_def s1_def)
    moreover have "head_ok (lg_start (log s)) (log_add bno lh)"
      using t(3) nn(2) assms(4) held_small [OF assms(2) t(1)] unfolding lh_def by (intro head_ok_add)
    ultimately have "txn d p u V L D"
      using t(2,4) log lists by (auto simp: txn_def s1_def lh_def)
    moreover have "tframe s u"
      by (rule tframe_trans [OF _ bframe_tframe [OF u(3)]]) (simp add: s1_def tframe_log)
    moreover have "logged u = Suc (logged s)"
      using False nn(1) log by (simp add: logged_def s1_def log_add_def lh_def nat_add_distrib)
    ultimately show ?thesis using run u(2) log lists by (intro exI [of _ u]) (auto simp: s1_def lh_def advances_def)
  qed
qed

lemma txn_log_write:
  assumes "txn d p s V L D" "held d p s b bno" "may_log 1 s" "\<not> in_log (lg_start (log s)) bno"
    and "\<And>t. txn d p t V L D \<Longrightarrow> advances 1 s t \<Longrightarrow> listed (lg_lh (log t)) bno \<Longrightarrow>
      (\<And>b' x. held d p t b' x = held d p s b' x) \<Longrightarrow> disk_run f n h t C Q"
  shows "disk_run f n (seq (log_write b) h) s C Q"
  using log_write_ends [OF assms(1-4)] by (rule run_det) (use assms(5) in blast)

lemma txn_released:
  assumes "txn d p s V L D" "L bno" "listed (lg_lh (log s)) bno \<or> V bno = D bno" "bframe s t"
    and "cache d p t V ((\<lambda>x. of_bool (listed (lg_lh (log s)) x) + of_bool (L x))(bno := of_bool (listed (lg_lh (log s)) bno) + of_bool (L bno) - 1))
      (L(bno := False)) D"
  shows "txn d p t V (L(bno := False)) D"
proof -
  have "(\<lambda>x. of_bool (listed (lg_lh (log s)) x) + of_bool (L x))(bno := of_bool (listed (lg_lh (log s)) bno) + of_bool (L bno) - 1) =
      (\<lambda>x. of_bool (listed (lg_lh (log s)) x) + of_bool ((L(bno := False)) x) :: nat)"
    using assms(2) by (auto simp: fun_eq_iff)
  then show ?thesis
    using assms txnD [OF assms(1)] bframe_log [OF assms(4)] by (auto simp: txn_def)
qed

lemma txn_brelse_ends:
  assumes "txn d p s V L D" "held d p s b bno" "listed (lg_lh (log s)) bno \<or> V bno = D bno"
  shows "\<exists>t. (\<forall>e. brelse b s e = Ok () t e) \<and> txn d p t V (L(bno := False)) D \<and> advances 0 s t \<and>
    (\<forall>b' x. held d p s b' x \<longrightarrow> x \<noteq> bno \<longrightarrow> held d p t b' x)"
proof -
  have L: "L bno" by (rule txn_held [OF assms(1,2)])
  have "2 \<le> of_bool (listed (lg_lh (log s)) bno) + (of_bool (L bno) :: nat) \<or> V bno = D bno" using L assms(3) by auto
  from brelse_ends [OF txnD(1) [OF assms(1)] assms(2) this] show ?thesis
    using txn_released [OF assms(1) L assms(3)] bframe_advances by blast
qed

lemma txn_brelse:
  assumes "txn d p s V L D" "held d p s b bno" "listed (lg_lh (log s)) bno \<or> V bno = D bno"
    and "\<And>t. txn d p t V (L(bno := False)) D \<Longrightarrow> advances 0 s t \<Longrightarrow>
      (\<And>b' x. held d p s b' x \<Longrightarrow> x \<noteq> bno \<Longrightarrow> held d p t b' x) \<Longrightarrow> disk_run f n h t C Q"
  shows "disk_run f n (seq (brelse b) h) s C Q"
  using txn_brelse_ends [OF assms(1-3)] by (rule run_det) (use assms(4) in blast)

lemma txn_brelse_last:
  assumes "txn d p s V L D" "held d p s b bno" "listed (lg_lh (log s)) bno \<or> V bno = D bno"
    and "\<And>t. txn d p t V (L(bno := False)) D \<Longrightarrow> advances 0 s t \<Longrightarrow>
      (\<And>b' x. held d p s b' x \<Longrightarrow> x \<noteq> bno \<Longrightarrow> held d p t b' x) \<Longrightarrow> Q () t"
  shows "disk_run f n (brelse b) s C Q"
proof -
  obtain t where "\<And>e. brelse b s e = Ok () t e" "txn d p t V (L(bno := False)) D" "advances 0 s t"
    "\<And>b' x. held d p s b' x \<Longrightarrow> x \<noteq> bno \<Longrightarrow> held d p t b' x"
    using txn_brelse_ends [OF assms(1-3)] by blast
  then show ?thesis using assms(4) by (intro disk_run_det [of "brelse b" s "()" t]) auto
qed

text \<open>The file system changes a block in four steps: read it, write to its buffer, log it, release it.\<close>

lemma txn_update:
  assumes "txn d p s V L D" "virtio_blk dev" "\<not> L bno" "logged s + card {x. L x} < NBUF" "may_log 1 s"
    and "unat bno < 2 ^ 31" "\<not> in_log (lg_start (log s)) bno" "length (g (V bno)) = BSIZE"
    and cont: "\<And>t. txn d p t (V(bno := g (V bno))) L D \<Longrightarrow> advances 1 s t \<Longrightarrow>
      (\<And>b' x. held d p s b' x \<Longrightarrow> held d p t b' x) \<Longrightarrow> Q () t"
  shows "disk_run (serve dev p) 1 (bind (bread d bno) (\<lambda>b. seq (modify (set_buf b (\<lambda>q. q\<lparr>b_data := g (b_data q)\<rparr>)))
    (seq (log_write b) (brelse b)))) s (unchanged D) Q"
  unfolding One_nat_def
proof (rule txn_bread [OF assms(1-4,6)], goal_cases)
  case (1 b t)
  note st = 1
  have L: "(L(bno := True))(bno := False) = L" using assms(3) by (simp add: fun_upd_idem)
  show ?case
  proof (rule txn_set_data [where g = g, OF st(2,1) assms(8)], goal_cases)
    case (1 u)
    note tu = 1
    have hu: "held d p u b bno" using tu(3) st(1) by simp
    have su: "advances 0 s u" using advances_trans [OF st(3) tu(2)] by simp
    show ?case
    proof (rule txn_log_write [OF tu(1) hu], goal_cases)
      case (3 v)
      note uv = 3
      have hv: "held d p v b bno" using uv(4) hu by simp
      show ?case
      proof (rule txn_brelse_last [OF uv(1) hv], goal_cases)
        case (2 w)
        have "advances 1 s w" using advances_trans [OF advances_trans [OF su uv(2)] 2(2)] by simp
        moreover have "held d p w b' x" if "held d p s b' x" for b' x
        proof -
          have "x \<noteq> bno" using txn_held [OF assms(1) that] assms(3) by auto
          then show ?thesis using 2(3) uv(4) tu(3) st(4) that by auto
        qed
        ultimately show ?case using 2(1) unfolding L by (intro cont)
      qed (use uv in auto)
    qed (use su assms(5,7) advancesD(2,4,5) [OF su] in auto)
  qed
qed

end
