(* ===== verification/Inode.thy ===== *)
theory Inode
  imports Trans
begin

text \<open>
  The block and inode layers of \<^verbatim>\<open>kernel/fs.c\<close>, with the structures of
  \<^verbatim>\<open>kernel/fs.h\<close>, \<^verbatim>\<open>kernel/file.h\<close> and \<^verbatim>\<open>kernel/stat.h\<close> they use: the block bitmap,
  the inodes on the disk and in the table, the map from file blocks to disk blocks,
  reading and writing of a file.  A pointer to a table entry is its index.
\<close>

section \<open>Constants and structures\<close>

type_synonym short = "16 word"

definition ROOTINO :: uint where "ROOTINO = 1"
definition FSMAGIC :: uint where "FSMAGIC = 0x10203040"
definition NDIRECT :: nat where "NDIRECT = 12"
definition NINDIRECT :: nat where "NINDIRECT = BSIZE div 4"
definition MAXFILE :: nat where "MAXFILE = NDIRECT + NINDIRECT"
definition IPB :: nat where "IPB = BSIZE div 64"
definition BPB :: nat where "BPB = BSIZE * 8"
definition T_DIR :: short where "T_DIR = 1"
definition T_FILE :: short where "T_FILE = 2"
definition T_DEVICE :: short where "T_DEVICE = 3"

definition IBLOCK :: "uint \<Rightarrow> superblock \<Rightarrow> uint" where
  "IBLOCK i b = i div of_nat IPB + sb_inodestart b"

definition BBLOCK :: "uint \<Rightarrow> superblock \<Rightarrow> uint" where
  "BBLOCK x b = x div of_nat BPB + sb_bmapstart b"

record dinode =
  di_type :: short
  di_major :: short
  di_minor :: short
  di_nlink :: short
  di_size :: uint
  di_addrs :: "nat \<Rightarrow> uint"

record inode =
  i_dev :: uint
  i_inum :: uint
  i_ref :: int
  i_valid :: bool
  i_type :: short
  i_major :: short
  i_minor :: short
  i_nlink :: short
  i_size :: uint
  i_addrs :: "nat \<Rightarrow> uint"

record fstat =
  st_dev :: uint
  st_ino :: uint
  st_type :: short
  st_nlink :: short
  st_size :: uint64

record imach = lmach +
  sb :: superblock
  itable :: "nat \<Rightarrow> inode"

definition set_inode :: "nat \<Rightarrow> (inode \<Rightarrow> inode) \<Rightarrow> 'm imach_scheme \<Rightarrow> 'm imach_scheme" where
  "set_inode ip f s = s\<lparr>itable := (itable s)(ip := f (itable s ip))\<rparr>"

text \<open>The lock operations and the new fields do not interfere.\<close>

lemma imach_sel [simp]:
  "sb (acquired lk s) = sb s"
  "sb (touched s) = sb s"
  "sb (set_proc p g s) = sb s"
  "sb (set_sleeplock l h s) = sb s"
  "itable (acquired lk s) = itable s"
  "itable (touched s) = itable s"
  "itable (set_proc p g s) = itable s"
  "itable (set_sleeplock l h s) = itable s"
  by (simp_all add: acquired_def pushed_def touched_def mach_upd_defs)

lemma imach_upd [simp]:
  "sb_update usb (acquired lk s) = acquired lk (sb_update usb s)"
  "sb_update usb (touched s) = touched (sb_update usb s)"
  "itable_update uitable (acquired lk s) = acquired lk (itable_update uitable s)"
  "itable_update uitable (touched s) = touched (itable_update uitable s)"
  by (simp_all add: acquired_def pushed_def touched_def mach_upd_defs intr_get_def)

lemma imach_ok [simp]:
  "cpu_ok (sb_update usb s) = cpu_ok s"
  "lock_free lk (sb_update usb s) = lock_free lk s"
  "mycpu (sb_update usb s) = mycpu s"
  "intr_get (sb_update usb s) = intr_get s"
  "holding lk (sb_update usb s) = holding lk s"
  "proc_locks_free (sb_update usb s) = proc_locks_free s"
  "running p (sb_update usb s) = running p s"
  "cpu_ok (itable_update uitable s) = cpu_ok s"
  "lock_free lk (itable_update uitable s) = lock_free lk s"
  "mycpu (itable_update uitable s) = mycpu s"
  "intr_get (itable_update uitable s) = intr_get s"
  "holding lk (itable_update uitable s) = holding lk s"
  "proc_locks_free (itable_update uitable s) = proc_locks_free s"
  "running p (itable_update uitable s) = running p s"
  by (simp_all add: cpu_ok_def lock_free_def mach_upd_defs intr_get_def holding_def proc_locks_free_def running_def)

text \<open>An inode of 64 bytes at an offset in a block.\<close>

definition get_dinode :: "uchar list \<Rightarrow> nat \<Rightarrow> dinode" where
  "get_dinode bs off = \<lparr>di_type = get16 bs off, di_major = get16 bs (off + 2), di_minor = get16 bs (off + 4),
     di_nlink = get16 bs (off + 6), di_size = get32 bs (off + 8), di_addrs = (\<lambda>i. get32 bs (off + 12 + 4 * i))\<rparr>"

definition put_dinode :: "uchar list \<Rightarrow> nat \<Rightarrow> dinode \<Rightarrow> uchar list" where
  "put_dinode bs off d =
     put_words (put32 (put16 (put16 (put16 (put16 bs off (di_type d)) (off + 2) (di_major d)) (off + 4) (di_minor d))
       (off + 6) (di_nlink d)) (off + 8) (di_size d)) (off + 12) (di_addrs d) (NDIRECT + 1)"

section \<open>Blocks\<close>

definition set_data :: "nat \<Rightarrow> (uchar list \<Rightarrow> uchar list) \<Rightarrow> ('m imach_scheme, unit) kern" where
  "set_data b f = modify (set_buf b (\<lambda>q. q\<lparr>b_data := f (b_data q)\<rparr>))"

definition readsb :: "uint \<Rightarrow> ('m imach_scheme, unit) kern" where
  "readsb dev =
     bind (bread dev 1) (\<lambda>bp.
     bind (gets (\<lambda>s. b_data (bufs s bp))) (\<lambda>bs.
     seq (modify (\<lambda>s. s\<lparr>sb := \<lparr>sb_magic = get32 bs 0, sb_size = get32 bs 4, sb_nblocks = get32 bs 8, sb_ninodes = get32 bs 12,
       sb_nlog = get32 bs 16, sb_logstart = get32 bs 20, sb_inodestart = get32 bs 24, sb_bmapstart = get32 bs 28\<rparr>\<rparr>)) (
     brelse bp)))"

definition fsinit :: "uint \<Rightarrow> ('m imach_scheme, unit) kern" where
  "fsinit dev =
     seq (readsb dev) (
     bind (gets sb) (\<lambda>b.
     if sb_magic b \<noteq> FSMAGIC then panic ''invalid file system'' else
     initlog dev b))"

definition bzero :: "uint \<Rightarrow> uint \<Rightarrow> ('m imach_scheme, unit) kern" where
  "bzero dev bno =
     bind (bread dev bno) (\<lambda>bp.
     seq (set_data bp (\<lambda>_. replicate BSIZE 0)) (
     seq (log_write bp) (
     brelse bp)))"

text \<open>The bit of block \<open>bi\<close> in a block of the bitmap.\<close>

definition bitmap_bit :: "nat \<Rightarrow> uchar" where
  "bitmap_bit bi = push_bit (bi mod 8) 1"

definition balloc_bit :: "uint \<Rightarrow> nat \<Rightarrow> nat \<Rightarrow> nat \<Rightarrow> ('m imach_scheme, uint option) kern" where
  "balloc_bit dev bp b bi =
     bind (gets (\<lambda>s. b_data (bufs s bp))) (\<lambda>bs.
     if bs ! (bi div 8) AND bitmap_bit bi = 0 then
       seq (set_data bp (\<lambda>bs. bs[bi div 8 := bs ! (bi div 8) OR bitmap_bit bi])) (
       seq (log_write bp) (
       seq (brelse bp) (
       seq (bzero dev (of_nat (b + bi))) (
       ret (Some (of_nat (b + bi)))))))
     else ret None)"

definition balloc_block :: "uint \<Rightarrow> superblock \<Rightarrow> nat \<Rightarrow> ('m imach_scheme, uint option) kern" where
  "balloc_block dev sblk b =
     bind (bread dev (BBLOCK (of_nat b) sblk)) (\<lambda>bp.
     bind (for_ret [0..<min BPB (unat (sb_size sblk) - b)] (balloc_bit dev bp b)) (\<lambda>r.
     case r of
       Some x \<Rightarrow> ret (Some x)
     | None \<Rightarrow> seq (brelse bp) (ret None)))"

definition balloc :: "uint \<Rightarrow> ('m imach_scheme, uint) kern" where
  "balloc dev =
     bind (gets sb) (\<lambda>sblk.
     bind (for_ret (map (\<lambda>k. k * BPB) [0..<(unat (sb_size sblk) + BPB - 1) div BPB]) (balloc_block dev sblk)) (\<lambda>r.
     case r of
       Some x \<Rightarrow> ret x
     | None \<Rightarrow> seq (printf (''balloc: out of blocks'' @ [CHR 0x0A]) []) (ret 0)))"

definition bfree :: "uint \<Rightarrow> uint \<Rightarrow> ('m imach_scheme, unit) kern" where
  "bfree dev b =
     bind (gets sb) (\<lambda>sblk.
     bind (bread dev (BBLOCK b sblk)) (\<lambda>bp.
     let bi = unat b mod BPB in
     bind (gets (\<lambda>s. b_data (bufs s bp))) (\<lambda>bs.
     if bs ! (bi div 8) AND bitmap_bit bi = 0 then panic ''freeing free block'' else
     seq (set_data bp (\<lambda>bs. bs[bi div 8 := bs ! (bi div 8) AND NOT (bitmap_bit bi)])) (
     seq (log_write bp) (
     brelse bp)))))"

section \<open>Inodes\<close>

definition iinit :: "('m imach_scheme, unit) kern" where
  "iinit =
     seq (initlock L_itable ''itable'') (
     for_each [0..<NINODE] (\<lambda>i. initsleeplock (SL_inode i) ''inode''))"

definition iget :: "uint \<Rightarrow> uint \<Rightarrow> ('m imach_scheme, nat) kern" where
  "iget dev inum =
     seq (acquire L_itable) (
     bind (gets itable) (\<lambda>T.
     case find (\<lambda>i. i_ref (T i) > 0 \<and> i_dev (T i) = dev \<and> i_inum (T i) = inum) [0..<NINODE] of
       Some ip \<Rightarrow>
         seq (modify (set_inode ip (\<lambda>i. i\<lparr>i_ref := i_ref i + 1\<rparr>))) (
         seq (release L_itable) (
         ret ip))
     | None \<Rightarrow>
         (case find (\<lambda>i. i_ref (T i) = 0) [0..<NINODE] of
            None \<Rightarrow> panic ''iget: no inodes''
          | Some ip \<Rightarrow>
              seq (modify (set_inode ip (\<lambda>i. i\<lparr>i_dev := dev, i_inum := inum, i_ref := 1, i_valid := False\<rparr>))) (
              seq (release L_itable) (
              ret ip)))))"

definition ialloc_at :: "uint \<Rightarrow> short \<Rightarrow> superblock \<Rightarrow> nat \<Rightarrow> ('m imach_scheme, nat option) kern" where
  "ialloc_at dev type sblk inum =
     bind (bread dev (IBLOCK (of_nat inum) sblk)) (\<lambda>bp.
     let off = 64 * (inum mod IPB) in
     bind (gets (\<lambda>s. get_dinode (b_data (bufs s bp)) off)) (\<lambda>dip.
     if di_type dip = 0 then
       seq (set_data bp (\<lambda>bs. put16 (put_at bs off (replicate 64 0)) off type)) (
       seq (log_write bp) (
       seq (brelse bp) (
       bind (iget dev (of_nat inum)) (\<lambda>ip.
       ret (Some ip)))))
     else seq (brelse bp) (ret None)))"

definition ialloc :: "uint \<Rightarrow> short \<Rightarrow> ('m imach_scheme, nat option) kern" where
  "ialloc dev type =
     bind (gets sb) (\<lambda>sblk.
     bind (for_ret [1..<unat (sb_ninodes sblk)] (ialloc_at dev type sblk)) (\<lambda>r.
     case r of
       Some ip \<Rightarrow> ret (Some ip)
     | None \<Rightarrow> seq (printf (''ialloc: no inodes'' @ [CHR 0x0A]) []) (ret None)))"

definition inode_dinode :: "inode \<Rightarrow> dinode" where
  "inode_dinode i = \<lparr>di_type = i_type i, di_major = i_major i, di_minor = i_minor i, di_nlink = i_nlink i,
     di_size = i_size i, di_addrs = i_addrs i\<rparr>"

definition load_dinode :: "dinode \<Rightarrow> inode \<Rightarrow> inode" where
  "load_dinode d i = i\<lparr>i_type := di_type d, i_major := di_major d, i_minor := di_minor d, i_nlink := di_nlink d,
     i_size := di_size d, i_addrs := di_addrs d\<rparr>"

definition iupdate :: "nat \<Rightarrow> ('m imach_scheme, unit) kern" where
  "iupdate ip =
     bind (gets (\<lambda>s. (itable s ip, sb s))) (\<lambda>(i, sblk).
     bind (bread (i_dev i) (IBLOCK (i_inum i) sblk)) (\<lambda>bp.
     seq (set_data bp (\<lambda>bs. put_dinode bs (64 * (unat (i_inum i) mod IPB)) (inode_dinode i))) (
     seq (log_write bp) (
     brelse bp))))"

definition idup :: "nat \<Rightarrow> ('m imach_scheme, nat) kern" where
  "idup ip =
     seq (acquire L_itable) (
     seq (modify (set_inode ip (\<lambda>i. i\<lparr>i_ref := i_ref i + 1\<rparr>))) (
     seq (release L_itable) (
     ret ip)))"

definition ilock :: "nat option \<Rightarrow> ('m imach_scheme, unit) kern" where
  "ilock ipo = (case ipo of
       None \<Rightarrow> panic ''ilock''
     | Some ip \<Rightarrow>
         bind (gets (\<lambda>s. itable s ip)) (\<lambda>i.
         if i_ref i < 1 then panic ''ilock'' else
         seq (acquiresleep (SL_inode ip)) (
         bind (gets (\<lambda>s. (itable s ip, sb s))) (\<lambda>(i, sblk).
         whenM (\<not> i_valid i) (
           bind (bread (i_dev i) (IBLOCK (i_inum i) sblk)) (\<lambda>bp.
           bind (gets (\<lambda>s. get_dinode (b_data (bufs s bp)) (64 * (unat (i_inum i) mod IPB)))) (\<lambda>dip.
           seq (modify (set_inode ip (load_dinode dip))) (
           seq (brelse bp) (
           seq (modify (set_inode ip (\<lambda>i. i\<lparr>i_valid := True\<rparr>))) (
           bind (gets (\<lambda>s. i_type (itable s ip))) (\<lambda>ty.
           whenM (ty = 0) (panic ''ilock: no type''))))))))))))"

definition iunlock :: "nat option \<Rightarrow> ('m imach_scheme, unit) kern" where
  "iunlock ipo = (case ipo of
       None \<Rightarrow> panic ''iunlock''
     | Some ip \<Rightarrow>
         bind (holdingsleep (SL_inode ip)) (\<lambda>h.
         bind (gets (\<lambda>s. i_ref (itable s ip))) (\<lambda>r.
         if \<not> h \<or> r < 1 then panic ''iunlock'' else
         releasesleep (SL_inode ip))))"

section \<open>The blocks of a file\<close>

definition set_addr :: "nat \<Rightarrow> nat \<Rightarrow> uint \<Rightarrow> ('m imach_scheme, unit) kern" where
  "set_addr ip k a = modify (set_inode ip (\<lambda>i. i\<lparr>i_addrs := (i_addrs i)(k := a)\<rparr>))"

definition bmap :: "nat \<Rightarrow> uint \<Rightarrow> ('m imach_scheme, uint) kern" where
  "bmap ip bn =
     bind (gets (\<lambda>s. itable s ip)) (\<lambda>i.
     if unat bn < NDIRECT then
       (if i_addrs i (unat bn) \<noteq> 0 then ret (i_addrs i (unat bn)) else
        bind (balloc (i_dev i)) (\<lambda>addr.
        if addr = 0 then ret 0 else
        seq (set_addr ip (unat bn) addr) (ret addr)))
     else
     let bn = unat bn - NDIRECT in
     if bn < NINDIRECT then
       bind (if i_addrs i NDIRECT \<noteq> 0 then ret (i_addrs i NDIRECT) else
             bind (balloc (i_dev i)) (\<lambda>addr.
             seq (whenM (addr \<noteq> 0) (set_addr ip NDIRECT addr)) (ret addr))) (\<lambda>ind.
       if ind = 0 then ret 0 else
       bind (bread (i_dev i) ind) (\<lambda>bp.
       bind (gets (\<lambda>s. get32 (b_data (bufs s bp)) (4 * bn))) (\<lambda>addr.
       bind (if addr \<noteq> 0 then ret addr else
             bind (balloc (i_dev i)) (\<lambda>addr.
             seq (whenM (addr \<noteq> 0) (
               seq (set_data bp (\<lambda>bs. put32 bs (4 * bn) addr)) (
               log_write bp))) (
             ret addr))) (\<lambda>addr.
       seq (brelse bp) (
       ret addr)))))
     else panic ''bmap: out of range'')"

definition itrunc :: "nat \<Rightarrow> ('m imach_scheme, unit) kern" where
  "itrunc ip =
     seq (for_each [0..<NDIRECT] (\<lambda>k.
       bind (gets (\<lambda>s. itable s ip)) (\<lambda>i.
       whenM (i_addrs i k \<noteq> 0) (
         seq (bfree (i_dev i) (i_addrs i k)) (
         set_addr ip k 0))))) (
     bind (gets (\<lambda>s. itable s ip)) (\<lambda>i.
     seq (whenM (i_addrs i NDIRECT \<noteq> 0) (
       bind (bread (i_dev i) (i_addrs i NDIRECT)) (\<lambda>bp.
       seq (for_each [0..<NINDIRECT] (\<lambda>j.
         bind (gets (\<lambda>s. get32 (b_data (bufs s bp)) (4 * j))) (\<lambda>a.
         whenM (a \<noteq> 0) (bfree (i_dev i) a)))) (
       seq (brelse bp) (
       seq (bfree (i_dev i) (i_addrs i NDIRECT)) (
       set_addr ip NDIRECT 0)))))) (
     seq (modify (set_inode ip (\<lambda>i. i\<lparr>i_size := 0\<rparr>))) (
     iupdate ip))))"

definition iput :: "nat \<Rightarrow> ('m imach_scheme, unit) kern" where
  "iput ip =
     seq (acquire L_itable) (
     bind (gets (\<lambda>s. itable s ip)) (\<lambda>i.
     seq (whenM (i_ref i = 1 \<and> i_valid i \<and> i_nlink i = 0) (
       seq (acquiresleep (SL_inode ip)) (
       seq (release L_itable) (
       seq (itrunc ip) (
       seq (modify (set_inode ip (\<lambda>i. i\<lparr>i_type := 0\<rparr>))) (
       seq (iupdate ip) (
       seq (modify (set_inode ip (\<lambda>i. i\<lparr>i_valid := False\<rparr>))) (
       seq (releasesleep (SL_inode ip)) (
       acquire L_itable))))))))) (
     seq (modify (set_inode ip (\<lambda>i. i\<lparr>i_ref := i_ref i - 1\<rparr>))) (
     release L_itable))))"

definition iunlockput :: "nat \<Rightarrow> ('m imach_scheme, unit) kern" where
  "iunlockput ip = seq (iunlock (Some ip)) (iput ip)"

definition stati :: "nat \<Rightarrow> ('m imach_scheme, fstat) kern" where
  "stati ip =
     gets (\<lambda>s. let i = itable s ip in
       \<lparr>st_dev = i_dev i, st_ino = i_inum i, st_type = i_type i, st_nlink = i_nlink i, st_size = ucast (i_size i)\<rparr>)"

section \<open>Reading and writing\<close>

text \<open>
  One round of the loop of \<open>readi\<close>, and of \<open>writei\<close>: how far it is, the offset, the
  memory address, and whether the loop has been left by \<^verbatim>\<open>break\<close>.
\<close>

type_synonym iostate = "uint \<times> uint \<times> addr \<times> bool"

definition readi_step :: "nat \<Rightarrow> uint \<Rightarrow> iostate \<Rightarrow> ('m imach_scheme, iostate) kern" where
  "readi_step ip n = (\<lambda>(tot, off, dst, stop).
     bind (bmap ip (off div of_nat BSIZE)) (\<lambda>addr.
     if addr = 0 then ret (tot, off, dst, True) else
     bind (gets (\<lambda>s. i_dev (itable s ip))) (\<lambda>dev.
     bind (bread dev addr) (\<lambda>bp.
     let m = min (n - tot) (of_nat BSIZE - off mod of_nat BSIZE) in
     bind (gets (\<lambda>s. b_data (bufs s bp))) (\<lambda>bs.
     bind (either_copyout dst (peek bs (unat (off mod of_nat BSIZE)) (unat m))) (\<lambda>r.
     if r = -1 then seq (brelse bp) (ret (-1, off, dst, True)) else
     seq (brelse bp) (
     ret (tot + m, off + m, addr_add dst (unat m), False))))))))"

definition readi :: "nat \<Rightarrow> addr \<Rightarrow> uint \<Rightarrow> uint \<Rightarrow> ('m imach_scheme, int) kern" where
  "readi ip dst off n =
     bind (gets (\<lambda>s. i_size (itable s ip))) (\<lambda>fsize.
     if off > fsize \<or> off + n < off then ret 0 else
     let n = (if off + n > fsize then fsize - off else n) in
     bind (whileM (\<lambda>(tot, off, dst, stop) _. \<not> stop \<and> tot < n) (readi_step ip n) (0, off, dst, False)) (\<lambda>(tot, _).
     ret (sint tot)))"

definition writei_step :: "nat \<Rightarrow> uint \<Rightarrow> iostate \<Rightarrow> ('m imach_scheme, iostate) kern" where
  "writei_step ip n = (\<lambda>(tot, off, src, stop).
     bind (bmap ip (off div of_nat BSIZE)) (\<lambda>addr.
     if addr = 0 then ret (tot, off, src, True) else
     bind (gets (\<lambda>s. i_dev (itable s ip))) (\<lambda>dev.
     bind (bread dev addr) (\<lambda>bp.
     let m = min (n - tot) (of_nat BSIZE - off mod of_nat BSIZE) in
     bind (either_copyin src (unat m)) (\<lambda>(r, bs).
     seq (set_data bp (\<lambda>data. put_at data (unat (off mod of_nat BSIZE)) bs)) (
     if r = -1 then seq (brelse bp) (ret (tot, off, src, True)) else
     seq (log_write bp) (
     seq (brelse bp) (
     ret (tot + m, off + m, addr_add src (unat m), False)))))))))"

definition writei :: "nat \<Rightarrow> addr \<Rightarrow> uint \<Rightarrow> uint \<Rightarrow> ('m imach_scheme, int) kern" where
  "writei ip src off n =
     bind (gets (\<lambda>s. i_size (itable s ip))) (\<lambda>fsize.
     if off > fsize \<or> off + n < off then ret (-1) else
     if unat (off + n) > MAXFILE * BSIZE then ret (-1) else
     bind (whileM (\<lambda>(tot, off, src, stop) _. \<not> stop \<and> tot < n) (writei_step ip n) (0, off, src, False)) (\<lambda>(tot, off, _).
     bind (gets (\<lambda>s. i_size (itable s ip))) (\<lambda>fsize.
     seq (whenM (off > fsize) (modify (set_inode ip (\<lambda>i. i\<lparr>i_size := off\<rparr>)))) (
     seq (iupdate ip) (
     ret (sint tot))))))"

section \<open>Inodes in their blocks\<close>

lemma length_put_dinode [simp]: "off + 64 \<le> length bs \<Longrightarrow> length (put_dinode bs off d) = length bs"
  by (simp add: put_dinode_def NDIRECT_def)

text \<open>The fields an inode has on the disk; of its addresses only 13 are there.\<close>

definition same_dinode :: "dinode \<Rightarrow> dinode \<Rightarrow> bool" where
  "same_dinode a b \<longleftrightarrow> di_type a = di_type b \<and> di_major a = di_major b \<and> di_minor a = di_minor b \<and> di_nlink a = di_nlink b \<and>
     di_size a = di_size b \<and> (\<forall>k \<le> NDIRECT. di_addrs a k = di_addrs b k)"

lemma get_put_dinode:
  assumes "off + 64 \<le> length bs"
  shows "same_dinode (get_dinode (put_dinode bs off d) off) d"
proof -
  have "get32 (put_dinode bs off d) (off + 12 + 4 * k) = di_addrs d k" if "k \<le> NDIRECT" for k
    unfolding put_dinode_def using assms that by (subst get32_put_words) (auto simp: NDIRECT_def)
  then show ?thesis
    using assms by (simp add: same_dinode_def get_dinode_def put_dinode_def NDIRECT_def get16_put_words get16_put32
      get16_put16_other get32_put_words_before)
qed

lemma get_put_dinode_other:
  assumes "off + 64 \<le> length bs" "off' + 64 \<le> length bs" "off' + 64 \<le> off \<or> off + 64 \<le> off'"
  shows "same_dinode (get_dinode (put_dinode bs off d) off') (get_dinode bs off')"
proof -
  have p: "peek (put_dinode bs off d) o' m = peek bs o' m" if "off' \<le> o'" "o' + m \<le> off' + 64" for o' m
  proof -
    have "o' + m \<le> off \<or> off + 64 \<le> o'"
      using assms(3) that by linarith
    then show ?thesis
      using assms(1,2) that unfolding put_dinode_def put16_def put32_def NDIRECT_def
      by (elim disjE) (simp_all add: peek_put_words peek_put_at_other)
  qed
  show ?thesis
    using assms by (auto simp: same_dinode_def get_dinode_def get16_def get32_def NDIRECT_def p)
qed

lemma inode_slot: "64 * (n mod IPB) + 64 \<le> BSIZE"
proof -
  have "n mod IPB < IPB" by (simp add: IPB_def BSIZE_def)
  then show ?thesis by (simp add: IPB_def BSIZE_def)
qed



end
