(* ===== verification/Blocks.thy ===== *)
theory Blocks
  imports Inode
begin

text \<open>
  The block layer of \<^verbatim>\<open>kernel/fs.c\<close> at work inside a transaction: \<^verbatim>\<open>balloc\<close> and
  \<^verbatim>\<open>bfree\<close> implement an allocator on the bitmap of the disk.
\<close>

section \<open>Runs inside a transaction\<close>

lemma tframe_imach:
  assumes "tframe s t"
  shows "sb t = sb s" "itable t = itable s"
proof -
  from assms obtain a1 a2 a3 a4 a5 a6 where
    t: "t = s\<lparr>sleeplocks := a1, vmmio := a2, vdisk := a3, bufs := a4, sectors := a5, log := a6\<rparr>"
    by (rule tframeE)
  show "sb t = sb s" "itable t = itable s" unfolding t by simp_all
qed

lemma calm_imach [simp]: "calm p (sb_update f s) = calm p s" "calm p (itable_update g s) = calm p s"
  by (rule calm_cong, simp add: mach.truncate_def)+

lemma bzero_run:
  assumes "txn d p s V L D" "virtio_blk dev" "\<not> L bno" "logged s + card {x. L x} < NBUF" "may_log 1 s"
    and "unat bno < 2 ^ 31" "\<not> in_log (lg_start (log s)) bno"
    and "\<And>t. txn d p t (V(bno := replicate BSIZE 0)) L D \<Longrightarrow> advances 1 s t \<Longrightarrow>
      (\<And>b' x. held d p s b' x \<Longrightarrow> held d p t b' x) \<Longrightarrow> Q () t"
  shows "disk_run (serve dev p) 1 (bzero d bno) s (unchanged D) Q"
  unfolding bzero_def set_data_def
  by (rule txn_update [where g = "\<lambda>_. replicate BSIZE 0" and Q = Q, OF assms(1-7) length_replicate]) (rule assms(8))

text \<open>Block \<open>x\<close> is in use, by the bitmap.\<close>

definition in_use :: "superblock \<Rightarrow> (uint \<Rightarrow> uchar list) \<Rightarrow> uint \<Rightarrow> bool" where
  "in_use sblk V x \<longleftrightarrow> V (BBLOCK x sblk) ! (unat x mod BPB div 8) AND bitmap_bit (unat x mod BPB) \<noteq> 0"

text \<open>The bitmap block of the blocks from \<open>k * BPB\<close> on.\<close>

lemma BPB_pos [simp]: "0 < BPB"
  by (simp add: BPB_def BSIZE_def)

lemma bitmap_block:
  assumes "k * BPB + bi < 2 ^ 32" "bi < BPB"
  shows "BBLOCK (of_nat (k * BPB + bi)) sblk = BBLOCK (of_nat (k * BPB)) sblk" "unat (of_nat (k * BPB + bi) :: uint) mod BPB = bi"
proof -
  have u: "unat (of_nat n :: uint) = n" if "n < 2 ^ 32" for n using that by (simp add: unat_of_nat)
  have "unat (of_nat (k * BPB + bi) :: uint) = k * BPB + bi" "unat (of_nat (k * BPB) :: uint) = k * BPB" "unat (of_nat BPB :: uint) = BPB"
    using assms by (intro u; simp add: BPB_def BSIZE_def)+
  then show "BBLOCK (of_nat (k * BPB + bi)) sblk = BBLOCK (of_nat (k * BPB)) sblk" "unat (of_nat (k * BPB + bi) :: uint) mod BPB = bi"
    using assms(2) by (simp_all add: BBLOCK_def word_arith_nat_div del: of_nat_add of_nat_mult)
qed

definition mark :: "nat \<Rightarrow> uchar list \<Rightarrow> uchar list" where
  "mark bi bs = bs[bi div 8 := bs ! (bi div 8) OR bitmap_bit bi]"

lemma length_mark [simp]: "length (mark bi bs) = length bs"
  by (simp add: mark_def)

lemma balloc_bit_skip:
  assumes "txn d p s V L D" "held d p s bp bb" "V bb ! (bi div 8) AND bitmap_bit bi \<noteq> 0"
  shows "balloc_bit d bp b bi s e = Ok None s e"
  using assms txn_value [OF assms(1,2)] by (simp add: balloc_bit_def)

lemma balloc_bit_take:
  assumes "txn d p s V L D" "virtio_blk dev" "held d p s bp bb" "V bb ! (bi div 8) AND bitmap_bit bi = 0"
    and "logged s + card {x. L x} < NBUF" "may_log 2 s" "\<not> in_log (lg_start (log s)) bb"
    and x: "x = of_nat (b + bi)" "unat x < 2 ^ 31" "\<not> in_log (lg_start (log s)) x" "x = bb \<or> \<not> L x"
  shows "disk_run (serve dev p) 1 (balloc_bit d bp b bi) s (unchanged D) (\<lambda>r t. r = Some x \<and>
    txn d p t (V(bb := mark bi (V bb), x := replicate BSIZE 0)) (L(bb := False)) D \<and> advances 2 s t \<and>
    (\<forall>b' y. held d p s b' y \<longrightarrow> y \<noteq> bb \<longrightarrow> held d p t b' y))"
proof -
  have val: "b_data (bufs s bp) = V bb" by (rule txn_value [OF assms(1,3)])
  have len: "length (mark bi (V bb)) = BSIZE" using held_length [OF assms(3) txnD(1) [OF assms(1)]] by simp
  have Lbb: "L bb" by (rule txn_held [OF assms(1,3)])
  have card: "Suc (card {x. (L(bb := False)) x}) = card {x. L x}"
  proof -
    have "{x. L x} = insert bb {x. (L(bb := False)) x}" using Lbb by auto
    then show ?thesis using txn_cards(1) [OF assms(1)] by (metis (no_types, lifting) card_insert_disjoint finite_insert fun_upd_same mem_Collect_eq)
  qed
  show ?thesis
    unfolding balloc_bit_def disk_run_bind_gets val if_P [OF assms(4)] set_data_def mark_def [symmetric] x(1) [symmetric]
  proof (rule txn_set_data [where g = "mark bi", OF assms(1,3) len], goal_cases)
    case (1 t)
    note st = 1
    have ht: "held d p t bp bb" using st(3) assms(3) by simp
    show ?case
    proof (rule txn_log_write [OF st(1) ht], goal_cases)
      case (3 u)
      note tu = 3
      have su: "advances 1 s u" using advances_trans [OF st(2) tu(2)] by simp
      have hu: "held d p u bp bb" using tu(4) st(3) assms(3) by simp
      show ?case
      proof (rule txn_brelse [OF tu(1) hu], goal_cases)
        case (2 v)
        note uv = 2
        have sv: "advances 1 s v" using advances_trans [OF su uv(2)] by simp
        have "disk_run (serve dev p) 1 (bzero d x) v (unchanged D) (\<lambda>_ t. disk_run (serve dev p) 0 (ret (Some x)) t (unchanged D) (\<lambda>r t. r = Some x \<and>
            txn d p t (V(bb := mark bi (V bb), x := replicate BSIZE 0)) (L(bb := False)) D \<and> advances 2 s t \<and>
            (\<forall>b' y. held d p s b' y \<longrightarrow> y \<noteq> bb \<longrightarrow> held d p t b' y)))"
        proof (rule bzero_run [OF uv(1) assms(2)], goal_cases)
          case 2
          show ?case using advancesD(2) [OF sv] card assms(5) by linarith
        next
          case (6 w)
          then show ?case using advances_trans [OF sv] uv(3) tu(4) st(3) by (simp add: numeral_2_eq_2)
        qed (use assms(6) x advancesD(2,4,5) [OF sv] in auto)
        from disk_run_seq [OF this] show ?case by simp
      qed (use tu in simp)
    qed (use advancesD(2,4,5) [OF st(2)] assms(6,7) in auto)
  qed
qed

text \<open>A disk whose bitmap is where the superblock says, outside the log, and not locked.\<close>

definition bitmap_ok :: "superblock \<Rightarrow> uint \<Rightarrow> (uint \<Rightarrow> bool) \<Rightarrow> bool" where
  "bitmap_ok sblk st L \<longleftrightarrow> unat (sb_size sblk) \<le> 2 ^ 31 \<and> (\<forall>y < unat (sb_size sblk).
     unat (BBLOCK (of_nat y) sblk) < 2 ^ 31 \<and> \<not> in_log st (BBLOCK (of_nat y) sblk) \<and> \<not> L (BBLOCK (of_nat y) sblk))"

lemma in_use_at:
  assumes "k * BPB + bi < 2 ^ 31" "bi < BPB"
  shows "in_use sblk V (of_nat (k * BPB + bi)) \<longleftrightarrow> V (BBLOCK (of_nat (k * BPB)) sblk) ! (bi div 8) AND bitmap_bit bi \<noteq> 0"
  using bitmap_block [of k bi] assms by (simp add: in_use_def)

text \<open>One turn of the outer loop of \<open>balloc\<close>: a full block of the bitmap, and the one with the first free bit.\<close>

lemma balloc_block_full:
  assumes "txn d p s V L D" "virtio_blk dev" "logged s + card {x. L x} < NBUF" "bitmap_ok sblk (lg_start (log s)) L"
    and "k * BPB < unat (sb_size sblk)" "\<And>bi. bi < BPB \<Longrightarrow> k * BPB + bi < unat (sb_size sblk) \<Longrightarrow> in_use sblk V (of_nat (k * BPB + bi))"
  shows "disk_run (serve dev p) 1 (balloc_block d sblk (k * BPB)) s (unchanged D) (\<lambda>r t. r = None \<and> txn d p t V L D \<and> advances 0 s t \<and>
    (\<forall>b' y. held d p s b' y \<longrightarrow> held d p t b' y))"
proof -
  let ?bb = "BBLOCK (of_nat (k * BPB)) sblk"
  have bb: "unat ?bb < 2 ^ 31" "\<not> in_log (lg_start (log s)) ?bb" "\<not> L ?bb" and sz: "unat (sb_size sblk) \<le> 2 ^ 31"
    using assms(4,5) unfolding bitmap_ok_def by blast+
  have L: "(L(?bb := True))(?bb := False) = L" using bb(3) by (simp add: fun_upd_idem)
  show ?thesis
    unfolding balloc_block_def One_nat_def
  proof (rule txn_bread [OF assms(1,2) bb(3) assms(3) bb(1)], goal_cases)
    case (1 bp t)
    note st = 1
    have none: "for_ret [0..<min BPB (unat (sb_size sblk) - k * BPB)] (balloc_bit d bp (k * BPB)) t e = Ok None t e" for e
    proof (rule for_ret_skip, rule balloc_bit_skip [OF st(2,1)])
      fix bi assume "bi \<in> set [0..<min BPB (unat (sb_size sblk) - k * BPB)]"
      then have "bi < BPB" "k * BPB + bi < unat (sb_size sblk)" by auto
      then show "V ?bb ! (bi div 8) AND bitmap_bit bi \<noteq> 0"
        using assms(6) [of bi] in_use_at [of k bi sblk V] sz by (simp del: of_nat_add of_nat_mult)
    qed
    show ?case
    proof (rule disk_run_bind_eq [where x = None and t = t], rule none, unfold option.case, rule txn_brelse [OF st(2,1)])
      show "listed (lg_lh (log t)) ?bb \<or> V ?bb = D ?bb"
        using txnD(4) [OF assms(1), of ?bb] bb(3) advancesD(3) [OF st(3), of ?bb] by auto
      fix u assume u: "txn d p u V ((L(?bb := True))(?bb := False)) D" "advances 0 t u" "\<And>b' x. held d p t b' x \<Longrightarrow> x \<noteq> ?bb \<Longrightarrow> held d p u b' x"
      have "held d p u b' y" if "held d p s b' y" for b' y
        using u(3) st(4) that txn_held [OF assms(1) that] bb(3) by metis
      then show "disk_run (serve dev p) 0 (ret None) u (unchanged D) (\<lambda>r t. r = None \<and> txn d p t V L D \<and> advances 0 s t \<and>
          (\<forall>b' y. held d p s b' y \<longrightarrow> held d p t b' y))"
        using u(1) advances_trans [OF st(3) u(2)] unfolding L by simp
    qed
  qed
qed

lemma balloc_block_hit:
  assumes "txn d p s V L D" "virtio_blk dev" "Suc (logged s + card {x. L x}) < NBUF" "bitmap_ok sblk (lg_start (log s)) L"
    and "may_log 2 s" "bi < BPB" "k * BPB + bi < unat (sb_size sblk)" "x = of_nat (k * BPB + bi)"
    and "\<And>j. j < bi \<Longrightarrow> in_use sblk V (of_nat (k * BPB + j))" "\<not> in_use sblk V x" "\<not> in_log (lg_start (log s)) x" "\<not> L x"
    and "bb = BBLOCK x sblk"
  shows "disk_run (serve dev p) 2 (balloc_block d sblk (k * BPB)) s (unchanged D) (\<lambda>r t. r = Some x \<and>
    txn d p t (V(bb := mark bi (V bb), x := replicate BSIZE 0)) L D \<and> advances 2 s t \<and>
    (\<forall>b' y. held d p s b' y \<longrightarrow> held d p t b' y))"
proof -
  have sz: "unat (sb_size sblk) \<le> 2 ^ 31" using assms(4) by (simp add: bitmap_ok_def)
  have bb: "bb = BBLOCK (of_nat (k * BPB)) sblk" unfolding assms(13,8) by (rule bitmap_block) (use assms(6,7) sz in auto)
  have "k * BPB < unat (sb_size sblk)" using assms(7) by simp
  then have ok: "unat bb < 2 ^ 31" "\<not> in_log (lg_start (log s)) bb" "\<not> L bb"
    using assms(4) unfolding bb bitmap_ok_def by blast+
  have use: "in_use sblk V (of_nat (k * BPB + j)) \<longleftrightarrow> V bb ! (j div 8) AND bitmap_bit j \<noteq> 0" if "j \<le> bi" for j
    using in_use_at [of k j sblk V] that assms(6,7) sz unfolding bb by simp
  have x31: "unat x < 2 ^ 31" using assms(7,8) sz by (simp add: unat_of_nat del: of_nat_add of_nat_mult)
  have L: "(L(bb := True))(bb := False) = L" using ok(3) by (simp add: fun_upd_idem)
  show ?thesis
    unfolding balloc_block_def numeral_2_eq_2 bb [symmetric]
  proof (rule txn_bread [OF assms(1,2) ok(3) _ ok(1)], goal_cases)
    case (2 bp t)
    note st = 2
    let ?post = "\<lambda>r u. r = Some x \<and> txn d p u (V(bb := mark bi (V bb), x := replicate BSIZE 0)) L D \<and> advances (Suc (Suc 0)) s u \<and>
      (\<forall>b' y. held d p s b' y \<longrightarrow> held d p u b' y)"
    have "{x. (L(bb := True)) x} = insert bb {x. L x}" by auto
    then have room: "logged t + card {x. (L(bb := True)) x} < NBUF"
      using advancesD(2) [OF st(3)] assms(3) txn_cards(1) [OF assms(1)] by (simp add: card_insert_if split: if_splits)
    have at: "[0..<min BPB (unat (sb_size sblk) - k * BPB)] ! j = j" if "j \<le> bi" for j using that assms(6,7) by simp
    have "disk_run (serve dev p) (bi * 0 + 1) (for_ret [0..<min BPB (unat (sb_size sblk) - k * BPB)] (balloc_bit d bp (k * BPB))) t (unchanged D)
      (\<lambda>r u. disk_run (serve dev p) 0 (case r of Some x \<Rightarrow> ret (Some x) | None \<Rightarrow> seq (brelse bp) (ret None)) u (unchanged D) ?post)"
    proof (rule disk_run_for_ret [where I = "\<lambda>u. u = t"], goal_cases)
      case (2 j u)
      then have "balloc_bit d bp (k * BPB) j t e = Ok None t e" for e
        using assms(9) use by (intro balloc_bit_skip [OF st(2,1)]) simp
      then show ?case using 2 at [of j] by (intro disk_run_det [of _ _ None t]) simp_all
    next
      case (3 u)
      have "disk_run (serve dev p) 1 (balloc_bit d bp (k * BPB) bi) t (unchanged D) (\<lambda>r t'. r = Some x \<and>
        txn d p t' (V(bb := mark bi (V bb), x := replicate BSIZE 0)) ((L(bb := True))(bb := False)) D \<and> advances 2 t t' \<and>
        (\<forall>b' y. held d p t b' y \<longrightarrow> y \<noteq> bb \<longrightarrow> held d p t' b' y))"
        by (rule balloc_bit_take [OF st(2) assms(2) st(1) _ room])
          (use use [of bi] assms(5,8,10,11,12) advancesD(2,4,5) [OF st(3)] ok(2) x31 in auto)
      then show ?case
        unfolding 3 at [OF order_refl] L
      proof (rule disk_run_conseq, elim conjE)
        fix r u assume u: "r = Some x" "txn d p u (V(bb := mark bi (V bb), x := replicate BSIZE 0)) L D" "advances 2 t u"
          "\<forall>b' y. held d p t b' y \<longrightarrow> y \<noteq> bb \<longrightarrow> held d p u b' y"
        have "held d p u b' y" if "held d p s b' y" for b' y
          using u(4) st(4) that txn_held [OF assms(1) that] ok(3) by metis
        then show "r \<noteq> None \<and> disk_run (serve dev p) 0 (case r of Some x \<Rightarrow> ret (Some x) | None \<Rightarrow> seq (brelse bp) (ret None)) u (unchanged D) ?post"
          using u advances_trans [OF st(3) u(3)] by (simp add: numeral_2_eq_2)
      qed
    qed (use assms(6,7) in auto)
    from disk_run_bind [OF this] show ?case by simp
  qed (use assms(3) in simp)
qed

lemma balloc_run:
  assumes "txn d p s V L D" "virtio_blk dev" "Suc (logged s + card {x. L x}) < NBUF" "bitmap_ok sblk (lg_start (log s)) L"
    and "may_log 2 s" "sb s = sblk" "n < unat (sb_size sblk)" "x = of_nat n"
    and "\<And>y. y < n \<Longrightarrow> in_use sblk V (of_nat y)" "\<not> in_use sblk V x" "\<not> in_log (lg_start (log s)) x" "\<not> L x"
    and "bb = BBLOCK x sblk"
  shows "disk_run (serve dev p) (n div BPB + 2) (balloc d) s (unchanged D) (\<lambda>r t. r = x \<and>
    txn d p t (V(bb := mark (n mod BPB) (V bb), x := replicate BSIZE 0)) L D \<and> advances 2 s t \<and>
    (\<forall>b' y. held d p s b' y \<longrightarrow> held d p t b' y))"
proof -
  let ?post = "\<lambda>r t. r = x \<and> txn d p t (V(bb := mark (n mod BPB) (V bb), x := replicate BSIZE 0)) L D \<and> advances 2 s t \<and>
    (\<forall>b' y. held d p s b' y \<longrightarrow> held d p t b' y)"
  let ?bs = "map (\<lambda>k. k * BPB) [0..<(unat (sb_size sblk) + BPB - 1) div BPB]"
  let ?I = "\<lambda>t. txn d p t V L D \<and> advances 0 s t \<and> (\<forall>b' y. held d p s b' y \<longrightarrow> held d p t b' y)"
  have n: "n = n div BPB * BPB + n mod BPB" by simp
  have len: "n div BPB < (unat (sb_size sblk) + BPB - 1) div BPB"
    using assms(7) div_le_mono [of "n + BPB" "unat (sb_size sblk) + BPB - 1" BPB] div_add_self2 [of BPB n] BPB_pos by linarith
  then have at: "?bs ! k = k * BPB" if "k \<le> n div BPB" for k using that by simp
  have "disk_run (serve dev p) (n div BPB * 1 + 2) (for_ret ?bs (balloc_block d sblk)) s (unchanged D)
     (\<lambda>r t. disk_run (serve dev p) 0 (case r of Some x \<Rightarrow> ret x | None \<Rightarrow>
        seq (printf (''balloc: out of blocks'' @ [CHR 0x0A]) []) (ret 0)) t (unchanged D) ?post)"
  proof (rule disk_run_for_ret [where I = ?I], goal_cases)
    case 1
    then show ?case using len by simp
  next
    case (2 k t)
    then have t: "txn d p t V L D" "advances 0 s t" "\<And>b' y. held d p s b' y \<Longrightarrow> held d p t b' y" by auto
    have "Suc k * BPB \<le> n div BPB * BPB" using 2(1) by (intro mult_right_mono) auto
    then have le: "k * BPB + bi < n" if "bi < BPB" for bi
      using that div_times_less_eq_dividend [of n BPB] unfolding mult_Suc by linarith
    have "disk_run (serve dev p) 1 (balloc_block d sblk (k * BPB)) t (unchanged D) (\<lambda>r u. r = None \<and> txn d p u V L D \<and> advances 0 t u \<and>
      (\<forall>b' y. held d p t b' y \<longrightarrow> held d p u b' y))"
      by (rule balloc_block_full [OF t(1) assms(2)])
        (use assms(3,4,7,9) le [of 0] le advancesD(2,4,5) [OF t(2)] in \<open>auto simp del: of_nat_add of_nat_mult\<close>)
    then show ?case unfolding at [OF less_imp_le [OF 2(1)]]
      by (rule disk_run_conseq) (use t advances_trans [OF t(2)] in auto)
  next
    case (3 t)
    then have t: "txn d p t V L D" "advances 0 s t" "\<And>b' y. held d p s b' y \<Longrightarrow> held d p t b' y" by auto
    have lt: "n div BPB * BPB + j < n" if "j < n mod BPB" for j using that n by linarith
    have "disk_run (serve dev p) 2 (balloc_block d sblk (n div BPB * BPB)) t (unchanged D) (\<lambda>r u. r = Some x \<and>
      txn d p u (V(bb := mark (n mod BPB) (V bb), x := replicate BSIZE 0)) L D \<and> advances 2 t u \<and>
      (\<forall>b' y. held d p t b' y \<longrightarrow> held d p u b' y))"
      by (rule balloc_block_hit [OF t(1) assms(2) _ _ _ _ _ _ _ assms(10) _ assms(12,13)])
        (use assms(3,4,5,7,8,9,11) advancesD(2,4,5) [OF t(2)] lt in \<open>auto simp del: of_nat_add of_nat_mult\<close>)
    then show ?case unfolding at [OF order_refl]
      by (rule disk_run_conseq) (use t advances_trans [OF t(2)] in auto)
  qed (use assms(1) in simp_all)
  from disk_run_bind [OF this] show ?thesis
    unfolding balloc_def disk_run_bind_gets assms(6) mult_1_right add_0_right .
qed

lemma bitmap_bit_iff: "a AND bitmap_bit bi \<noteq> 0 \<longleftrightarrow> bit a (bi mod 8)"
  by (simp add: bitmap_bit_def bit_iff_and_push_bit_not_eq_0)

lemma in_use_iff: "in_use sblk V x \<longleftrightarrow> bit (V (BBLOCK x sblk) ! (unat x mod BPB div 8)) (unat x mod BPB mod 8)"
  by (simp add: in_use_def bitmap_bit_iff)

lemma bitmap_pos:
  assumes "BBLOCK x sblk = BBLOCK y sblk" "unat x mod BPB = unat y mod BPB"
  shows "x = y"
proof -
  have "unat (x div of_nat BPB) = unat x div BPB" for x :: uint
    by (simp add: unat_div unat_of_nat BPB_def BSIZE_def)
  then have "unat x div BPB = unat y div BPB" using assms(1) by (metis BBLOCK_def add_right_cancel)
  then have "unat x = unat y" using assms(2) by (metis div_mult_mod_eq)
  then show ?thesis by (simp add: word_unat_eq_iff)
qed

lemma byte_pos: "i div 8 = j div 8 \<and> i mod 8 = j mod 8 \<longleftrightarrow> i = (j :: nat)"
  by (metis div_mult_mod_eq)

lemma in_use_upd:
  assumes "length (V (BBLOCK x sblk)) = BSIZE" "\<And>k. k < 8 \<Longrightarrow> bit (g (unat x mod BPB mod 8) a) k \<longleftrightarrow> (if k = unat x mod BPB mod 8 then v else bit a k)"
    and "a = V (BBLOCK x sblk) ! (unat x mod BPB div 8)" "V' = V(BBLOCK x sblk := (V (BBLOCK x sblk))[unat x mod BPB div 8 := g (unat x mod BPB mod 8) a])"
  shows "in_use sblk V' y \<longleftrightarrow> (if y = x then v else in_use sblk V y)"
proof -
  have lt: "unat z mod BPB div 8 < BSIZE" for z :: uint
    using mod_less_divisor [OF BPB_pos, of "unat z"] by (simp add: BPB_def BSIZE_def)
  show ?thesis
  proof (cases "BBLOCK y sblk = BBLOCK x sblk \<and> unat y mod BPB div 8 = unat x mod BPB div 8")
    case True
    have "y = x \<longleftrightarrow> unat y mod BPB mod 8 = unat x mod BPB mod 8"
      using True bitmap_pos [of y sblk x] byte_pos [of "unat y mod BPB" "unat x mod BPB"] by auto
    then show ?thesis using True assms lt [of x] by (simp add: in_use_iff)
  next
    case False
    then show ?thesis using assms lt [of x] by (auto simp: in_use_iff)
  qed
qed

lemma in_use_mark:
  assumes "length (V (BBLOCK x sblk)) = BSIZE" "bb = BBLOCK x sblk" "bi = unat x mod BPB"
  shows "in_use sblk (V(bb := mark bi (V bb))) y \<longleftrightarrow> y = x \<or> in_use sblk V y"
  unfolding assms(2,3) mark_def bitmap_bit_def
  by (subst in_use_upd [where g = "\<lambda>k a. a OR push_bit k 1" and v = True and V = V and x = x and sblk = sblk, OF assms(1) _ refl refl])
    (auto simp: bit_simps)

definition unmark :: "nat \<Rightarrow> uchar list \<Rightarrow> uchar list" where
  "unmark bi bs = bs[bi div 8 := bs ! (bi div 8) AND NOT (bitmap_bit bi)]"

lemma in_use_unmark:
  assumes "length (V (BBLOCK x sblk)) = BSIZE" "bb = BBLOCK x sblk" "bi = unat x mod BPB"
  shows "in_use sblk (V(bb := unmark bi (V bb))) y \<longleftrightarrow> y \<noteq> x \<and> in_use sblk V y"
  unfolding assms(2,3) unmark_def bitmap_bit_def
  by (subst in_use_upd [where g = "\<lambda>k a. a AND NOT (push_bit k 1)" and v = False and V = V and x = x and sblk = sblk, OF assms(1) _ refl refl])
    (auto simp: bit_simps)

lemma in_use_cong: "V' (BBLOCK y sblk) = V (BBLOCK y sblk) \<Longrightarrow> in_use sblk V' y = in_use sblk V y"
  by (simp add: in_use_def)

text \<open>
  C3: \<^verbatim>\<open>balloc\<close> takes the first block that the bitmap does not mark: the result is that
  block, it is marked afterwards and filled with zeros, every other block keeps its mark
  and, but for the block of the bitmap, its contents.  The disk is not changed before
  the transaction commits, wherever a crash stops the call.
\<close>

theorem balloc_first_free:
  assumes "txn d p s V L D" "virtio_blk dev" "Suc (logged s + card {x. L x}) < NBUF" "may_log 2 s"
    and "bitmap_ok (sb s) (lg_start (log s)) L" "n < unat (sb_size (sb s))" "x = of_nat n"
    and "\<forall>y < n. in_use (sb s) V (of_nat y)" "\<not> in_use (sb s) V x"
    and "\<not> in_log (lg_start (log s)) x" "\<not> L x" "\<forall>y < unat (sb_size (sb s)). BBLOCK (of_nat y) (sb s) \<noteq> x"
  shows "disk_run (serve dev p) (n div BPB + 2) (balloc d) s (unchanged D) (\<lambda>r t. r = x \<and> (\<exists>V'. txn d p t V' L D \<and>
    V' x = replicate BSIZE 0 \<and> (\<forall>y < unat (sb_size (sb s)). in_use (sb s) V' (of_nat y) \<longleftrightarrow> y = n \<or> in_use (sb s) V (of_nat y)) \<and>
    (\<forall>y. y \<noteq> x \<longrightarrow> y \<noteq> BBLOCK x (sb s) \<longrightarrow> V' y = V y)))"
proof -
  let ?bb = "BBLOCK x (sb s)" and ?V = "\<lambda>bb. V(bb := mark (n mod BPB) (V bb), x := replicate BSIZE 0)"
  have sz: "unat (sb_size (sb s)) \<le> 2 ^ 31" using assms(5) by (simp add: bitmap_ok_def)
  then have n: "unat x = n" using assms(6,7) by (simp add: unat_of_nat)
  have "unat ?bb < 2 ^ 31" using assms(5-7) unfolding bitmap_ok_def by blast
  then have len: "length (V ?bb) = BSIZE" using txn_length [OF assms(1)] by blast
  have "in_use (sb s) (?V ?bb) (of_nat y) \<longleftrightarrow> y = n \<or> in_use (sb s) V (of_nat y)" if "y < unat (sb_size (sb s))" for y
  proof -
    have "in_use (sb s) (?V ?bb) (of_nat y) \<longleftrightarrow> in_use (sb s) (V(?bb := mark (n mod BPB) (V ?bb))) (of_nat y)"
      using assms(12) that by (intro in_use_cong) simp
    moreover have "(of_nat y = x) = (y = n)" using that sz n by (auto simp: unat_of_nat word_unat_eq_iff)
    ultimately show ?thesis using in_use_mark [of V x "sb s" ?bb "n mod BPB" "of_nat y"] len n by simp
  qed
  then show ?thesis
    using assms(8) by (intro disk_run_conseq [OF balloc_run [OF assms(1,2,3,5,4) refl assms(6,7) _ assms(9,10,11) refl]]) auto
qed

lemma bfree_run:
  assumes "txn d p s V L D" "virtio_blk dev" "logged s + card {x. L x} < NBUF" "may_log 1 s"
    and "sb s = sblk" "bb = BBLOCK x sblk" "unat bb < 2 ^ 31" "\<not> in_log (lg_start (log s)) bb" "\<not> L bb" "in_use sblk V x"
  shows "disk_run (serve dev p) 1 (bfree d x) s (unchanged D) (\<lambda>_ t.
    txn d p t (V(bb := unmark (unat x mod BPB) (V bb))) L D \<and> advances 1 s t \<and> (\<forall>b' y. held d p s b' y \<longrightarrow> held d p t b' y))"
proof -
  let ?bi = "unat x mod BPB"
  have L: "(L(bb := True))(bb := False) = L" using assms(9) by (simp add: fun_upd_idem)
  have len: "length (unmark ?bi (V bb)) = BSIZE" using txn_length [OF assms(1,7)] by (simp add: unmark_def)
  have bit: "\<not> V bb ! (?bi div 8) AND bitmap_bit ?bi = 0" using assms(6,10) by (simp add: in_use_def)
  show ?thesis
    unfolding bfree_def disk_run_bind_gets assms(5) assms(6) [symmetric] One_nat_def Let_def
  proof (rule txn_bread [OF assms(1,2,9,3,7)], goal_cases)
    case (1 bp t)
    note st = 1
    show ?case
      unfolding disk_run_bind_gets txn_value [OF st(2,1)] if_not_P [OF bit] set_data_def unmark_def [symmetric]
    proof (rule txn_set_data [where g = "unmark ?bi", OF st(2,1) len], goal_cases)
      case (1 u)
      note tu = 1
      have hu: "held d p u bp bb" using tu(3) st(1) by simp
      have su: "advances 0 s u" using advances_trans [OF st(3) tu(2)] by simp
      show ?case
      proof (rule txn_log_write [OF tu(1) hu], goal_cases)
        case (3 v)
        note uv = 3
        have hv: "held d p v bp bb" using uv(4) hu by simp
        show ?case
        proof (rule txn_brelse_last [OF uv(1) hv], goal_cases)
          case (2 w)
          have "held d p w b' y" if "held d p s b' y" for b' y
            using 2(3) uv(4) tu(3) st(4) that txn_held [OF assms(1) that] assms(9) by metis
          then show ?case using 2(1) advances_trans [OF advances_trans [OF su uv(2)] 2(2)] unfolding L by simp
        qed (use uv in simp)
      qed (use advancesD(2,4,5) [OF su] assms(4,8) in auto)
    qed
  qed
qed

lemma txn_bread_returns:
  assumes "txn d p s V L D" "virtio_blk dev" "\<not> L bno" "logged s + card {x. L x} < NBUF" "unat bno < 2 ^ 31"
  shows "\<exists>b t e. bread d bno s (replicate (Suc k) (serve dev p)) = Ok b t e \<and> held d p t b bno \<and> txn d p t V (L(bno := True)) D \<and> advances 0 s t"
proof -
  have "disk_run (serve dev p) (Suc 0) (bind (bread d bno) ret) s (unchanged D)
      (\<lambda>b t. held d p t b bno \<and> txn d p t V (L(bno := True)) D \<and> advances 0 s t)"
    by (rule txn_bread [OF assms]) simp
  from disk_run_returns [OF this, of "Suc k"] show ?thesis
    by (auto simp: bind_run split: outcome.splits)
qed

text \<open>
  C4: \<^verbatim>\<open>bfree\<close> releases exactly the block it is given: the block is not marked afterwards,
  every other block keeps its mark, and nothing but the block of the bitmap changes.  A
  block that is not marked is not freed again: the call panics.
\<close>

theorem bfree_exact:
  assumes "txn d p s V L D" "virtio_blk dev" "logged s + card {x. L x} < NBUF" "may_log 1 s"
    and "unat (BBLOCK x (sb s)) < 2 ^ 31" "\<not> in_log (lg_start (log s)) (BBLOCK x (sb s))" "\<not> L (BBLOCK x (sb s))"
  shows "if in_use (sb s) V x
    then disk_run (serve dev p) 1 (bfree d x) s (unchanged D) (\<lambda>_ t. \<exists>V'. txn d p t V' L D \<and>
      (\<forall>y. in_use (sb s) V' y \<longleftrightarrow> y \<noteq> x \<and> in_use (sb s) V y) \<and> (\<forall>y. y \<noteq> BBLOCK x (sb s) \<longrightarrow> V' y = V y))
    else bfree d x s (replicate (Suc k) (serve dev p)) = Panic ''freeing free block''"
proof (cases "in_use (sb s) V x")
  case True
  have len: "length (V (BBLOCK x (sb s))) = BSIZE" by (rule txn_length [OF assms(1,5)])
  show ?thesis
    unfolding if_P [OF True]
    using in_use_unmark [of V x "sb s" "BBLOCK x (sb s)" "unat x mod BPB", OF len refl refl]
    by (intro disk_run_conseq [OF bfree_run [OF assms(1-4) refl refl assms(5-7) True]]) auto
next
  case False
  obtain b t e where r: "bread d (BBLOCK x (sb s)) s (replicate (Suc k) (serve dev p)) = Ok b t e"
    "held d p t b (BBLOCK x (sb s))" "txn d p t V (L(BBLOCK x (sb s) := True)) D"
    using txn_bread_returns [OF assms(1,2,7,3,5)] by blast
  show ?thesis
    using False r(1) txn_value [OF r(3,2)] by (simp add: bfree_def in_use_def Let_def del: replicate_Suc)
qed

section \<open>An example state\<close>

definition iboot_sectors :: "nat \<Rightarrow> uchar list" where
  "iboot_sectors = (\<lambda>_. replicate 512 0)(90 := replicate 6 255 @ replicate 506 0)"

definition iboot :: imach where
  "iboot = lmach.extend (lboot\<lparr>sectors := iboot_sectors\<rparr>)
     (imach.fields \<lparr>sb_magic = FSMAGIC, sb_size = 1000, sb_nblocks = 954, sb_ninodes = 200, sb_nlog = 30, sb_logstart = 2,
          sb_inodestart = 32, sb_bmapstart = 45\<rparr>
       (\<lambda>_. \<lparr>i_dev = 0, i_inum = 0, i_ref = 0, i_valid = False, i_type = 0, i_major = 0, i_minor = 0, i_nlink = 0, i_size = 0,
            i_addrs = (\<lambda>_. 0)\<rparr>))"

lemma iboot_txn:
  assumes "\<forall>n. length (sec n) = 512"
  shows "\<exists>s :: imach. txn 1 0 s (disk_view sec) (\<lambda>_. False) (disk_view sec) \<and> sb s = sb iboot \<and> itable s = T \<and>
     lg_start (log s) = 2 \<and> logged s = 0 \<and> lg_outstanding (log s) = 1"
proof -
  define z where "z = iboot\<lparr>sectors := sec\<rparr>"
  have "calm 0 z = calm 0 lboot" by (rule calm_cong) (simp add: z_def iboot_def lmach.defs mach.truncate_def)
  then have i: "calm 0 z" "vd_idle (vdisk z)" "bufs z = (\<lambda>_. zero_buf)" "sectors z = sec"
    using lboot_simps by (simp_all add: z_def iboot_def lmach.defs)
  have "\<forall>i < NBUF. b_dev (bufs z i) \<noteq> 1 \<and> b_refcnt (bufs z i) = 0 \<and> \<not> b_disk (bufs z i) \<and> length (b_data (bufs z i)) = BSIZE"
    "\<forall>n. length (sectors z n) = 512" using assms by (simp_all add: i zero_buf_def BSIZE_def)
  from binit_cache [OF this i(2,1), of "[]"] obtain s :: imach where
    s: "cache 1 0 s (disk_view sec) (\<lambda>_. 0) (\<lambda>_. False) (disk_view sec)"
    unfolding i(4) by blast
  define t where "t = s\<lparr>sb := sb iboot, itable := T, log := \<lparr>lg_start = 2, lg_size = 30, lg_outstanding = 1, lg_committing = False,
     lg_dev = 1, lg_lh = \<lparr>lh_n = 0, lh_block = (\<lambda>_. 0)\<rparr>\<rparr>\<rparr>"
  have "cache 1 0 t = cache 1 0 s" by (rule cache_cong) (simp_all add: t_def)
  then show ?thesis
    using s by (intro exI [of _ t]) (simp add: txn_def t_def logged_def listed_def head_ok_def LOGSIZE_def MAXOPBLOCKS_def)
qed

lemma iboot_lengths: "\<forall>n. length (iboot_sectors n) = 512"
  by (simp add: iboot_sectors_def)

lemma iboot_sb: "sb_size (sb iboot) = 1000" "sb_bmapstart (sb iboot) = 45"
  by (simp_all add: iboot_def lmach.defs imach.defs)

lemma iboot_bblock: "unat (BBLOCK x (sb iboot)) = unat x div 8192 + 45"
proof -
  have "unat (x div 8192) = unat x div 8192" by (simp add: unat_div)
  moreover have "unat x < 2 ^ LENGTH(32)" by (rule unsigned_less)
  then have "unat x div 8192 < 2 ^ 19" by (simp add: div_less_iff_less_mult)
  ultimately show ?thesis by (simp add: BBLOCK_def BPB_def BSIZE_def iboot_sb) (subst unat_plus_if', simp)
qed

lemma iboot_bitmap: "unat x < 8192 \<Longrightarrow> BBLOCK x (sb iboot) = 45"
  by (simp add: word_unat_eq_iff iboot_bblock)

lemma iboot_use:
  assumes "unat x < 56"
  shows "in_use (sb iboot) (disk_view iboot_sectors) x \<longleftrightarrow> unat x < 48"
proof -
  have bb: "BBLOCK x (sb iboot) = 45" using assms by (intro iboot_bitmap) simp
  have mod: "unat x mod BPB = unat x" using assms by (simp add: BPB_def BSIZE_def)
  have V: "disk_view iboot_sectors 45 ! i = (if i < 6 then 255 else 0)" if "i < 7" for i
    using that by (auto simp: disk_view_def get_block_def sector_of_def iboot_sectors_def nth_append)
  show ?thesis
  proof (cases "unat x < 48")
    case True
    have "(255 :: uchar) = mask 8" by (simp add: mask_eq_exp_minus_1)
    then have "bit (255 :: uchar) (unat x mod 8)" by (simp only: bit_mask_iff) simp
    then show ?thesis using True by (simp add: in_use_iff bb mod V)
  next
    case False
    then have "unat x div 8 = 6" using assms by simp
    then show ?thesis using False by (simp add: in_use_iff bb mod V)
  qed
qed

lemma iboot_ok: "bitmap_ok (sb iboot) 2 (\<lambda>_. False)" "\<forall>y < 1000. BBLOCK (of_nat y) (sb iboot) \<noteq> 48"
proof -
  have "BBLOCK (of_nat y) (sb iboot) = 45" if "y < 1000" for y
    using that by (intro iboot_bitmap) (simp add: unat_of_nat)
  then show "bitmap_ok (sb iboot) 2 (\<lambda>_. False)" "\<forall>y < 1000. BBLOCK (of_nat y) (sb iboot) \<noteq> 48"
    by (simp_all add: bitmap_ok_def iboot_sb in_log_def LOGSIZE_def MAXOPBLOCKS_def)
qed

theorem balloc_first_free_witness:
  "\<exists>(s :: imach) V D. case balloc 1 s (replicate 2 (serve blk_device 0)) of
     Ok r t e \<Rightarrow> r = 48 \<and> (\<exists>V'. txn 1 0 t V' (\<lambda>_. False) D \<and> in_use (sb s) V' 48 \<and> \<not> in_use (sb s) V 48)
   | _ \<Rightarrow> False"
proof -
  let ?D = "disk_view iboot_sectors"
  obtain s :: imach where s: "txn 1 0 s ?D (\<lambda>_. False) ?D" "sb s = sb iboot" "lg_start (log s) = 2" "logged s = 0" "lg_outstanding (log s) = 1"
    using iboot_txn [OF iboot_lengths] by blast
  have "disk_run (serve blk_device 0) (48 div BPB + 2) (balloc 1) s (unchanged ?D) (\<lambda>r t. r = 48 \<and> (\<exists>V'. txn 1 0 t V' (\<lambda>_. False) ?D \<and>
    V' 48 = replicate BSIZE 0 \<and> (\<forall>y < unat (sb_size (sb s)). in_use (sb s) V' (of_nat y) \<longleftrightarrow> y = 48 \<or> in_use (sb s) ?D (of_nat y)) \<and>
    (\<forall>y. y \<noteq> 48 \<longrightarrow> y \<noteq> BBLOCK 48 (sb s) \<longrightarrow> V' y = ?D y)))"
    by (rule balloc_first_free [OF s(1) virtio_blk_device])
      (use iboot_ok iboot_use s in \<open>auto simp: iboot_sb NBUF_def LOGSIZE_def MAXOPBLOCKS_def in_log_def unat_of_nat\<close>)
  moreover have "48 div BPB + 2 \<le> 2" by (simp add: BPB_def BSIZE_def)
  ultimately obtain r t j V' where t: "balloc 1 s (replicate 2 (serve blk_device 0)) = Ok r t (replicate j (serve blk_device 0))" "r = 48"
    "txn 1 0 t V' (\<lambda>_. False) ?D" "\<And>y. y < unat (sb_size (sb s)) \<Longrightarrow> in_use (sb s) V' (of_nat y) \<longleftrightarrow> y = 48 \<or> in_use (sb s) ?D (of_nat y)"
    using disk_run_returns [of "serve blk_device 0" "48 div BPB + 2" "balloc 1" s] by blast
  have "in_use (sb s) V' 48" using t(4) [of 48] s(2) iboot_sb(1) by simp
  moreover have "\<not> in_use (sb s) ?D 48" using iboot_use [of 48] s(2) by simp
  ultimately show ?thesis using t by (intro exI [of _ s] exI [of _ ?D]) auto
qed

theorem bfree_exact_witness:
  "\<exists>s :: imach. bfree 1 48 s [serve blk_device 0] = Panic ''freeing free block''"
proof -
  let ?D = "disk_view iboot_sectors"
  obtain s :: imach where s: "txn 1 0 s ?D (\<lambda>_. False) ?D" "sb s = sb iboot" "lg_start (log s) = 2" "logged s = 0" "lg_outstanding (log s) = 1"
    using iboot_txn [OF iboot_lengths] by blast
  have "\<not> in_use (sb s) ?D 48" using iboot_use [of 48] s(2) by simp
  then have "bfree 1 48 s (replicate (Suc 0) (serve blk_device 0)) = Panic ''freeing free block''"
    using bfree_exact [OF s(1) virtio_blk_device, of 48 0] s iboot_bitmap [of 48]
    by (simp add: NBUF_def LOGSIZE_def MAXOPBLOCKS_def in_log_def)
  then show ?thesis by auto
qed

end
