(* ===== verification/Path.thy ===== *)
theory Path
  imports Blocks
begin

text \<open>
  The directory and path layers of \<^verbatim>\<open>kernel/fs.c\<close>.  A C string is the list of its bytes
  before the null byte; the array of a name is such a list of at most 14 bytes.
\<close>

definition DIRSIZ :: nat where "DIRSIZ = 14"

record dirent =
  de_inum :: ushort
  de_name :: "uchar list"

definition get_dirent :: "uchar list \<Rightarrow> dirent" where
  "get_dirent bs = \<lparr>de_inum = get16 bs 0, de_name = peek bs 2 DIRSIZ\<rparr>"

definition put_dirent :: "dirent \<Rightarrow> uchar list" where
  "put_dirent de = le_bytes 2 (de_inum de) @ de_name de"

text \<open>Two strings in memory, for the functions of \<^verbatim>\<open>string.c\<close>.\<close>

definition two_strings :: "uchar list \<Rightarrow> uchar list \<Rightarrow> bytemem" where
  "two_strings s t a =
     (if unat a < 0x10000 then (if unat a < length s then s ! unat a else 0)
      else (if unat a - 0x10000 < length t then t ! (unat a - 0x10000) else 0))"

definition namecmp :: "uchar list \<Rightarrow> uchar list \<Rightarrow> int" where
  "namecmp s t = strncmp (two_strings s t) 0 0x10000 (of_nat DIRSIZ)"

definition name_field :: "uchar list \<Rightarrow> uchar list" where
  "name_field name = read_bytes (strncpy (two_strings [] name) 0 0x10000 (int DIRSIZ)) 0 DIRSIZ"

text \<open>The variable \<^verbatim>\<open>de\<close> of the functions below is at the start of \<open>klocal\<close>.\<close>

definition local_bytes :: "nat \<Rightarrow> nat \<Rightarrow> 'm cmach_scheme \<Rightarrow> uchar list" where
  "local_bytes i n s = map (klocal s) [i..<i + n]"

definition set_local :: "nat \<Rightarrow> uchar list \<Rightarrow> ('m cmach_scheme, unit) kern" where
  "set_local i bs = modify (\<lambda>s. s\<lparr>klocal := (\<lambda>j. if i \<le> j \<and> j < i + length bs then bs ! (j - i) else klocal s j)\<rparr>)"

text \<open>One round of the loop of \<open>dirlookup\<close>: the offset, and the inode once it is found.\<close>

definition dirlookup_step :: "nat \<Rightarrow> uchar list \<Rightarrow> uint \<times> nat option \<Rightarrow> ('m imach_scheme, uint \<times> nat option) kern" where
  "dirlookup_step dp name = (\<lambda>(off, found).
     bind (readi dp (Local 0) off 16) (\<lambda>r.
     if r \<noteq> 16 then panic ''dirlookup read'' else
     bind (gets (\<lambda>s. get_dirent (local_bytes 0 16 s))) (\<lambda>de.
     if de_inum de = 0 \<or> namecmp name (de_name de) \<noteq> 0 then ret (off + 16, None)
     else
       bind (gets (\<lambda>s. i_dev (itable s dp))) (\<lambda>dev.
       bind (iget dev (ucast (de_inum de))) (\<lambda>ip.
       ret (off, Some ip))))))"

definition dirlookup :: "nat \<Rightarrow> uchar list \<Rightarrow> ('m imach_scheme, (nat \<times> uint) option) kern" where
  "dirlookup dp name =
     bind (gets (\<lambda>s. i_type (itable s dp))) (\<lambda>ty.
     if ty \<noteq> T_DIR then panic ''dirlookup not DIR'' else
     bind (whileM (\<lambda>(off, found) s. found = None \<and> off < i_size (itable s dp)) (dirlookup_step dp name) (0, None)) (\<lambda>(off, found).
     ret (map_option (\<lambda>ip. (ip, off)) found)))"

definition dirlink :: "nat \<Rightarrow> uchar list \<Rightarrow> uint \<Rightarrow> ('m imach_scheme, int) kern" where
  "dirlink dp name inum =
     bind (dirlookup dp name) (\<lambda>r.
     case r of
       Some (ip, _) \<Rightarrow> seq (iput ip) (ret (-1))
     | None \<Rightarrow>
         bind (whileM (\<lambda>(off, empty) s. \<not> empty \<and> off < i_size (itable s dp))
           (\<lambda>(off, empty).
              bind (readi dp (Local 0) off 16) (\<lambda>r.
              if r \<noteq> 16 then panic ''dirlink read'' else
              bind (gets (\<lambda>s. get_dirent (local_bytes 0 16 s))) (\<lambda>de.
              if de_inum de = 0 then ret (off, True) else ret (off + 16, False))))
           (0, False)) (\<lambda>(off, _).
         seq (set_local 0 (put_dirent \<lparr>de_inum = ucast inum, de_name = name_field name\<rparr>)) (
         bind (writei dp (Local 0) off 16) (\<lambda>r.
         ret (if r \<noteq> 16 then -1 else 0)))))"

text \<open>The rest of the path and the name of its first element.\<close>

definition skipelem :: "uchar list \<Rightarrow> (uchar list \<times> uchar list) option" where
  "skipelem path =
     (let path = dropWhile (\<lambda>c. c = 47) path in
      if path = [] then None else
      let elem = takeWhile (\<lambda>c. c \<noteq> 47) path;
          path = dropWhile (\<lambda>c. c \<noteq> 47) path
      in Some (dropWhile (\<lambda>c. c = 47) path, take DIRSIZ elem))"

text \<open>
  One round of the loop of \<open>namex\<close>: the inode, the rest of the path, the last name, and
  the result once the function has returned.
\<close>

type_synonym namestate = "nat \<times> uchar list \<times> uchar list \<times> nat option option"

definition namex_step :: "bool \<Rightarrow> namestate \<Rightarrow> ('m imach_scheme, namestate) kern" where
  "namex_step np = (\<lambda>(ip, path, name, out).
     case skipelem path of
       None \<Rightarrow> ret (ip, path, name, out)
     | Some (path, name) \<Rightarrow>
         seq (ilock (Some ip)) (
         bind (gets (\<lambda>s. i_type (itable s ip))) (\<lambda>ty.
         if ty \<noteq> T_DIR then seq (iunlockput ip) (ret (ip, path, name, Some None)) else
         if np \<and> path = [] then seq (iunlock (Some ip)) (ret (ip, path, name, Some (Some ip))) else
         bind (dirlookup ip name) (\<lambda>r.
         case r of
           None \<Rightarrow> seq (iunlockput ip) (ret (ip, path, name, Some None))
         | Some (nxt, _) \<Rightarrow> seq (iunlockput ip) (ret (nxt, path, name, None))))))"

definition namex :: "uchar list \<Rightarrow> bool \<Rightarrow> ('m imach_scheme, nat option \<times> uchar list) kern" where
  "namex path np =
     bind (if path \<noteq> [] \<and> hd path = 47 then iget ROOTDEV ROOTINO
           else bind curproc (\<lambda>p.
                bind (gets (\<lambda>s. cwd (procs s p))) (\<lambda>c.
                case c of None \<Rightarrow> panic ''null pointer'' | Some ip \<Rightarrow> idup ip))) (\<lambda>ip.
     bind (whileM (\<lambda>(ip, path, name, out) _. out = None \<and> skipelem path \<noteq> None) (namex_step np) (ip, path, [], None))
       (\<lambda>(ip, path, name, out).
     case out of
       Some r \<Rightarrow> ret (r, name)
     | None \<Rightarrow> if np then seq (iput ip) (ret (None, name)) else ret (Some ip, name)))"

definition namei :: "uchar list \<Rightarrow> ('m imach_scheme, nat option) kern" where
  "namei path = bind (namex path False) (\<lambda>(ip, _). ret ip)"

definition nameiparent :: "uchar list \<Rightarrow> ('m imach_scheme, nat option \<times> uchar list) kern" where
  "nameiparent path = namex path True"

section \<open>Names\<close>

text \<open>The name in an array of 14 bytes.\<close>

definition cname :: "uchar list \<Rightarrow> uchar list" where
  "cname s = takeWhile (\<lambda>c. c \<noteq> 0) (take DIRSIZ s)"

definition byte_at :: "uchar list \<Rightarrow> nat \<Rightarrow> uchar" where
  "byte_at s i = (if i < length s then s ! i else 0)"

lemma two_strings_at:
  "i < 0x10000 \<Longrightarrow> two_strings s t (of_nat i) = byte_at s i"
  "i < 0x10000 \<Longrightarrow> two_strings s t (0x10000 + of_nat i) = byte_at t i"
proof -
  assume i: "i < 0x10000"
  have "unat (of_nat i :: uint64) = i" using i by (simp add: unat_of_nat)
  moreover have "unat (0x10000 + of_nat i :: uint64) = 0x10000 + i" using i by (subst unat_plus_if') (simp add: unat_of_nat)
  ultimately show "two_strings s t (of_nat i) = byte_at s i" "two_strings s t (0x10000 + of_nat i) = byte_at t i"
    using i by (simp_all add: two_strings_def byte_at_def)
qed

lemma name_step:
  "takeWhile (\<lambda>c. c \<noteq> 0) (take (Suc k) (drop i s)) =
    (if byte_at s i = 0 then [] else byte_at s i # takeWhile (\<lambda>c. c \<noteq> 0) (take k (drop (Suc i) s)))"
  by (cases "i < length s") (auto simp: byte_at_def Cons_nth_drop_Suc [symmetric])

lemma namecmp_loop:
  assumes "i + k \<le> DIRSIZ"
  shows "strncmp_loop k (two_strings s t) (of_nat i) (0x10000 + of_nat i) = 0 \<longleftrightarrow>
    takeWhile (\<lambda>c. c \<noteq> 0) (take k (drop i s)) = takeWhile (\<lambda>c. c \<noteq> 0) (take k (drop i t))"
  using assms
proof (induction k arbitrary: i)
  case (Suc k)
  have i: "i < 0x10000" using Suc.prems by (simp add: DIRSIZ_def)
  have nxt: "of_nat i + 1 = (of_nat (Suc i) :: uint64)" "0x10000 + of_nat i + 1 = (0x10000 + of_nat (Suc i) :: uint64)" by simp_all
  have "strncmp_loop (Suc k) (two_strings s t) (of_nat i) (0x10000 + of_nat i) = 
      (if byte_at s i \<noteq> 0 \<and> byte_at s i = byte_at t i
       then strncmp_loop k (two_strings s t) (of_nat (Suc i)) (0x10000 + of_nat (Suc i)) else uint (byte_at s i) - uint (byte_at t i))"
    unfolding strncmp_loop.simps two_strings_at [OF i] nxt ..
  moreover have "uint a - uint b = 0 \<longleftrightarrow> a = b" for a b :: uchar by (simp add: word_uint_eq_iff)
  ultimately show ?case
    using Suc.IH [of "Suc i"] Suc.prems by (auto simp: name_step uint_0_iff simp del: strncmp_loop.simps of_nat_Suc)
qed simp

text \<open>The bytes that \<open>strncpy\<close> writes: the string, filled up with null bytes.\<close>

definition padded :: "nat \<Rightarrow> uchar list \<Rightarrow> uchar list" where
  "padded k bs = takeWhile (\<lambda>c. c \<noteq> 0) bs @ replicate (k - length (takeWhile (\<lambda>c. c \<noteq> 0) bs)) 0"

lemma read_bytes_Suc: "read_bytes m a (Suc k) = m a # read_bytes m (a + 1) k"
  unfolding read_bytes_def upt_conv_Cons [OF zero_less_Suc] map_upt_Suc by (simp add: map_Suc_upt [symmetric] add_ac del: upt_Suc)

lemma strncpy_loop_frame: "k \<le> 2 ^ 64 \<Longrightarrow> \<not> within s k x \<Longrightarrow> strncpy_loop k m s t x = m x"
proof (induction k arbitrary: m s t)
  case (Suc k)
  have "x \<noteq> s" using Suc.prems(2) by auto
  moreover have "\<not> within (s + 1) k x" using Suc.prems(2) within_Suc [of x s k] calculation by simp
  ultimately have "x \<noteq> s" "\<not> within (s + 1) k x" by simp_all
  then show ?case using Suc by (simp add: Let_def memset_loop_eq)
qed simp

lemma strncpy_loop_bytes:
  assumes "k < 2 ^ 64" "\<forall>i < k. \<not> within s k (t + of_nat i)"
  shows "read_bytes (strncpy_loop k m s t) s k = padded k (read_bytes m t k)"
  using assms
proof (induction k arbitrary: m s t)
  case 0
  then show ?case by (simp add: read_bytes_def padded_def)
next
  case (Suc k)
  let ?m = "m(s := m t)"
  have s: "\<not> within (s + 1) k s" using Suc.prems(1) by (intro not_within_next) simp
  have apart: "t + of_nat i \<noteq> s \<and> \<not> within (s + 1) k (t + of_nat i)" if "i < Suc k" for i
    using Suc.prems(2) that within_Suc [of "t + of_nat i" s k] within_self by metis
  have src: "read_bytes ?m (t + 1) k = read_bytes m (t + 1) k"
    using apart [of "Suc _"] by (auto simp: read_bytes_def algebra_simps)
  show ?case
  proof (cases "m t = 0")
    case True
    then have "read_bytes (memset_loop k ?m (s + 1) 0) (s + 1) k = replicate k 0"
      using Suc.prems(1) by (intro nth_equalityI) (auto simp: read_bytes_def memset_loop_eq within_off)
    then show ?thesis
      using True s Suc.prems(1) by (simp add: read_bytes_Suc padded_def memset_loop_eq)
  next
    case False
    have "\<forall>i < k. \<not> within (s + 1) k (t + 1 + of_nat i)" using apart [of "Suc _"] by (auto simp: algebra_simps)
    then have "read_bytes (strncpy_loop k ?m (s + 1) (t + 1)) (s + 1) k = padded k (read_bytes m (t + 1) k)"
      using Suc.IH [of "s + 1" "t + 1" ?m] Suc.prems(1) unfolding src by (simp del: fun_upd_apply)
    then show ?thesis
      using False s Suc.prems(1) by (simp add: read_bytes_Suc padded_def strncpy_loop_frame)
  qed
qed

lemma name_field_padded: "name_field name = padded DIRSIZ (take DIRSIZ name)"
proof -
  let ?bs = "read_bytes (two_strings [] name) 0x10000 DIRSIZ"
  have "\<not> within 0 DIRSIZ (0x10000 + of_nat i :: uint64)" if "i < DIRSIZ" for i
    using that by (simp add: within_def DIRSIZ_def) (subst unat_plus_if', simp add: unat_of_nat)
  then have "name_field name = padded DIRSIZ ?bs"
    unfolding name_field_def strncpy_def by (simp add: strncpy_loop_bytes DIRSIZ_def)
  moreover have "?bs = map (byte_at name) [0..<DIRSIZ]"
    by (simp add: read_bytes_def two_strings_at(2) DIRSIZ_def)
  moreover have "takeWhile (\<lambda>c. c \<noteq> 0) (map (byte_at name) [i..<i + k]) = takeWhile (\<lambda>c. c \<noteq> 0) (take k (drop i name))" for i k
  proof (induction k arbitrary: i)
    case (Suc k)
    have "[i..<i + Suc k] = i # [Suc i..<Suc i + k]" by (simp add: upt_rec)
    then show ?case using Suc.IH [of "Suc i"] by (simp add: name_step)
  qed simp
  from this [of 0 DIRSIZ] have "takeWhile (\<lambda>c. c \<noteq> 0) (map (byte_at name) [0..<DIRSIZ]) = takeWhile (\<lambda>c. c \<noteq> 0) (take DIRSIZ name)"
    by simp
  ultimately show ?thesis by (simp add: padded_def)
qed

lemma namecmp_iff: "namecmp s t = 0 \<longleftrightarrow> cname s = cname t"
  using namecmp_loop [of 0 DIRSIZ s t] by (simp add: namecmp_def strncmp_def cname_def DIRSIZ_def)

lemma length_name_field [simp]: "length (name_field name) = DIRSIZ"
  by (simp add: name_field_def read_bytes_def)

lemma cname_name_field: "cname (name_field name) = cname name"
proof -
  let ?w = "takeWhile (\<lambda>c. c \<noteq> 0) (take DIRSIZ name)"
  have "takeWhile (\<lambda>c. c \<noteq> 0) (?w @ replicate n 0) = ?w" for n
    by (subst takeWhile_append2) (auto dest: set_takeWhileD)
  moreover have "take DIRSIZ (name_field name) = name_field name" by simp
  ultimately show ?thesis by (simp only: cname_def name_field_padded padded_def)
qed


section \<open>Paths\<close>

text \<open>The elements of a path: the stretches between slashes that are not empty.\<close>

fun split_path :: "uchar list \<Rightarrow> uchar list list" where
  "split_path [] = [[]]"
| "split_path (c # cs) =
     (if c = 47 then [] # split_path cs
      else (c # hd (split_path cs)) # tl (split_path cs))"

definition path_elems :: "uchar list \<Rightarrow> uchar list list" where
  "path_elems p = filter (\<lambda>x. x \<noteq> []) (split_path p)"

lemma split_path_ne [simp]: "split_path p \<noteq> []"
  by (induction p) auto

lemma path_elems_slash [simp]: "path_elems (47 # p) = path_elems p"
  by (simp add: path_elems_def)

lemma path_elems_Nil [simp]: "path_elems [] = []"
  by (simp add: path_elems_def)

lemma path_elems_drop: "path_elems (dropWhile (\<lambda>c. c = 47) p) = path_elems p"
  by (induction p) auto

lemma split_path_word:
  "split_path p = takeWhile (\<lambda>c. c \<noteq> 47) p #
     (case dropWhile (\<lambda>c. c \<noteq> 47) p of [] \<Rightarrow> [] | _ # q \<Rightarrow> split_path q)"
  by (induction p) (auto split: list.splits)

lemma path_elems_word:
  assumes "p \<noteq> []" "hd p \<noteq> 47"
  shows "path_elems p = takeWhile (\<lambda>c. c \<noteq> 47) p # path_elems (dropWhile (\<lambda>c. c \<noteq> 47) p)"
proof -
  have w: "takeWhile (\<lambda>c. c \<noteq> 47) p \<noteq> []" using assms by (cases p) auto
  show ?thesis
  proof (cases "dropWhile (\<lambda>c. c \<noteq> 47) p")
    case Nil
    show ?thesis
      unfolding Nil using w split_path_word [of p, unfolded Nil] by (simp add: path_elems_def)
  next
    case (Cons c q)
    then have "c = 47" using hd_dropWhile [of "\<lambda>c. c \<noteq> 47" p] by simp
    then show ?thesis using w split_path_word [of p] Cons by (simp add: path_elems_def)
  qed
qed

lemma path_elems_empty: "hd p \<noteq> 47 \<Longrightarrow> path_elems p = [] \<longleftrightarrow> p = []"
  using path_elems_word [of p] by (cases "p = []") simp_all

lemma skipelem_elems:
  "(case path_elems p of
      [] \<Rightarrow> skipelem p = None
    | e # es \<Rightarrow> \<exists>rest. skipelem p = Some (rest, take DIRSIZ e) \<and> path_elems rest = es \<and> (rest = [] \<longleftrightarrow> es = []))"
proof -
  define q where "q = dropWhile (\<lambda>c. c = 47) p"
  have q: "path_elems p = path_elems q" by (simp add: q_def path_elems_drop)
  show ?thesis
  proof (cases "q = []")
    case True
    then show ?thesis using q by (simp add: skipelem_def q_def [symmetric])
  next
    case False
    have hd: "hd q \<noteq> 47" using hd_dropWhile [of "\<lambda>c. c = 47" p] False by (simp add: q_def)
    let ?r = "dropWhile (\<lambda>c. c = 47) (dropWhile (\<lambda>c. c \<noteq> 47) q)"
    have r: "?r = [] \<longleftrightarrow> path_elems ?r = []"
    proof (cases "?r = []")
      case True
      then show ?thesis unfolding True by simp
    next
      case ne: False
      show ?thesis by (rule path_elems_empty [OF hd_dropWhile [OF ne], symmetric])
    qed
    have "skipelem p = Some (?r, take DIRSIZ (takeWhile (\<lambda>c. c \<noteq> 47) q))"
      unfolding skipelem_def q_def [symmetric] Let_def using False by (simp only: if_False)
    moreover have "path_elems p = takeWhile (\<lambda>c. c \<noteq> 47) q # path_elems ?r"
      unfolding q path_elems_word [OF False hd] path_elems_drop ..
    ultimately show ?thesis using r by (simp only: list.case) blast
  qed
qed

text \<open>
  C9: \<^verbatim>\<open>skipelem\<close> walks through the elements of a path, whatever slashes are before,
  between and behind them.  It fails exactly if there is none; otherwise it gives the
  first one, cut to 14 bytes, and a rest with the remaining elements, and the rest is
  the empty string exactly if none remains, which is the test of \<^verbatim>\<open>nameiparent\<close> for the
  last element.
\<close>

theorem skipelem_correct:
  "case path_elems path of
     [] \<Rightarrow> skipelem path = None
   | e # es \<Rightarrow> \<exists>rest. skipelem path = Some (rest, take DIRSIZ e) \<and> path_elems rest = es \<and> (rest = [] \<longleftrightarrow> es = [])"
  by (rule skipelem_elems)

end
