(* ===== verification/Pipe.thy ===== *)
theory Pipe
  imports Path
begin

text \<open>
  Pipes, \<^verbatim>\<open>kernel/pipe.c\<close>, with \<^verbatim>\<open>struct file\<close> of \<^verbatim>\<open>kernel/file.h\<close> and the state of the
  file table.  A pipe is named by the address of the page that holds it.
\<close>

section \<open>State\<close>

definition PIPESIZE :: nat where "PIPESIZE = 512"

record pipe =
  pi_data :: "nat \<Rightarrow> uchar"
  pi_nread :: uint
  pi_nwrite :: uint
  pi_readopen :: bool
  pi_writeopen :: bool

datatype file_type = FD_NONE | FD_PIPE | FD_INODE | FD_DEVICE

record kfile =
  f_type :: file_type
  f_ref :: int
  f_readable :: bool
  f_writable :: bool
  f_pipe :: uint64
  f_ip :: nat
  f_off :: uint
  f_major :: short

record fmach = imach +
  ftable :: "nat \<Rightarrow> kfile"
  pipes :: "uint64 \<Rightarrow> pipe"

definition set_pipe :: "uint64 \<Rightarrow> (pipe \<Rightarrow> pipe) \<Rightarrow> 'm fmach_scheme \<Rightarrow> 'm fmach_scheme" where
  "set_pipe pi f s = s\<lparr>pipes := (pipes s)(pi := f (pipes s pi))\<rparr>"

definition set_file :: "nat \<Rightarrow> (kfile \<Rightarrow> kfile) \<Rightarrow> 'm fmach_scheme \<Rightarrow> 'm fmach_scheme" where
  "set_file f g s = s\<lparr>ftable := (ftable s)(f := g (ftable s f))\<rparr>"

text \<open>The lock operations and the new fields do not interfere.\<close>

lemma fmach_sel [simp]:
  "ftable (acquired lk s) = ftable s"
  "ftable (touched s) = ftable s"
  "ftable (set_proc p g s) = ftable s"
  "ftable (set_sleeplock l h s) = ftable s"
  "pipes (acquired lk s) = pipes s"
  "pipes (touched s) = pipes s"
  "pipes (set_proc p g s) = pipes s"
  "pipes (set_sleeplock l h s) = pipes s"
  by (simp_all add: acquired_def pushed_def touched_def mach_upd_defs)

lemma fmach_upd [simp]:
  "ftable_update uftable (acquired lk s) = acquired lk (ftable_update uftable s)"
  "ftable_update uftable (touched s) = touched (ftable_update uftable s)"
  "pipes_update upipes (acquired lk s) = acquired lk (pipes_update upipes s)"
  "pipes_update upipes (touched s) = touched (pipes_update upipes s)"
  by (simp_all add: acquired_def pushed_def touched_def mach_upd_defs intr_get_def)

lemma fmach_ok [simp]:
  "cpu_ok (ftable_update uftable s) = cpu_ok s"
  "lock_free lk (ftable_update uftable s) = lock_free lk s"
  "mycpu (ftable_update uftable s) = mycpu s"
  "intr_get (ftable_update uftable s) = intr_get s"
  "holding lk (ftable_update uftable s) = holding lk s"
  "proc_locks_free (ftable_update uftable s) = proc_locks_free s"
  "running p (ftable_update uftable s) = running p s"
  "cpu_ok (pipes_update upipes s) = cpu_ok s"
  "lock_free lk (pipes_update upipes s) = lock_free lk s"
  "mycpu (pipes_update upipes s) = mycpu s"
  "intr_get (pipes_update upipes s) = intr_get s"
  "holding lk (pipes_update upipes s) = holding lk s"
  "proc_locks_free (pipes_update upipes s) = proc_locks_free s"
  "running p (pipes_update upipes s) = running p s"
  by (simp_all add: cpu_ok_def lock_free_def mach_upd_defs intr_get_def holding_def proc_locks_free_def running_def)

section \<open>The code\<close>

definition pipeclose :: "uint64 \<Rightarrow> bool \<Rightarrow> ('m fmach_scheme, unit) kern" where
  "pipeclose pi wr =
     seq (acquire (L_pipe pi)) (
     seq (if wr then
            seq (modify (set_pipe pi (\<lambda>q. q\<lparr>pi_writeopen := False\<rparr>))) (
            wakeup (Ch_pipe_nread pi))
          else
            seq (modify (set_pipe pi (\<lambda>q. q\<lparr>pi_readopen := False\<rparr>))) (
            wakeup (Ch_pipe_nwrite pi))) (
     bind (gets (\<lambda>s. pipes s pi)) (\<lambda>q.
     if \<not> pi_readopen q \<and> \<not> pi_writeopen q then
       seq (release (L_pipe pi)) (
       kfree pi)
     else release (L_pipe pi))))"

text \<open>The two moves of the ring of bytes.\<close>

definition pipe_put :: "uchar \<Rightarrow> pipe \<Rightarrow> pipe" where
  "pipe_put ch q = q\<lparr>pi_data := (pi_data q)(unat (pi_nwrite q) mod PIPESIZE := ch), pi_nwrite := pi_nwrite q + 1\<rparr>"

definition pipe_get :: "pipe \<Rightarrow> uchar \<times> pipe" where
  "pipe_get q = (pi_data q (unat (pi_nread q) mod PIPESIZE), q\<lparr>pi_nread := pi_nread q + 1\<rparr>)"

text \<open>One round of the loop of \<open>pipewrite\<close>, and of the loop of \<open>piperead\<close> that copies.\<close>

definition pipewrite_step :: "uint64 \<Rightarrow> nat \<Rightarrow> uint64 \<Rightarrow> int \<times> read_exit \<Rightarrow> ('m fmach_scheme, int \<times> read_exit) kern" where
  "pipewrite_step pi pr addr = (\<lambda>(i, x).
     bind (gets (\<lambda>s. pipes s pi)) (\<lambda>q.
     bind (if \<not> pi_readopen q then ret True else killed pr) (\<lambda>stop.
     if stop then seq (release (L_pipe pi)) (ret (i, Returned)) else
     if pi_nwrite q = pi_nread q + of_nat PIPESIZE then
       seq (wakeup (Ch_pipe_nread pi)) (
       seq (sleep (Ch_pipe_nwrite pi) (L_pipe pi)) (
       ret (i, Looping)))
     else
       bind (gets (\<lambda>s. pagetable (procs s pr))) (\<lambda>pt.
       bind (copyin pt (addr + word_of_int i) 1) (\<lambda>(r, ch).
       if r = -1 then ret (i, Broken) else
       seq (modify (set_pipe pi (pipe_put (hd ch)))) (
       ret (i + 1, Looping)))))))"

definition pipewrite :: "uint64 \<Rightarrow> uint64 \<Rightarrow> int \<Rightarrow> ('m fmach_scheme, int) kern" where
  "pipewrite pi addr n =
     bind curproc (\<lambda>pr.
     seq (acquire (L_pipe pi)) (
     bind (whileM (\<lambda>(i, x) _. x = Looping \<and> i < n) (pipewrite_step pi pr addr) (0, Looping)) (\<lambda>(i, x).
     if x = Returned then ret (-1) else
     seq (wakeup (Ch_pipe_nread pi)) (
     seq (release (L_pipe pi)) (
     ret i)))))"

definition piperead_step :: "uint64 \<Rightarrow> nat \<Rightarrow> uint64 \<Rightarrow> int \<times> bool \<Rightarrow> ('m fmach_scheme, int \<times> bool) kern" where
  "piperead_step pi pr addr = (\<lambda>(i, stop).
     bind (gets (\<lambda>s. pipes s pi)) (\<lambda>q.
     if pi_nread q = pi_nwrite q then ret (i, True) else
     let (ch, q') = pipe_get q in
     seq (modify (set_pipe pi (\<lambda>_. q'))) (
     bind (gets (\<lambda>s. pagetable (procs s pr))) (\<lambda>pt.
     bind (copyout pt (addr + word_of_int i) [ch]) (\<lambda>r.
     if r = -1 then ret (i, True) else ret (i + 1, False))))))"

definition piperead :: "uint64 \<Rightarrow> uint64 \<Rightarrow> int \<Rightarrow> ('m fmach_scheme, int) kern" where
  "piperead pi addr n =
     bind curproc (\<lambda>pr.
     seq (acquire (L_pipe pi)) (
     bind (whileM (\<lambda>gone s. \<not> gone \<and> pi_nread (pipes s pi) = pi_nwrite (pipes s pi) \<and> pi_writeopen (pipes s pi))
       (\<lambda>_. bind (killed pr) (\<lambda>k.
          if k then seq (release (L_pipe pi)) (ret True) else
          seq (sleep (Ch_pipe_nread pi) (L_pipe pi)) (
          ret False))) False) (\<lambda>gone.
     if gone then ret (-1) else
     bind (whileM (\<lambda>(i, stop) _. \<not> stop \<and> i < n) (piperead_step pi pr addr) (0, False)) (\<lambda>(i, _).
     seq (wakeup (Ch_pipe_nwrite pi)) (
     seq (release (L_pipe pi)) (
     ret i)))))) "

section \<open>The ring of a pipe as a queue\<close>

definition pipe_contents :: "pipe \<Rightarrow> uchar list" where
  "pipe_contents q = ring PIPESIZE (pi_data q) (pi_nread q) (pi_nwrite q)"

lemma pipe_put_law: "length (pipe_contents q) < PIPESIZE \<Longrightarrow> pipe_contents (pipe_put c q) = pipe_contents q @ [c]"
  using ring_push [of PIPESIZE "pi_nwrite q" "pi_nread q" "pi_data q" c]
  by (simp add: pipe_contents_def pipe_put_def PIPESIZE_def)

lemma pipe_get_law: "pipe_contents q \<noteq> [] \<Longrightarrow> pipe_contents q = fst (pipe_get q) # pipe_contents (snd (pipe_get q))"
  by (simp add: pipe_contents_def pipe_get_def ring_pop)

interpretation pipefifo: fifo pipe_contents pipe_put pipe_get PIPESIZE
  by unfold_locales (rule pipe_put_law, assumption, rule pipe_get_law)

lemma pipe_empty: "pi_nread q = pi_nwrite q \<longleftrightarrow> pipe_contents q = []"
  unfolding pipe_contents_def by (metis ring_eq_Nil)

lemma pipe_full: "length (pipe_contents q) < PIPESIZE \<Longrightarrow> pi_nwrite q \<noteq> pi_nread q + of_nat PIPESIZE"
  by (auto simp: pipe_contents_def PIPESIZE_def)

lemma pipe_put_ends [simp]:
  "pi_readopen (pipe_put c q) = pi_readopen q" "pi_writeopen (pipe_put c q) = pi_writeopen q"
  by (simp_all add: pipe_put_def)

section \<open>Writing\<close>

lemma pipewrite_byte:
  assumes "cpu_ok s" "lock_free (L_proc p) s" "maps s (pagetable (procs s p)) T ps f" "mapped_range f (va + of_nat i) 1"
    and "length (pipe_contents (pipes s pi)) < PIPESIZE" "pi_readopen (pipes s pi)" "\<not> pkilled (procs s p)"
  shows "pipewrite_step pi p va (int i, Looping) (acquired (L_pipe pi) s) e =
    Ok (int (Suc i), Looping) (acquired (L_pipe pi) (set_pipe pi (pipe_put (mem s (uaddr f (va + of_nat i)))) s)) e"
proof -
  have "lock_free L_kmem s" using assms(3) by (simp add: maps_def vm_ok_def)
  then have "maps (acquired (L_pipe pi) s) (pagetable (procs s p)) T ps f"
    using assms(1) by (intro maps_cong [OF assms(3)]) simp_all
  from copyin_run [OF this, of "va + of_nat i" 1 e] assms(4)
  have "copyin (pagetable (procs s p)) (va + of_nat i) 1 (acquired (L_pipe pi) s) e =
      Ok (0, [mem s (uaddr f (va + of_nat i))]) (acquired (L_pipe pi) s) e"
    by (auto simp: user_bytes_def)
  then show ?thesis
    using assms pipe_full [OF assms(5)] by (simp add: pipewrite_step_def set_pipe_def)
qed

lemma pipewrite_loop:
  assumes "cpu_ok s" "lock_free (L_proc p) s" "maps s (pagetable (procs s p)) T ps f" "mapped_range f (va + of_nat i) n"
    and "length (pipe_contents (pipes s pi)) + n \<le> PIPESIZE" "pi_readopen (pipes s pi)" "\<not> pkilled (procs s p)" "N = i + n"
  shows "whileM (\<lambda>(i, x) _. x = Looping \<and> i < int N) (pipewrite_step pi p va) (int i, Looping) (acquired (L_pipe pi) s) e =
    Ok (int N, Looping) (acquired (L_pipe pi) (set_pipe pi (fold pipe_put (user_bytes (mem s) f (va + of_nat i) n)) s)) e"
  using assms
proof (induction n arbitrary: s i)
  case 0
  then show ?case by (simp add: whileM_stop user_bytes_def set_pipe_def)
next
  case (Suc n)
  let ?c = "mem s (uaddr f (va + of_nat i))"
  let ?s = "set_pipe pi (pipe_put ?c) s"
  have m: "mapped_range f (va + of_nat i) 1" "mapped_range f (va + of_nat (Suc i)) n"
    using mapped_range_split [of 1 "Suc n" f "va + of_nat i"] Suc.prems(4) by (simp_all add: algebra_simps)
  have len: "length (pipe_contents (pipe_put ?c (pipes s pi))) = Suc (length (pipe_contents (pipes s pi)))"
    using pipe_put_law [of "pipes s pi" ?c] Suc.prems(5) by simp
  have maps: "maps ?s (pagetable (procs s p)) T ps f"
    using Suc.prems(1,3) by (intro maps_cong [OF Suc.prems(3)]) (simp_all add: set_pipe_def maps_def vm_ok_def)
  have rest: "whileM (\<lambda>(i, x) _. x = Looping \<and> i < int N) (pipewrite_step pi p va) (int (Suc i), Looping)
      (acquired (L_pipe pi) ?s) e =
    Ok (int N, Looping) (acquired (L_pipe pi) (set_pipe pi (fold pipe_put (user_bytes (mem s) f (va + of_nat (Suc i)) n)) ?s)) e"
    using Suc.IH [of ?s "Suc i"] Suc.prems m(2) len maps by (simp add: set_pipe_def)
  have bytes: "user_bytes (mem s) f (va + of_nat i) (Suc n) = ?c # user_bytes (mem s) f (va + of_nat (Suc i)) n"
    using user_bytes_split [of 1 "Suc n" "mem s" f "va + of_nat i"] by (simp add: user_bytes_def algebra_simps)
  have step: "pipewrite_step pi p va (int i, Looping) (acquired (L_pipe pi) s) e = Ok (int (Suc i), Looping) (acquired (L_pipe pi) ?s) e"
    using Suc.prems m(1) by (intro pipewrite_byte) simp_all
  have "set_pipe pi (fold pipe_put bs) ?s = set_pipe pi (fold pipe_put (?c # bs)) s" for bs
    by (simp add: set_pipe_def)
  then show ?case
    using rest step Suc.prems(8) unfolding bytes by (subst whileM_unfold) simp
qed

text \<open>
  C11: a writer with room in the pipe puts its bytes there, in order, behind those that
  are already in the pipe; it returns their number, has woken the readers, and has changed nothing else.
\<close>

theorem pipewrite_appends:
  assumes "running p s" "lock_free (L_pipe pi) s" "proc_locks_free s" "p < NPROC"
    and "maps s (pagetable (procs s p)) T ps f" "mapped_range f va n"
    and "length (pipe_contents (pipes s pi)) + n \<le> PIPESIZE" "pi_readopen (pipes s pi)" "\<not> pkilled (procs s p)"
  shows "\<exists>q. pipewrite pi va (int n) s e =
      Ok (int n) (touched (s\<lparr>pipes := (pipes s)(pi := q), procs := woken (Ch_pipe_nread pi) (Some p) (procs s)\<rparr>)) e \<and>
    pipe_contents q = pipe_contents (pipes s pi) @ user_bytes (mem s) f va n"
proof -
  let ?bs = "user_bytes (mem s) f va n"
  have ok: "cpu_ok s" "cpu_proc (mycpu s) = Some p" using assms(1) by (simp_all add: running_def)
  have loop: "whileM (\<lambda>(i, x) _. x = Looping \<and> i < int n) (pipewrite_step pi p va) (0, Looping) (acquired (L_pipe pi) s) e =
      Ok (int n, Looping) (acquired (L_pipe pi) (set_pipe pi (fold pipe_put ?bs) s)) e"
    using pipewrite_loop [of s p T ps f va 0 n pi n e] assms ok by simp
  have "pipe_contents (fold pipe_put ?bs (pipes s pi)) = pipe_contents (pipes s pi) @ ?bs"
    using assms(7) by (intro pipefifo.puts_law) (simp add: user_bytes_def)
  then show ?thesis
    using loop ok assms(2,3)
    by (intro exI [of _ "fold pipe_put ?bs (pipes s pi)"]) (simp add: pipewrite_def acquire_run wakeup_run set_pipe_def)
qed

section \<open>Reading\<close>

definition pipe_drop :: "nat \<Rightarrow> pipe \<Rightarrow> pipe" where
  "pipe_drop n q = q\<lparr>pi_nread := pi_nread q + of_nat n\<rparr>"

lemma pipe_drop_0 [simp]: "pipe_drop 0 q = q"
  by (simp add: pipe_drop_def)

lemma pipe_get_drop: "snd (pipe_get q) = pipe_drop 1 q"
  by (simp add: pipe_get_def pipe_drop_def)

lemma pipe_drop_add: "pipe_drop n (pipe_drop m q) = pipe_drop (m + n) q"
  by (simp add: pipe_drop_def algebra_simps)

lemma pipe_drop_contents: "n \<le> length (pipe_contents q) \<Longrightarrow> pipe_contents (pipe_drop n q) = drop n (pipe_contents q)"
proof (induction n arbitrary: q)
  case (Suc n)
  then have ne: "pipe_contents q \<noteq> []" by auto
  have "pipe_contents (pipe_drop n (pipe_drop 1 q)) = drop n (pipe_contents (pipe_drop 1 q))"
    using Suc pipe_get_law [OF ne] by (intro Suc.IH) (metis length_Cons Suc_le_mono pipe_get_drop)
  then show ?case
    using pipe_get_law [OF ne] by (metis drop_Suc_Cons pipe_get_drop pipe_drop_add plus_1_eq_Suc)
qed simp

lemma set_pipe_mem: "set_pipe pi g (s\<lparr>mem := m\<rparr>) = (set_pipe pi g s)\<lparr>mem := m\<rparr>"
  by (simp add: set_pipe_def)

lemma piperead_byte:
  assumes "cpu_ok s" "maps s (pagetable (procs s p)) T ps f" "user_range f (T \<union> set ps) (va + of_nat i) 1"
    and "pipe_contents (pipes s pi) = c # cs"
  shows "piperead_step pi p va (int i, False) (acquired (L_pipe pi) s) e =
    Ok (int (Suc i), False) (acquired (L_pipe pi) (set_pipe pi (pipe_drop 1) (s\<lparr>mem := (mem s)(uaddr f (va + of_nat i) := c)\<rparr>))) e"
proof -
  have g: "pipe_get (pipes s pi) = (c, pipe_drop 1 (pipes s pi))" "pi_nread (pipes s pi) \<noteq> pi_nwrite (pipes s pi)"
    using pipe_get_law [of "pipes s pi"] assms(4) pipe_empty [of "pipes s pi"] pipe_get_drop [of "pipes s pi"]
    by (simp_all add: prod_eq_iff)
  let ?s = "set_pipe pi (pipe_drop 1) s"
  have "lock_free L_kmem s" using assms(2) by (simp add: maps_def vm_ok_def)
  then have "maps (acquired (L_pipe pi) ?s) (pagetable (procs s p)) T ps f"
    using assms(1) by (intro maps_cong [OF assms(2)]) (simp_all add: set_pipe_def)
  from copyout_byte(1) [OF this assms(3), of c e] show ?thesis
    using g unfolding set_pipe_mem by (simp add: piperead_step_def set_pipe_def)
qed

lemma piperead_loop:
  assumes "cpu_ok s" "maps s (pagetable (procs s p)) T ps f" "N = i + n" "out = take n (pipe_contents (pipes s pi))"
    and "user_range f (T \<union> set ps) (va + of_nat i) (length out)"
  shows "\<exists>stop m. whileM (\<lambda>(i, stop) _. \<not> stop \<and> i < int N) (piperead_step pi p va) (int i, False) (acquired (L_pipe pi) s) e =
      Ok (int (i + length out), stop) (acquired (L_pipe pi) (set_pipe pi (pipe_drop (length out)) (s\<lparr>mem := m\<rparr>))) e \<and>
    user_bytes m f (va + of_nat i) (length out) = out \<and>
    (\<forall>a. (\<forall>j < length out. a \<noteq> uaddr f (va + of_nat i + of_nat j)) \<longrightarrow> m a = mem s a)"
  using assms
proof (induction n arbitrary: s i out)
  case 0
  then show ?case
    by (intro exI [of _ False] exI [of _ "mem s"]) (simp add: whileM_stop user_bytes_def set_pipe_def)
next
  case (Suc n)
  show ?case
  proof (cases "pipe_contents (pipes s pi)")
    case Nil
    then have "piperead_step pi p va (int i, False) (acquired (L_pipe pi) s) e = Ok (int i, True) (acquired (L_pipe pi) s) e"
      using pipe_empty [of "pipes s pi"] by (simp add: piperead_step_def)
    then show ?thesis
      using Suc.prems Nil by (intro exI [of _ True] exI [of _ "mem s"])
        (subst whileM_unfold, simp add: whileM_stop user_bytes_def set_pipe_def)
  next
    case (Cons c cs)
    define out' where "out' = take n cs"
    have out: "out = c # out'" using Suc.prems(4) Cons by (simp add: out'_def)
    have r: "user_range f (T \<union> set ps) (va + of_nat i) 1" "user_range f (T \<union> set ps) (va + of_nat i + 1) (length out')"
      "\<And>j. j < length out' \<Longrightarrow> uaddr f (va + of_nat i) \<noteq> uaddr f (va + of_nat i + 1 + of_nat j)"
      using user_range_split [OF Suc.prems(5), of 1] out by auto
    define m1 where "m1 = (mem s)(uaddr f (va + of_nat i) := c)"
    define t where "t = set_pipe pi (pipe_drop 1) (s\<lparr>mem := m1\<rparr>)"
    have step: "piperead_step pi p va (int i, False) (acquired (L_pipe pi) s) e = Ok (int (Suc i), False) (acquired (L_pipe pi) t) e"
      unfolding t_def m1_def using Suc.prems(1,2) r(1) Cons by (intro piperead_byte) simp_all
    have m1: "maps (s\<lparr>mem := m1\<rparr>) (pagetable (procs s p)) T ps f"
      unfolding m1_def using copyout_byte(2) [OF Suc.prems(2) r(1)] by simp
    have maps: "maps t (pagetable (procs t p)) T ps f"
      using Suc.prems(1) m1 maps_cong [OF m1, of t] by (simp add: t_def set_pipe_def maps_def vm_ok_def)
    have mt: "mem t = m1" by (simp add: t_def set_pipe_def)
    have nxt: "va + of_nat (Suc i) = va + of_nat i + 1" by (simp add: algebra_simps)
    have cs: "pipe_contents (pipes t pi) = cs" using Cons pipe_drop_contents [of 1 "pipes s pi"] by (simp add: t_def set_pipe_def)
    have t: "cpu_ok t" "N = Suc i + n" "out' = take n (pipe_contents (pipes t pi))"
      "user_range f (T \<union> set ps) (va + of_nat (Suc i)) (length out')"
      using Suc.prems(1,3) r(2) cs by (simp_all add: t_def set_pipe_def out'_def nxt del: of_nat_Suc)
    obtain stop m where IH: "whileM (\<lambda>(i, stop) _. \<not> stop \<and> i < int N) (piperead_step pi p va) (int (Suc i), False)
        (acquired (L_pipe pi) t) e =
        Ok (int (Suc i + length out'), stop) (acquired (L_pipe pi) (set_pipe pi (pipe_drop (length out')) (t\<lparr>mem := m\<rparr>))) e"
      "user_bytes m f (va + of_nat (Suc i)) (length out') = out'"
      "\<And>a. (\<forall>j < length out'. a \<noteq> uaddr f (va + of_nat (Suc i) + of_nat j)) \<Longrightarrow> m a = m1 a"
      using Suc.IH [OF t(1) maps t(2-4), unfolded mt] by blast
    have fin: "set_pipe pi (pipe_drop (length out')) (t\<lparr>mem := m\<rparr>) = set_pipe pi (pipe_drop (length out)) (s\<lparr>mem := m\<rparr>)"
      by (simp add: t_def set_pipe_def out pipe_drop_add)
    have "m (uaddr f (va + of_nat i)) = c"
      using IH(3) [of "uaddr f (va + of_nat i)"] r(3) unfolding nxt m1_def by simp
    then have bytes: "user_bytes m f (va + of_nat i) (length out) = out"
      using IH(2) user_bytes_split [of 1 "length out" m f "va + of_nat i"] unfolding nxt by (simp add: out user_bytes_def)
    have frame: "m a = mem s a" if o: "\<forall>j < length out. a \<noteq> uaddr f (va + of_nat i + of_nat j)" for a
    proof -
      have "a \<noteq> uaddr f (va + of_nat i)" using o [rule_format, of 0] out by simp
      moreover have "a \<noteq> uaddr f (va + of_nat (Suc i) + of_nat j)" if "j < length out'" for j
        using o [rule_format, of "Suc j"] that out by (simp add: algebra_simps)
      ultimately show ?thesis using IH(3) [of a] by (simp add: m1_def)
    qed
    have "int i < int N" "Suc i + length out' = i + length out" using Suc.prems(3) out by simp_all
    then have "whileM (\<lambda>(i, stop) _. \<not> stop \<and> i < int N) (piperead_step pi p va) (int i, False) (acquired (L_pipe pi) s) e =
        Ok (int (i + length out), stop) (acquired (L_pipe pi) (set_pipe pi (pipe_drop (length out)) (s\<lparr>mem := m\<rparr>))) e"
      using IH(1) step unfolding fin by (subst whileM_unfold) simp
    then show ?thesis using bytes frame by blast
  qed
qed

text \<open>
  C12: a reader of a pipe that has bytes, or whose write end is closed, gets the oldest
  bytes, at most as many as it asked for: they are in its memory, in order, the rest
  stays in the pipe, the writers are woken, and no other memory has changed.  With the
  write end closed and the pipe empty this is the end of file, 0.
\<close>

theorem piperead_delivers:
  assumes "running p s" "lock_free (L_pipe pi) s" "proc_locks_free s" "p < NPROC"
    and "maps s (pagetable (procs s p)) T ps f" "out = take (nat n) (pipe_contents (pipes s pi))"
    and "user_range f (T \<union> set ps) va (length out)" "pipe_contents (pipes s pi) \<noteq> [] \<or> \<not> pi_writeopen (pipes s pi)"
  shows "\<exists>q m. piperead pi va n s e = Ok (int (length out))
      (touched (s\<lparr>pipes := (pipes s)(pi := q), mem := m, procs := woken (Ch_pipe_nwrite pi) (Some p) (procs s)\<rparr>)) e \<and>
    pipe_contents (pipes s pi) = out @ pipe_contents q \<and> user_bytes m f va (length out) = out \<and>
    (\<forall>a. (\<forall>j < length out. a \<noteq> uaddr f (va + of_nat j)) \<longrightarrow> m a = mem s a)"
proof -
  have ok: "cpu_ok s" "cpu_proc (mycpu s) = Some p" using assms(1) by (simp_all add: running_def)
  have le: "(i < int (nat n)) = (i < n)" if "0 \<le> i" for i using that by linarith
  have "nat n = 0 + nat n" by simp
  obtain stop m where m: "whileM (\<lambda>(i, stop) _. \<not> stop \<and> i < int (nat n)) (piperead_step pi p va) (int 0, False)
      (acquired (L_pipe pi) s) e =
      Ok (int (0 + length out), stop) (acquired (L_pipe pi) (set_pipe pi (pipe_drop (length out)) (s\<lparr>mem := m\<rparr>))) e"
    "user_bytes m f va (length out) = out" "\<forall>a. (\<forall>j < length out. a \<noteq> uaddr f (va + of_nat j)) \<longrightarrow> m a = mem s a"
    using piperead_loop [OF ok(1) assms(5) \<open>nat n = 0 + nat n\<close> assms(6), of va e] assms(7) by auto
  have cond: "whileM (\<lambda>(i, stop) _. \<not> stop \<and> i < n) (piperead_step pi p va) (0, False) (acquired (L_pipe pi) s) e =
      Ok (int (length out), stop) (acquired (L_pipe pi) (set_pipe pi (pipe_drop (length out)) (s\<lparr>mem := m\<rparr>))) e"
  proof (cases "0 \<le> n")
    case True
    then show ?thesis using m(1) by simp
  next
    case False
    then show ?thesis using m(1) by (simp add: whileM_stop)
  qed
  have wait: "whileM (\<lambda>gone s. \<not> gone \<and> pi_nread (pipes s pi) = pi_nwrite (pipes s pi) \<and> pi_writeopen (pipes s pi)) c False
      (acquired (L_pipe pi) s) e = Ok False (acquired (L_pipe pi) s) e" for c
    using assms(8) pipe_empty [of "pipes s pi"] by (simp add: whileM_stop)
  have "out = take (length out) (pipe_contents (pipes s pi))" "length out \<le> length (pipe_contents (pipes s pi))"
    unfolding assms(6) by (simp_all add: min_def)
  then have "pipe_contents (pipes s pi) = out @ pipe_contents (pipe_drop (length out) (pipes s pi))"
    by (metis append_take_drop_id pipe_drop_contents)
  then show ?thesis
    using m(2,3) ok assms(2,3) cond wait unfolding set_pipe_mem
    by (intro exI [of _ "pipe_drop (length out) (pipes s pi)"] exI [of _ m])
      (simp add: piperead_def acquire_run wakeup_run set_pipe_def bind_run)
qed

section \<open>An example state\<close>

definition fboot :: fmach where
  "fboot = imach.extend (lmach.extend lboot
       (imach.fields \<lparr>sb_magic = FSMAGIC, sb_size = 1000, sb_nblocks = 954, sb_ninodes = 200, sb_nlog = 30, sb_logstart = 2,
          sb_inodestart = 32, sb_bmapstart = 45\<rparr>
         (\<lambda>_. \<lparr>i_dev = 0, i_inum = 0, i_ref = 0, i_valid = False, i_type = 0, i_major = 0, i_minor = 0, i_nlink = 0, i_size = 0,
            i_addrs = (\<lambda>_. 0)\<rparr>)))
     (fmach.fields (\<lambda>_. \<lparr>f_type = FD_NONE, f_ref = 0, f_readable = False, f_writable = False, f_pipe = 0, f_ip = 0, f_off = 0, f_major = 0\<rparr>)
       (\<lambda>_. \<lparr>pi_data = (\<lambda>_. 0)(511 := 7, 0 := 8, 1 := 9), pi_nread = 0xffffffff, pi_nwrite = 2, pi_readopen = True, pi_writeopen = True\<rparr>))"

lemmas fboot_defs = fboot_def lboot_def bboot_def cboot_def uboot_def boot_defs umach.defs cmach.defs bmach.defs lmach.defs imach.defs
  fmach.defs

lemma fboot_calm: "calm 0 fboot"
proof -
  have "calm 0 fboot = calm 0 lboot" by (rule calm_cong) (simp add: fboot_def lmach.defs imach.defs mach.truncate_def)
  then show ?thesis using lboot_simps(1) by simp
qed

lemma fboot_simps:
  "procs fboot 0 = zero_proc\<lparr>pagetable := 0x80021000, pstate := RUNNING, pid := 1\<rparr>" "mem fboot = ue_mem"
  by (simp_all add: fboot_defs)

lemma fboot_maps: "maps fboot 0x80021000 {0x80021000, 0x80022000, 0x80023000} [] (pte ue_mem 2 0x80021000)"
proof -
  have "kend fboot = kend cboot" "freelist fboot = freelist cboot" "mem fboot = mem cboot"
    by (simp_all add: fboot_defs)
  then show ?thesis using calmD [OF fboot_calm] by (intro maps_cong [OF cboot_maps])
qed

lemma fboot_pipe:
  "pipe_contents (pipes fboot 0x80025000) = [7, 8, 9]" "pi_readopen (pipes fboot 0x80025000)" "pi_writeopen (pipes fboot 0x80025000)"
  by (simp_all add: fboot_defs pipe_contents_def ring_def PIPESIZE_def upt_rec)

theorem pipewrite_appends_witness:
  "\<exists>t. pipewrite 0x80025000 0x1003 3 fboot [] = Ok 3 t [] \<and> length (pipe_contents (pipes t 0x80025000)) = 6"
proof -
  have "mapped_range (pte ue_mem 2 0x80021000) 0x1003 3" using ue_range by (simp add: user_range_def)
  then show ?thesis
    using pipewrite_appends [of 0 fboot "0x80025000" "{0x80021000, 0x80022000, 0x80023000}" "[]" "pte ue_mem 2 0x80021000" "0x1003" 3 "[]"] fboot_maps fboot_pipe calmD [OF fboot_calm]
    by (auto simp: fboot_simps zero_proc_def PIPESIZE_def user_bytes_def)
qed

theorem piperead_delivers_witness:
  "\<exists>t. piperead 0x80025000 0x1003 20 fboot [] = Ok 3 t [] \<and> user_bytes (mem t) (pte ue_mem 2 0x80021000) 0x1003 3 = [7, 8, 9]"
proof -
  have out: "[7, 8, 9] = take (nat 20) (pipe_contents (pipes fboot 0x80025000))" and len: "length [7, 8, 9 :: uchar] = 3"
    by (simp_all add: fboot_pipe)
  obtain q m where "piperead 0x80025000 0x1003 20 fboot [] = Ok (int 3)
      (touched (fboot\<lparr>pipes := (pipes fboot)(0x80025000 := q), mem := m, procs := woken (Ch_pipe_nwrite 0x80025000) (Some 0) (procs fboot)\<rparr>)) []"
    "user_bytes m (pte ue_mem 2 0x80021000) 0x1003 3 = [7, 8, 9]"
    using piperead_delivers [of 0 fboot "0x80025000" "{0x80021000, 0x80022000, 0x80023000}" "[]" "pte ue_mem 2 0x80021000",
        OF _ _ _ _ _ out, unfolded len, of "0x1003" "[]"] fboot_maps fboot_pipe calmD [OF fboot_calm] ue_range
    by (simp add: fboot_simps) blast
  then show ?thesis by simp
qed

end
