(* ===== verification/File.thy ===== *)
theory File
  imports Pipe
begin

text \<open>
  Open files, \<^verbatim>\<open>kernel/file.c\<close>, and \<open>pipealloc\<close> of \<^verbatim>\<open>kernel/pipe.c\<close>.
  \<open>devsw\<close> of the model says which functions are installed for a device; the console is
  the only device that installs any.
\<close>

definition fileinit :: "('m fmach_scheme, unit) kern" where
  "fileinit = initlock L_ftable ''ftable''"

definition filealloc :: "('m fmach_scheme, nat option) kern" where
  "filealloc =
     seq (acquire L_ftable) (
     bind (for_ret [0..<NFILE] (\<lambda>f.
       bind (gets (\<lambda>s. f_ref (ftable s f))) (\<lambda>r.
       if r = 0 then
         seq (modify (set_file f (\<lambda>x. x\<lparr>f_ref := 1\<rparr>))) (
         seq (release L_ftable) (
         ret (Some f)))
       else ret None))) (\<lambda>r.
     case r of
       Some f \<Rightarrow> ret (Some f)
     | None \<Rightarrow> seq (release L_ftable) (ret None)))"

definition filedup :: "nat \<Rightarrow> ('m fmach_scheme, nat) kern" where
  "filedup f =
     seq (acquire L_ftable) (
     bind (gets (\<lambda>s. f_ref (ftable s f))) (\<lambda>r.
     if r < 1 then panic ''filedup'' else
     seq (modify (set_file f (\<lambda>x. x\<lparr>f_ref := f_ref x + 1\<rparr>))) (
     seq (release L_ftable) (
     ret f))))"

definition fileclose :: "nat \<Rightarrow> ('m fmach_scheme, unit) kern" where
  "fileclose f =
     seq (acquire L_ftable) (
     bind (gets (\<lambda>s. f_ref (ftable s f))) (\<lambda>r.
     if r < 1 then panic ''fileclose'' else
     seq (modify (set_file f (\<lambda>x. x\<lparr>f_ref := f_ref x - 1\<rparr>))) (
     if r - 1 > 0 then release L_ftable else
     bind (gets (\<lambda>s. ftable s f)) (\<lambda>ff.
     seq (modify (set_file f (\<lambda>x. x\<lparr>f_ref := 0, f_type := FD_NONE\<rparr>))) (
     seq (release L_ftable) (
     case f_type ff of
       FD_PIPE \<Rightarrow> pipeclose (f_pipe ff) (f_writable ff)
     | FD_INODE \<Rightarrow> seq begin_op (seq (iput (f_ip ff)) end_op)
     | FD_DEVICE \<Rightarrow> seq begin_op (seq (iput (f_ip ff)) end_op)
     | FD_NONE \<Rightarrow> ret ()))))))"

text \<open>The bytes of \<^verbatim>\<open>struct stat\<close>; four bytes of padding come before the size.\<close>

definition stat_bytes :: "fstat \<Rightarrow> uchar list \<Rightarrow> uchar list" where
  "stat_bytes st pad = le_bytes 4 (st_dev st) @ le_bytes 4 (st_ino st) @ le_bytes 2 (st_type st) @ le_bytes 2 (st_nlink st)
     @ pad @ le_bytes 8 (st_size st)"

definition filestat :: "nat \<Rightarrow> uint64 \<Rightarrow> ('m fmach_scheme, int) kern" where
  "filestat f addr =
     bind curproc (\<lambda>p.
     bind (gets (\<lambda>s. ftable s f)) (\<lambda>ff.
     if f_type ff = FD_INODE \<or> f_type ff = FD_DEVICE then
       seq (ilock (Some (f_ip ff))) (
       bind (stati (f_ip ff)) (\<lambda>st.
       seq (iunlock (Some (f_ip ff))) (
       bind (gets (\<lambda>s. (pagetable (procs s p), local_bytes 12 4 s))) (\<lambda>(pt, pad).
       bind (copyout pt addr (stat_bytes st pad)) (\<lambda>r.
       ret (if r < 0 then -1 else 0))))))
     else ret (-1)))"

primrec call_dev :: "devfn \<Rightarrow> uint64 \<Rightarrow> int \<Rightarrow> ('m fmach_scheme, int) kern" where
  "call_dev Fn_consoleread addr n = consoleread (User addr) n"
| "call_dev Fn_consolewrite addr n = consolewrite (User addr) n"

definition fileread :: "nat \<Rightarrow> uint64 \<Rightarrow> int \<Rightarrow> ('m fmach_scheme, int) kern" where
  "fileread f addr n =
     bind (gets (\<lambda>s. ftable s f)) (\<lambda>ff.
     if \<not> f_readable ff then ret (-1) else
     case f_type ff of
       FD_PIPE \<Rightarrow> piperead (f_pipe ff) addr n
     | FD_DEVICE \<Rightarrow>
         let major = sint (f_major ff) in
         bind (gets devsw) (\<lambda>sw.
         if major < 0 \<or> major \<ge> int NDEV then ret (-1) else
         case dev_read (sw (nat major)) of
           None \<Rightarrow> ret (-1)
         | Some fn \<Rightarrow> call_dev fn addr n)
     | FD_INODE \<Rightarrow>
         seq (ilock (Some (f_ip ff))) (
         bind (gets (\<lambda>s. f_off (ftable s f))) (\<lambda>off.
         bind (readi (f_ip ff) (User addr) off (word_of_int n)) (\<lambda>r.
         seq (whenM (r > 0) (modify (set_file f (\<lambda>x. x\<lparr>f_off := f_off x + word_of_int r\<rparr>)))) (
         seq (iunlock (Some (f_ip ff))) (
         ret r)))))
     | FD_NONE \<Rightarrow> panic ''fileread'')"

text \<open>One round of the loop of \<open>filewrite\<close> over the pieces of a file.\<close>

definition filewrite_max :: int where
  "filewrite_max = (int MAXOPBLOCKS - 1 - 1 - 2) div 2 * int BSIZE"

definition filewrite_step :: "nat \<Rightarrow> nat \<Rightarrow> uint64 \<Rightarrow> int \<Rightarrow> int \<times> bool \<Rightarrow> ('m fmach_scheme, int \<times> bool) kern" where
  "filewrite_step f ip addr n = (\<lambda>(i, stop).
     let n1 = min (n - i) filewrite_max in
     seq begin_op (
     seq (ilock (Some ip)) (
     bind (gets (\<lambda>s. f_off (ftable s f))) (\<lambda>off.
     bind (writei ip (User (addr + word_of_int i)) off (word_of_int n1)) (\<lambda>r.
     seq (whenM (r > 0) (modify (set_file f (\<lambda>x. x\<lparr>f_off := f_off x + word_of_int r\<rparr>)))) (
     seq (iunlock (Some ip)) (
     seq end_op (
     ret (if r \<noteq> n1 then (i, True) else (i + r, False))))))))))"

definition filewrite :: "nat \<Rightarrow> uint64 \<Rightarrow> int \<Rightarrow> ('m fmach_scheme, int) kern" where
  "filewrite f addr n =
     bind (gets (\<lambda>s. ftable s f)) (\<lambda>ff.
     if \<not> f_writable ff then ret (-1) else
     case f_type ff of
       FD_PIPE \<Rightarrow> pipewrite (f_pipe ff) addr n
     | FD_DEVICE \<Rightarrow>
         let major = sint (f_major ff) in
         bind (gets devsw) (\<lambda>sw.
         if major < 0 \<or> major \<ge> int NDEV then ret (-1) else
         case dev_write (sw (nat major)) of
           None \<Rightarrow> ret (-1)
         | Some fn \<Rightarrow> call_dev fn addr n)
     | FD_INODE \<Rightarrow>
         bind (whileM (\<lambda>(i, stop) _. \<not> stop \<and> i < n) (filewrite_step f (f_ip ff) addr n) (0, False)) (\<lambda>(i, _).
         ret (if i = n then n else -1))
     | FD_NONE \<Rightarrow> panic ''filewrite'')"

text \<open>The label \<^verbatim>\<open>bad\<close> of \<open>pipealloc\<close>.\<close>

definition pipealloc_bad :: "nat option \<Rightarrow> nat option \<Rightarrow> ('m fmach_scheme, (nat \<times> nat) option) kern" where
  "pipealloc_bad f0 f1 =
     seq (case f0 of None \<Rightarrow> ret () | Some f \<Rightarrow> fileclose f) (
     seq (case f1 of None \<Rightarrow> ret () | Some f \<Rightarrow> fileclose f) (
     ret None))"

definition pipealloc :: "('m fmach_scheme, (nat \<times> nat) option) kern" where
  "pipealloc =
     bind filealloc (\<lambda>f0.
     case f0 of None \<Rightarrow> pipealloc_bad None None | Some rd \<Rightarrow>
     bind filealloc (\<lambda>f1.
     case f1 of None \<Rightarrow> pipealloc_bad f0 None | Some wr \<Rightarrow>
     bind kalloc (\<lambda>pi.
     if pi = 0 then pipealloc_bad f0 f1 else
     seq (modify (set_pipe pi (\<lambda>q. q\<lparr>pi_readopen := True, pi_writeopen := True, pi_nwrite := 0, pi_nread := 0\<rparr>))) (
     seq (initlock (L_pipe pi) ''pipe'') (
     seq (modify (set_file rd (\<lambda>x. x\<lparr>f_type := FD_PIPE, f_readable := True, f_writable := False, f_pipe := pi\<rparr>))) (
     seq (modify (set_file wr (\<lambda>x. x\<lparr>f_type := FD_PIPE, f_readable := False, f_writable := True, f_pipe := pi\<rparr>))) (
     ret (Some (rd, wr)))))))))"

end
