(* ===== verification/Proc.thy ===== *)
theory Proc
  imports File
begin

text \<open>
  The life of a process: the rest of \<^verbatim>\<open>kernel/proc.c\<close>.  The trap frame of a process is in
  the page its \<^verbatim>\<open>trapframe\<close> points to.
\<close>

section \<open>State\<close>

text \<open>Functions whose address the kernel uses as a number.\<close>

datatype kfun = K_forkret | K_usertrap | K_kernelvec | K_uservec | K_userret | K_main | K_timervec

record pmach = fmach +
  kaddr :: "kfun \<Rightarrow> uint64"
  ticks :: uint
  forkret_first :: bool

datatype trapframe_field =
    Tf_kernel_satp | Tf_kernel_sp | Tf_kernel_trap | Tf_epc | Tf_kernel_hartid
  | Tf_ra | Tf_sp | Tf_gp | Tf_tp | Tf_t0 | Tf_t1 | Tf_t2 | Tf_s0 | Tf_s1
  | Tf_a0 | Tf_a1 | Tf_a2 | Tf_a3 | Tf_a4 | Tf_a5 | Tf_a6 | Tf_a7
  | Tf_s2 | Tf_s3 | Tf_s4 | Tf_s5 | Tf_s6 | Tf_s7 | Tf_s8 | Tf_s9 | Tf_s10 | Tf_s11
  | Tf_t3 | Tf_t4 | Tf_t5 | Tf_t6

primrec tf_offset :: "trapframe_field \<Rightarrow> uint64" where
  "tf_offset Tf_kernel_satp = 0"
| "tf_offset Tf_kernel_sp = 8"
| "tf_offset Tf_kernel_trap = 16"
| "tf_offset Tf_epc = 24"
| "tf_offset Tf_kernel_hartid = 32"
| "tf_offset Tf_ra = 40"
| "tf_offset Tf_sp = 48"
| "tf_offset Tf_gp = 56"
| "tf_offset Tf_tp = 64"
| "tf_offset Tf_t0 = 72"
| "tf_offset Tf_t1 = 80"
| "tf_offset Tf_t2 = 88"
| "tf_offset Tf_s0 = 96"
| "tf_offset Tf_s1 = 104"
| "tf_offset Tf_a0 = 112"
| "tf_offset Tf_a1 = 120"
| "tf_offset Tf_a2 = 128"
| "tf_offset Tf_a3 = 136"
| "tf_offset Tf_a4 = 144"
| "tf_offset Tf_a5 = 152"
| "tf_offset Tf_a6 = 160"
| "tf_offset Tf_a7 = 168"
| "tf_offset Tf_s2 = 176"
| "tf_offset Tf_s3 = 184"
| "tf_offset Tf_s4 = 192"
| "tf_offset Tf_s5 = 200"
| "tf_offset Tf_s6 = 208"
| "tf_offset Tf_s7 = 216"
| "tf_offset Tf_s8 = 224"
| "tf_offset Tf_s9 = 232"
| "tf_offset Tf_s10 = 240"
| "tf_offset Tf_s11 = 248"
| "tf_offset Tf_t3 = 256"
| "tf_offset Tf_t4 = 264"
| "tf_offset Tf_t5 = 272"
| "tf_offset Tf_t6 = 280"

definition tf_get :: "nat \<Rightarrow> trapframe_field \<Rightarrow> ('m kmach_scheme, uint64) kern" where
  "tf_get p r = gets (\<lambda>s. load64 (mem s) (trapframe (procs s p) + tf_offset r))"

definition tf_set :: "nat \<Rightarrow> trapframe_field \<Rightarrow> uint64 \<Rightarrow> ('m kmach_scheme, unit) kern" where
  "tf_set p r v = bind (gets (\<lambda>s. trapframe (procs s p))) (\<lambda>tf. poke (tf + tf_offset r) v)"

section \<open>Creating and freeing a process\<close>

definition procinit :: "('m pmach_scheme, unit) kern" where
  "procinit =
     seq (initlock L_pid ''nextpid'') (
     seq (initlock L_wait ''wait_lock'') (
     for_each [0..<NPROC] (\<lambda>p.
       seq (initlock (L_proc p) ''proc'') (
       modify (set_proc p (\<lambda>q. q\<lparr>pstate := UNUSED, kstack := KSTACK (of_nat p)\<rparr>))))))"

definition allocpid :: "('m pmach_scheme, int) kern" where
  "allocpid =
     seq (acquire L_pid) (
     bind (gets nextpid) (\<lambda>n.
     seq (modify (\<lambda>s. s\<lparr>nextpid := nextpid s + 1\<rparr>)) (
     seq (release L_pid) (
     ret n))))"

definition proc_pagetable :: "nat \<Rightarrow> ('m pmach_scheme, uint64) kern" where
  "proc_pagetable p =
     bind uvmcreate (\<lambda>pt.
     if pt = 0 then ret 0 else
     bind (gets trampoline) (\<lambda>tr.
     bind (mappages pt TRAMPOLINE PGSIZE tr (PTE_R OR PTE_X)) (\<lambda>r.
     if r < 0 then seq (uvmfree pt 0) (ret 0) else
     bind (gets (\<lambda>s. trapframe (procs s p))) (\<lambda>tf.
     bind (mappages pt TRAPFRAME PGSIZE tf (PTE_R OR PTE_W)) (\<lambda>r.
     if r < 0 then
       seq (uvmunmap pt TRAMPOLINE 1 False) (
       seq (uvmfree pt 0) (
       ret 0))
     else ret pt)))))"

definition proc_freepagetable :: "uint64 \<Rightarrow> uint64 \<Rightarrow> ('m pmach_scheme, unit) kern" where
  "proc_freepagetable pt len =
     seq (uvmunmap pt TRAMPOLINE 1 False) (
     seq (uvmunmap pt TRAPFRAME 1 False) (
     uvmfree pt len))"

definition freeproc :: "nat \<Rightarrow> ('m pmach_scheme, unit) kern" where
  "freeproc p =
     bind (gets (\<lambda>s. trapframe (procs s p))) (\<lambda>tf.
     seq (whenM (tf \<noteq> 0) (kfree tf)) (
     seq (modify (set_proc p (\<lambda>q. q\<lparr>trapframe := 0\<rparr>))) (
     bind (gets (\<lambda>s. procs s p)) (\<lambda>q.
     seq (whenM (pagetable q \<noteq> 0) (proc_freepagetable (pagetable q) (sz q))) (
     modify (set_proc p (\<lambda>q. q\<lparr>pagetable := 0, sz := 0, pid := 0, parent := None, pname := [], chan := Ch_null,
       pkilled := False, xstate := 0, pstate := UNUSED\<rparr>)))))))"

text \<open>The code after the label \<^verbatim>\<open>found\<close> of \<open>allocproc\<close>.\<close>

definition allocproc_found :: "nat \<Rightarrow> ('m pmach_scheme, nat option) kern" where
  "allocproc_found p =
     bind allocpid (\<lambda>n.
     seq (modify (set_proc p (\<lambda>q. q\<lparr>pid := n, pstate := USED\<rparr>))) (
     bind kalloc (\<lambda>tf.
     seq (modify (set_proc p (\<lambda>q. q\<lparr>trapframe := tf\<rparr>))) (
     if tf = 0 then seq (freeproc p) (seq (release (L_proc p)) (ret None)) else
     bind (proc_pagetable p) (\<lambda>pt.
     seq (modify (set_proc p (\<lambda>q. q\<lparr>pagetable := pt\<rparr>))) (
     if pt = 0 then seq (freeproc p) (seq (release (L_proc p)) (ret None)) else
     bind (gets (\<lambda>s. kaddr s K_forkret)) (\<lambda>ra.
     seq (modify (set_proc p (\<lambda>q. q\<lparr>ctx := zero_context\<lparr>ctx_ra := ra, ctx_sp := kstack q + PGSIZE\<rparr>\<rparr>))) (
     ret (Some p)))))))))"

definition allocproc :: "('m pmach_scheme, nat option) kern" where
  "allocproc =
     bind (for_ret [0..<NPROC] (\<lambda>p.
       seq (acquire (L_proc p)) (
       bind (gets (\<lambda>s. pstate (procs s p))) (\<lambda>st.
       if st = UNUSED then ret (Some p) else seq (release (L_proc p)) (ret None))))) (\<lambda>r.
     case r of
       None \<Rightarrow> ret None
     | Some p \<Rightarrow> allocproc_found p)"

definition initcode :: "uchar list" where
  "initcode = [
     0x17, 0x05, 0x00, 0x00, 0x13, 0x05, 0x45, 0x02,
     0x97, 0x05, 0x00, 0x00, 0x93, 0x85, 0x35, 0x02,
     0x93, 0x08, 0x70, 0x00, 0x73, 0x00, 0x00, 0x00,
     0x93, 0x08, 0x20, 0x00, 0x73, 0x00, 0x00, 0x00,
     0xef, 0xf0, 0x9f, 0xff, 0x2f, 0x69, 0x6e, 0x69,
     0x74, 0x00, 0x00, 0x24, 0x00, 0x00, 0x00, 0x00,
     0x00, 0x00, 0x00, 0x00]"

text \<open>\<open>safestrcpy\<close> into the array \<^verbatim>\<open>name\<close> of 16 bytes keeps the first 15 characters.\<close>

definition copy_name :: "string \<Rightarrow> string" where
  "copy_name n = take 15 n"

definition userinit :: "('m pmach_scheme, unit) kern" where
  "userinit =
     bind allocproc (\<lambda>po.
     seq (modify (\<lambda>s. s\<lparr>initproc := po\<rparr>)) (
     case po of
       None \<Rightarrow> panic ''null pointer''
     | Some p \<Rightarrow>
         bind (gets (\<lambda>s. pagetable (procs s p))) (\<lambda>pt.
         seq (uvmfirst pt initcode) (
         seq (modify (set_proc p (\<lambda>q. q\<lparr>sz := PGSIZE\<rparr>))) (
         seq (tf_set p Tf_epc 0) (
         seq (tf_set p Tf_sp PGSIZE) (
         seq (modify (set_proc p (\<lambda>q. q\<lparr>pname := copy_name ''initcode''\<rparr>))) (
         bind (namei [47]) (\<lambda>ip.
         seq (modify (set_proc p (\<lambda>q. q\<lparr>cwd := ip, pstate := RUNNABLE\<rparr>))) (
         release (L_proc p))))))))))) "

definition growproc :: "int \<Rightarrow> ('m pmach_scheme, int) kern" where
  "growproc n =
     bind curproc (\<lambda>p.
     bind (gets (\<lambda>s. procs s p)) (\<lambda>q.
     if n > 0 then
       bind (uvmalloc (pagetable q) (sz q) (sz q + word_of_int n) PTE_W) (\<lambda>len.
       if len = 0 then ret (-1) else
       seq (modify (set_proc p (\<lambda>q. q\<lparr>sz := len\<rparr>))) (ret 0))
     else if n < 0 then
       bind (uvmdealloc (pagetable q) (sz q) (sz q + word_of_int n)) (\<lambda>len.
       seq (modify (set_proc p (\<lambda>q. q\<lparr>sz := len\<rparr>))) (ret 0))
     else ret 0))"

section \<open>fork, exit and wait\<close>

definition fork_files :: "nat \<Rightarrow> nat \<Rightarrow> ('m pmach_scheme, unit) kern" where
  "fork_files p np =
     for_each [0..<NOFILE] (\<lambda>i.
       bind (gets (\<lambda>s. ofile (procs s p) i)) (\<lambda>fo.
       case fo of
         None \<Rightarrow> ret ()
       | Some f \<Rightarrow>
           bind (filedup f) (\<lambda>f.
           modify (set_proc np (\<lambda>q. q\<lparr>ofile := (ofile q)(i := Some f)\<rparr>)))))"

definition fork :: "('m pmach_scheme, int) kern" where
  "fork =
     bind curproc (\<lambda>p.
     bind allocproc (\<lambda>npo.
     case npo of
       None \<Rightarrow> ret (-1)
     | Some np \<Rightarrow>
         bind (gets (\<lambda>s. procs s p)) (\<lambda>q.
         bind (gets (\<lambda>s. pagetable (procs s np))) (\<lambda>npt.
         bind (uvmcopy (pagetable q) npt (sz q)) (\<lambda>r.
         if r < 0 then seq (freeproc np) (seq (release (L_proc np)) (ret (-1))) else
         seq (modify (set_proc np (\<lambda>c. c\<lparr>sz := sz q\<rparr>))) (
         seq (modify (\<lambda>s. s\<lparr>mem := write_bytes (mem s) (trapframe (procs s np)) (read_bytes (mem s) (trapframe (procs s p)) 288)\<rparr>)) (
         seq (tf_set np Tf_a0 0) (
         seq (fork_files p np) (
         bind (gets (\<lambda>s. cwd (procs s p))) (\<lambda>c.
         bind (case c of None \<Rightarrow> panic ''null pointer'' | Some ip \<Rightarrow> idup ip) (\<lambda>ip.
         seq (modify (set_proc np (\<lambda>c. c\<lparr>cwd := Some ip, pname := copy_name (pname q)\<rparr>))) (
         bind (gets (\<lambda>s. pid (procs s np))) (\<lambda>child.
         seq (release (L_proc np)) (
         seq (acquire L_wait) (
         seq (modify (set_proc np (\<lambda>c. c\<lparr>parent := Some p\<rparr>))) (
         seq (release L_wait) (
         seq (acquire (L_proc np)) (
         seq (modify (set_proc np (\<lambda>c. c\<lparr>pstate := RUNNABLE\<rparr>))) (
         seq (release (L_proc np)) (
         ret child))))))))))))))))))))"

definition chan_of :: "nat option \<Rightarrow> chan" where
  "chan_of p = (case p of None \<Rightarrow> Ch_null | Some i \<Rightarrow> Ch_proc i)"

definition reparent :: "nat \<Rightarrow> ('m pmach_scheme, unit) kern" where
  "reparent p =
     for_each [0..<NPROC] (\<lambda>pp.
       bind (gets (\<lambda>s. parent (procs s pp))) (\<lambda>par.
       whenM (par = Some p) (
         seq (modify (\<lambda>s. set_proc pp (\<lambda>q. q\<lparr>parent := initproc s\<rparr>) s)) (
         bind (gets initproc) (\<lambda>i. wakeup (chan_of i))))))"

definition close_files :: "nat \<Rightarrow> ('m pmach_scheme, unit) kern" where
  "close_files p =
     for_each [0..<NOFILE] (\<lambda>fd.
       bind (gets (\<lambda>s. ofile (procs s p) fd)) (\<lambda>fo.
       case fo of
         None \<Rightarrow> ret ()
       | Some f \<Rightarrow>
           seq (fileclose f) (
           modify (set_proc p (\<lambda>q. q\<lparr>ofile := (ofile q)(fd := None)\<rparr>)))))"

definition exit :: "int \<Rightarrow> ('m pmach_scheme, 'a) kern" where
  "exit status =
     bind curproc (\<lambda>p.
     bind (gets initproc) (\<lambda>i.
     if Some p = i then panic ''init exiting'' else
     seq (close_files p) (
     seq begin_op (
     bind (gets (\<lambda>s. cwd (procs s p))) (\<lambda>c.
     seq (case c of None \<Rightarrow> panic ''null pointer'' | Some ip \<Rightarrow> iput ip) (
     seq end_op (
     seq (modify (set_proc p (\<lambda>q. q\<lparr>cwd := None\<rparr>))) (
     seq (acquire L_wait) (
     seq (reparent p) (
     bind (gets (\<lambda>s. parent (procs s p))) (\<lambda>par.
     seq (wakeup (chan_of par)) (
     seq (acquire (L_proc p)) (
     seq (modify (set_proc p (\<lambda>q. q\<lparr>xstate := status, pstate := ZOMBIE\<rparr>))) (
     seq (release L_wait) (
     seq sched (
     panic ''zombie exit''))))))))))))))))"

text \<open>
  The scan of the process table in \<open>wait\<close>, for one entry: whether a child has been seen, and
  the value \<^verbatim>\<open>wait\<close> returns if it does.
\<close>

definition wait_one :: "nat \<Rightarrow> uint64 \<Rightarrow> nat \<Rightarrow> bool \<times> int option \<Rightarrow> ('m pmach_scheme, bool \<times> int option) kern" where
  "wait_one p addr pp = (\<lambda>(havekids, out).
     bind (gets (\<lambda>s. parent (procs s pp))) (\<lambda>par.
     if out \<noteq> None \<or> par \<noteq> Some p then ret (havekids, out) else
     seq (acquire (L_proc pp)) (
     bind (gets (\<lambda>s. procs s pp)) (\<lambda>c.
     if pstate c = ZOMBIE then
       bind (if addr \<noteq> 0 then
               bind (gets (\<lambda>s. pagetable (procs s p))) (\<lambda>pt. copyout pt addr (le_bytes 4 (word_of_int (xstate c) :: uint)))
             else ret 0) (\<lambda>r.
       if r < 0 then
         seq (release (L_proc pp)) (
         seq (release L_wait) (
         ret (True, Some (-1))))
       else
         seq (freeproc pp) (
         seq (release (L_proc pp)) (
         seq (release L_wait) (
         ret (True, Some (pid c))))))
     else seq (release (L_proc pp)) (ret (True, None))))))"

primrec wait_scan :: "nat \<Rightarrow> uint64 \<Rightarrow> nat list \<Rightarrow> bool \<times> int option \<Rightarrow> ('m pmach_scheme, bool \<times> int option) kern" where
  "wait_scan p addr [] st = ret st"
| "wait_scan p addr (pp # pps) st = bind (wait_one p addr pp st) (wait_scan p addr pps)"

definition wait :: "uint64 \<Rightarrow> ('m pmach_scheme, int) kern" where
  "wait addr =
     bind curproc (\<lambda>p.
     seq (acquire L_wait) (
     bind (whileM (\<lambda>out _. out = None)
       (\<lambda>_. bind (wait_scan p addr [0..<NPROC] (False, None)) (\<lambda>(havekids, out).
          if out \<noteq> None then ret out else
          bind (if \<not> havekids then ret True else killed p) (\<lambda>stop.
          if stop then seq (release L_wait) (ret (Some (-1))) else
          seq (sleep (Ch_proc p) L_wait) (
          ret None)))) None) (\<lambda>out.
     ret (case out of Some r \<Rightarrow> r | None \<Rightarrow> 0))))"

end
