(* ===== verification/Exec.thy ===== *)
theory Exec
  imports Proc
begin

text \<open>
  Loading a program, \<^verbatim>\<open>kernel/exec.c\<close> and \<^verbatim>\<open>kernel/elf.h\<close>.  The variables \<^verbatim>\<open>elf\<close> and \<^verbatim>\<open>ph\<close> of
  \<open>exec\<close> are at the offsets 64 and 128 of \<open>klocal\<close>.  The arguments are given by the addresses
  of their strings in kernel memory, up to the null pointer.
\<close>

definition ELF_MAGIC :: uint where "ELF_MAGIC = 0x464C457F"
definition ELF_PROG_LOAD :: uint where "ELF_PROG_LOAD = 1"

record elfhdr =
  e_magic :: uint
  e_elf :: "uchar list"
  e_type :: ushort
  e_machine :: ushort
  e_version :: uint
  e_entry :: uint64
  e_phoff :: uint64
  e_shoff :: uint64
  e_flags :: uint
  e_ehsize :: ushort
  e_phentsize :: ushort
  e_phnum :: ushort
  e_shentsize :: ushort
  e_shnum :: ushort
  e_shstrndx :: ushort

record proghdr =
  ph_type :: uint
  ph_flags :: uint
  ph_off :: uint64
  ph_vaddr :: uint64
  ph_paddr :: uint64
  ph_filesz :: uint64
  ph_memsz :: uint64
  ph_align :: uint64

definition get64 :: "uchar list \<Rightarrow> nat \<Rightarrow> uint64" where
  "get64 bs off = le_word (peek bs off 8)"

definition get_elfhdr :: "uchar list \<Rightarrow> elfhdr" where
  "get_elfhdr bs = \<lparr>e_magic = get32 bs 0, e_elf = peek bs 4 12, e_type = get16 bs 16, e_machine = get16 bs 18, e_version = get32 bs 20,
     e_entry = get64 bs 24, e_phoff = get64 bs 32, e_shoff = get64 bs 40, e_flags = get32 bs 48, e_ehsize = get16 bs 52,
     e_phentsize = get16 bs 54, e_phnum = get16 bs 56, e_shentsize = get16 bs 58, e_shnum = get16 bs 60, e_shstrndx = get16 bs 62\<rparr>"

definition get_proghdr :: "uchar list \<Rightarrow> proghdr" where
  "get_proghdr bs = \<lparr>ph_type = get32 bs 0, ph_flags = get32 bs 4, ph_off = get64 bs 8, ph_vaddr = get64 bs 16,
     ph_paddr = get64 bs 24, ph_filesz = get64 bs 32, ph_memsz = get64 bs 40, ph_align = get64 bs 48\<rparr>"

definition flags2perm :: "uint \<Rightarrow> uint64" where
  "flags2perm flags = (if flags AND 0x1 \<noteq> 0 then PTE_X else 0) OR (if flags AND 0x2 \<noteq> 0 then PTE_W else 0)"

definition loadseg :: "uint64 \<Rightarrow> uint64 \<Rightarrow> nat \<Rightarrow> uint \<Rightarrow> uint \<Rightarrow> ('m pmach_scheme, int) kern" where
  "loadseg pt va ip offset len =
     bind (whileM (\<lambda>(i, bad) _. \<not> bad \<and> i < len)
       (\<lambda>(i, bad).
          bind (walkaddr pt (va + ucast i)) (\<lambda>pa.
          if pa = 0 then panic ''loadseg: address should exist'' else
          let n = (if len - i < ucast PGSIZE then len - i else ucast PGSIZE) in
          bind (readi ip (Kern pa) (offset + i) n) (\<lambda>r.
          ret (i + ucast PGSIZE, r \<noteq> sint n))))
       (0, False)) (\<lambda>(_, bad).
     ret (if bad then -1 else 0))"

text \<open>The label \<^verbatim>\<open>bad\<close> of \<open>exec\<close>.\<close>

definition exec_bad :: "uint64 \<Rightarrow> uint64 \<Rightarrow> nat option \<Rightarrow> ('m pmach_scheme, int) kern" where
  "exec_bad pt len ipo =
     seq (whenM (pt \<noteq> 0) (proc_freepagetable pt len)) (
     seq (case ipo of None \<Rightarrow> ret () | Some ip \<Rightarrow> seq (iunlockput ip) end_op) (
     ret (-1)))"

text \<open>The loop over the program headers: the index, the offset, the size so far, and whether it went to \<^verbatim>\<open>bad\<close>.\<close>

definition exec_segment ::
  "nat \<Rightarrow> uint64 \<Rightarrow> nat \<times> uint \<times> uint64 \<times> bool \<Rightarrow> ('m pmach_scheme, nat \<times> uint \<times> uint64 \<times> bool) kern" where
  "exec_segment ip pt = (\<lambda>(i, off, len, bad).
     bind (readi ip (Local 128) off 56) (\<lambda>r.
     if r \<noteq> 56 then ret (i, off, len, True) else
     bind (gets (\<lambda>s. get_proghdr (local_bytes 128 56 s))) (\<lambda>ph.
     if ph_type ph \<noteq> ELF_PROG_LOAD then ret (i + 1, off + 56, len, False) else
     if ph_memsz ph < ph_filesz ph \<or> ph_vaddr ph + ph_memsz ph < ph_vaddr ph \<or> ph_vaddr ph mod PGSIZE \<noteq> 0
     then ret (i, off, len, True) else
     bind (uvmalloc pt len (ph_vaddr ph + ph_memsz ph) (flags2perm (ph_flags ph))) (\<lambda>len1.
     if len1 = 0 then ret (i, off, len, True) else
     bind (loadseg pt (ph_vaddr ph) ip (ucast (ph_off ph)) (ucast (ph_filesz ph))) (\<lambda>r.
     if r < 0 then ret (i, off, len1, True) else
     ret (i + 1, off + 56, len1, False))))))"

definition kstrlen :: "uint64 \<Rightarrow> ('m kmach_scheme, nat) kern" where
  "kstrlen a = bind (gets (\<lambda>s. strlen (mem s) a)) (\<lambda>r. case r of Some n \<Rightarrow> ret n | None \<Rightarrow> (\<lambda>s e. Diverges))"

text \<open>The loop over the argument strings: the stack pointer and the addresses of the strings, or \<open>None\<close> for \<^verbatim>\<open>bad\<close>.\<close>

fun exec_args :: "uint64 \<Rightarrow> uint64 \<Rightarrow> uint64 list \<Rightarrow> uint64 \<Rightarrow> uint64 list \<Rightarrow> ('m pmach_scheme, (uint64 \<times> uint64 list) option) kern" where
  "exec_args pt stackbase [] sp ustack = ret (Some (sp, ustack))"
| "exec_args pt stackbase (a # argv) sp ustack =
     (if length ustack \<ge> MAXARG then ret None else
      bind (kstrlen a) (\<lambda>n.
      let sp = sp - of_nat (n + 1); sp = sp - sp mod 16 in
      if sp < stackbase then ret None else
      bind (gets (\<lambda>s. read_bytes (mem s) a (n + 1))) (\<lambda>bs.
      bind (copyout pt sp bs) (\<lambda>r.
      if r < 0 then ret None else
      exec_args pt stackbase argv sp (ustack @ [sp])))))"

fun last_elem :: "uchar list \<Rightarrow> uchar list \<Rightarrow> uchar list" where
  "last_elem l [] = l"
| "last_elem l (c # s) = last_elem (if c = 47 then s else l) s"

text \<open>The part of \<open>exec\<close> after the file has been closed.\<close>

definition exec_stack :: "uchar list \<Rightarrow> uint64 list \<Rightarrow> elfhdr \<Rightarrow> uint64 \<Rightarrow> uint64 \<Rightarrow> ('m pmach_scheme, int) kern" where
  "exec_stack path argv elf pt len =
     bind curproc (\<lambda>p.
     bind (gets (\<lambda>s. sz (procs s p))) (\<lambda>oldsz.
     let len = PGROUNDUP len in
     bind (uvmalloc pt len (len + 2 * PGSIZE) PTE_W) (\<lambda>len1.
     if len1 = 0 then exec_bad pt len None else
     let len = len1 in
     seq (uvmclear pt (len - 2 * PGSIZE)) (
     let sp = len; stackbase = sp - PGSIZE in
     bind (exec_args pt stackbase argv sp []) (\<lambda>r.
     case r of None \<Rightarrow> exec_bad pt len None | Some (sp, ustack) \<Rightarrow>
     let argc = length ustack; sp = sp - of_nat (argc + 1) * 8; sp = sp - sp mod 16 in
     if sp < stackbase then exec_bad pt len None else
     bind (copyout pt sp (concat (map (le_bytes 8) (ustack @ [0])))) (\<lambda>r.
     if r < 0 then exec_bad pt len None else
     seq (tf_set p Tf_a1 sp) (
     seq (modify (set_proc p (\<lambda>q. q\<lparr>pname := copy_name (map (\<lambda>c. char_of (unat c)) (last_elem path path))\<rparr>))) (
     bind (gets (\<lambda>s. pagetable (procs s p))) (\<lambda>oldpt.
     seq (modify (set_proc p (\<lambda>q. q\<lparr>pagetable := pt, sz := len\<rparr>))) (
     seq (tf_set p Tf_epc (e_entry elf)) (
     seq (tf_set p Tf_sp sp) (
     seq (proc_freepagetable oldpt oldsz) (
     ret (int argc))))))))))))))"

definition exec :: "uchar list \<Rightarrow> uint64 list \<Rightarrow> ('m pmach_scheme, int) kern" where
  "exec path argv =
     bind curproc (\<lambda>p.
     seq begin_op (
     bind (namei path) (\<lambda>ipo.
     case ipo of None \<Rightarrow> seq end_op (ret (-1)) | Some ip \<Rightarrow>
     seq (ilock (Some ip)) (
     bind (readi ip (Local 64) 0 64) (\<lambda>r.
     if r \<noteq> 64 then exec_bad 0 0 (Some ip) else
     bind (gets (\<lambda>s. get_elfhdr (local_bytes 64 64 s))) (\<lambda>elf.
     if e_magic elf \<noteq> ELF_MAGIC then exec_bad 0 0 (Some ip) else
     bind (proc_pagetable p) (\<lambda>pt.
     if pt = 0 then exec_bad 0 0 (Some ip) else
     bind (whileM (\<lambda>(i, off, len, bad) _. \<not> bad \<and> i < unat (e_phnum elf)) (exec_segment ip pt)
       (0, ucast (e_phoff elf), 0, False)) (\<lambda>(i, off, len, bad).
     if bad then exec_bad pt len (Some ip) else
     seq (iunlockput ip) (
     seq end_op (
     exec_stack path argv elf pt len))))))))))"

end
