(* ===== verification/Syscall.thy ===== *)
theory Syscall
  imports Exec
begin

text \<open>
  System calls: \<^verbatim>\<open>kernel/syscall.c\<close> with \<^verbatim>\<open>kernel/syscall.h\<close>, \<^verbatim>\<open>kernel/sysproc.c\<close> and
  \<^verbatim>\<open>kernel/sysfile.c\<close> with \<^verbatim>\<open>kernel/fcntl.h\<close>.
\<close>

section \<open>Arguments\<close>

definition fetchaddr :: "uint64 \<Rightarrow> ('m pmach_scheme, uint64 option) kern" where
  "fetchaddr addr =
     bind curproc (\<lambda>p.
     bind (gets (\<lambda>s. procs s p)) (\<lambda>q.
     if addr \<ge> sz q \<or> addr + 8 > sz q then ret None else
     bind (copyin (pagetable q) addr 8) (\<lambda>(r, bs).
     ret (if r \<noteq> 0 then None else Some (le_word bs)))))"

text \<open>The string without its null byte; its length is the value the C function returns.\<close>

definition fetchstr :: "uint64 \<Rightarrow> nat \<Rightarrow> ('m pmach_scheme, uchar list option) kern" where
  "fetchstr addr limit =
     bind curproc (\<lambda>p.
     bind (gets (\<lambda>s. pagetable (procs s p))) (\<lambda>pt.
     bind (copyinstr pt addr limit) (\<lambda>(r, bs).
     ret (if r < 0 then None else Some (takeWhile (\<lambda>c. c \<noteq> 0) bs)))))"

definition argraw :: "nat \<Rightarrow> ('m pmach_scheme, uint64) kern" where
  "argraw n =
     bind curproc (\<lambda>p.
     if n = 0 then tf_get p Tf_a0
     else if n = 1 then tf_get p Tf_a1
     else if n = 2 then tf_get p Tf_a2
     else if n = 3 then tf_get p Tf_a3
     else if n = 4 then tf_get p Tf_a4
     else if n = 5 then tf_get p Tf_a5
     else panic ''argraw'')"

definition argint :: "nat \<Rightarrow> ('m pmach_scheme, int) kern" where
  "argint n = bind (argraw n) (\<lambda>v. ret (sint (ucast v :: uint)))"

definition argaddr :: "nat \<Rightarrow> ('m pmach_scheme, uint64) kern" where
  "argaddr n = argraw n"

definition argstr :: "nat \<Rightarrow> nat \<Rightarrow> ('m pmach_scheme, uchar list option) kern" where
  "argstr n limit = bind (argaddr n) (\<lambda>addr. fetchstr addr limit)"

section \<open>Processes\<close>

definition sys_exit :: "('m pmach_scheme, uint64) kern" where
  "sys_exit = bind (argint 0) (\<lambda>n. exit n)"

definition sys_getpid :: "('m pmach_scheme, uint64) kern" where
  "sys_getpid = bind curproc (\<lambda>p. gets (\<lambda>s. word_of_int (pid (procs s p))))"

definition sys_fork :: "('m pmach_scheme, uint64) kern" where
  "sys_fork = bind fork (\<lambda>r. ret (word_of_int r))"

definition sys_wait :: "('m pmach_scheme, uint64) kern" where
  "sys_wait = bind (argaddr 0) (\<lambda>p. bind (wait p) (\<lambda>r. ret (word_of_int r)))"

definition sys_sbrk :: "('m pmach_scheme, uint64) kern" where
  "sys_sbrk =
     bind (argint 0) (\<lambda>n.
     bind curproc (\<lambda>p.
     bind (gets (\<lambda>s. sz (procs s p))) (\<lambda>addr.
     bind (growproc n) (\<lambda>r.
     ret (if r < 0 then -1 else addr)))))"

text \<open>The comparison \<^verbatim>\<open>ticks - ticks0 < n\<close> is one of unsigned numbers.\<close>

definition sys_sleep :: "('m pmach_scheme, uint64) kern" where
  "sys_sleep =
     bind (argint 0) (\<lambda>n.
     seq (acquire L_ticks) (
     bind (gets ticks) (\<lambda>ticks0.
     bind (whileM (\<lambda>gone s. \<not> gone \<and> ticks s - ticks0 < word_of_int n)
       (\<lambda>_. bind curproc (\<lambda>p.
          bind (killed p) (\<lambda>k.
          if k then seq (release L_ticks) (ret True) else
          seq (sleep Ch_ticks L_ticks) (
          ret False)))) False) (\<lambda>gone.
     if gone then ret (-1) else
     seq (release L_ticks) (
     ret 0)))))"

definition sys_kill :: "('m pmach_scheme, uint64) kern" where
  "sys_kill = bind (argint 0) (\<lambda>n. bind (kill n) (\<lambda>r. ret (word_of_int r)))"

definition sys_uptime :: "('m pmach_scheme, uint64) kern" where
  "sys_uptime =
     seq (acquire L_ticks) (
     bind (gets ticks) (\<lambda>xticks.
     seq (release L_ticks) (
     ret (ucast xticks))))"

section \<open>Files\<close>

definition argfd :: "nat \<Rightarrow> ('m pmach_scheme, (nat \<times> nat) option) kern" where
  "argfd n =
     bind (argint n) (\<lambda>fd.
     if fd < 0 \<or> fd \<ge> int NOFILE then ret None else
     bind curproc (\<lambda>p.
     bind (gets (\<lambda>s. ofile (procs s p) (nat fd))) (\<lambda>f.
     ret (map_option (\<lambda>f. (nat fd, f)) f))))"

definition fdalloc :: "nat \<Rightarrow> ('m pmach_scheme, nat option) kern" where
  "fdalloc f =
     bind curproc (\<lambda>p.
     for_ret [0..<NOFILE] (\<lambda>fd.
       bind (gets (\<lambda>s. ofile (procs s p) fd)) (\<lambda>o'.
       if o' = None then seq (modify (set_proc p (\<lambda>q. q\<lparr>ofile := (ofile q)(fd := Some f)\<rparr>))) (ret (Some fd))
       else ret None)))"

definition sys_dup :: "('m pmach_scheme, uint64) kern" where
  "sys_dup =
     bind (argfd 0) (\<lambda>r.
     case r of None \<Rightarrow> ret (-1) | Some (_, f) \<Rightarrow>
     bind (fdalloc f) (\<lambda>r.
     case r of None \<Rightarrow> ret (-1) | Some fd \<Rightarrow>
     bind (filedup f) (\<lambda>_.
     ret (of_nat fd))))"

definition sys_read :: "('m pmach_scheme, uint64) kern" where
  "sys_read =
     bind (argaddr 1) (\<lambda>p.
     bind (argint 2) (\<lambda>n.
     bind (argfd 0) (\<lambda>r.
     case r of None \<Rightarrow> ret (-1) | Some (_, f) \<Rightarrow>
     bind (fileread f p n) (\<lambda>r. ret (word_of_int r)))))"

definition sys_write :: "('m pmach_scheme, uint64) kern" where
  "sys_write =
     bind (argaddr 1) (\<lambda>p.
     bind (argint 2) (\<lambda>n.
     bind (argfd 0) (\<lambda>r.
     case r of None \<Rightarrow> ret (-1) | Some (_, f) \<Rightarrow>
     bind (filewrite f p n) (\<lambda>r. ret (word_of_int r)))))"

definition sys_close :: "('m pmach_scheme, uint64) kern" where
  "sys_close =
     bind (argfd 0) (\<lambda>r.
     case r of None \<Rightarrow> ret (-1) | Some (fd, f) \<Rightarrow>
     bind curproc (\<lambda>p.
     seq (modify (set_proc p (\<lambda>q. q\<lparr>ofile := (ofile q)(fd := None)\<rparr>))) (
     seq (fileclose f) (
     ret 0))))"

definition sys_fstat :: "('m pmach_scheme, uint64) kern" where
  "sys_fstat =
     bind (argaddr 1) (\<lambda>st.
     bind (argfd 0) (\<lambda>r.
     case r of None \<Rightarrow> ret (-1) | Some (_, f) \<Rightarrow>
     bind (filestat f st) (\<lambda>r. ret (word_of_int r))))"

section \<open>Names\<close>

text \<open>The label \<^verbatim>\<open>bad\<close> of \<open>sys_link\<close>.\<close>

definition link_bad :: "nat \<Rightarrow> ('m pmach_scheme, uint64) kern" where
  "link_bad ip =
     seq (ilock (Some ip)) (
     seq (modify (set_inode ip (\<lambda>i. i\<lparr>i_nlink := i_nlink i - 1\<rparr>))) (
     seq (iupdate ip) (
     seq (iunlockput ip) (
     seq end_op (
     ret (-1))))))"

definition sys_link :: "('m pmach_scheme, uint64) kern" where
  "sys_link =
     bind (argstr 0 MAXPATH) (\<lambda>old.
     case old of None \<Rightarrow> ret (-1) | Some old \<Rightarrow>
     bind (argstr 1 MAXPATH) (\<lambda>new.
     case new of None \<Rightarrow> ret (-1) | Some new \<Rightarrow>
     seq begin_op (
     bind (namei old) (\<lambda>ipo.
     case ipo of None \<Rightarrow> seq end_op (ret (-1)) | Some ip \<Rightarrow>
     seq (ilock (Some ip)) (
     bind (gets (\<lambda>s. i_type (itable s ip))) (\<lambda>ty.
     if ty = T_DIR then seq (iunlockput ip) (seq end_op (ret (-1))) else
     seq (modify (set_inode ip (\<lambda>i. i\<lparr>i_nlink := i_nlink i + 1\<rparr>))) (
     seq (iupdate ip) (
     seq (iunlock (Some ip)) (
     bind (nameiparent new) (\<lambda>(dpo, name).
     case dpo of None \<Rightarrow> link_bad ip | Some dp \<Rightarrow>
     seq (ilock (Some dp)) (
     bind (gets (\<lambda>s. (i_dev (itable s dp), itable s ip))) (\<lambda>(dev, i).
     bind (if dev \<noteq> i_dev i then ret (-1) else dirlink dp name (i_inum i)) (\<lambda>r.
     if r < 0 then seq (iunlockput dp) (link_bad ip) else
     seq (iunlockput dp) (
     seq (iput ip) (
     seq end_op (
     ret 0))))))))))))))))"

definition isdirempty :: "nat \<Rightarrow> ('m imach_scheme, bool) kern" where
  "isdirempty dp =
     bind (whileM (\<lambda>(off, used) s. \<not> used \<and> off < i_size (itable s dp))
       (\<lambda>(off, used).
          bind (readi dp (Local 0) off 16) (\<lambda>r.
          if r \<noteq> 16 then panic ''isdirempty: readi'' else
          bind (gets (\<lambda>s. get_dirent (local_bytes 0 16 s))) (\<lambda>de.
          ret (off + 16, de_inum de \<noteq> 0))))
       (2 * 16, False)) (\<lambda>(_, used).
     ret (\<not> used))"

text \<open>The label \<^verbatim>\<open>bad\<close> of \<open>sys_unlink\<close>.\<close>

definition unlink_bad :: "nat \<Rightarrow> ('m pmach_scheme, uint64) kern" where
  "unlink_bad dp = seq (iunlockput dp) (seq end_op (ret (-1)))"

definition sys_unlink :: "('m pmach_scheme, uint64) kern" where
  "sys_unlink =
     bind (argstr 0 MAXPATH) (\<lambda>path.
     case path of None \<Rightarrow> ret (-1) | Some path \<Rightarrow>
     seq begin_op (
     bind (nameiparent path) (\<lambda>(dpo, name).
     case dpo of None \<Rightarrow> seq end_op (ret (-1)) | Some dp \<Rightarrow>
     seq (ilock (Some dp)) (
     if namecmp name [46] = 0 \<or> namecmp name [46, 46] = 0 then unlink_bad dp else
     bind (dirlookup dp name) (\<lambda>r.
     case r of None \<Rightarrow> unlink_bad dp | Some (ip, off) \<Rightarrow>
     seq (ilock (Some ip)) (
     bind (gets (\<lambda>s. itable s ip)) (\<lambda>i.
     if sint (i_nlink i) < 1 then panic ''unlink: nlink < 1'' else
     bind (if i_type i = T_DIR then isdirempty ip else ret True) (\<lambda>empty.
     if \<not> empty then seq (iunlockput ip) (unlink_bad dp) else
     seq (set_local 0 (replicate 16 0)) (
     bind (writei dp (Local 0) off 16) (\<lambda>r.
     if r \<noteq> 16 then panic ''unlink: writei'' else
     seq (whenM (i_type i = T_DIR) (
       seq (modify (set_inode dp (\<lambda>i. i\<lparr>i_nlink := i_nlink i - 1\<rparr>))) (
       iupdate dp))) (
     seq (iunlockput dp) (
     seq (modify (set_inode ip (\<lambda>i. i\<lparr>i_nlink := i_nlink i - 1\<rparr>))) (
     seq (iupdate ip) (
     seq (iunlockput ip) (
     seq end_op (
     ret 0)))))))))))))))) "

text \<open>The label \<^verbatim>\<open>fail\<close> of \<open>create\<close>.\<close>

definition create_fail :: "nat \<Rightarrow> nat \<Rightarrow> ('m pmach_scheme, nat option) kern" where
  "create_fail ip dp =
     seq (modify (set_inode ip (\<lambda>i. i\<lparr>i_nlink := 0\<rparr>))) (
     seq (iupdate ip) (
     seq (iunlockput ip) (
     seq (iunlockput dp) (
     ret None))))"

definition create :: "uchar list \<Rightarrow> short \<Rightarrow> short \<Rightarrow> short \<Rightarrow> ('m pmach_scheme, nat option) kern" where
  "create path type major minor =
     bind (nameiparent path) (\<lambda>(dpo, name).
     case dpo of None \<Rightarrow> ret None | Some dp \<Rightarrow>
     seq (ilock (Some dp)) (
     bind (dirlookup dp name) (\<lambda>r.
     case r of
       Some (ip, _) \<Rightarrow>
         seq (iunlockput dp) (
         seq (ilock (Some ip)) (
         bind (gets (\<lambda>s. i_type (itable s ip))) (\<lambda>ty.
         if type = T_FILE \<and> (ty = T_FILE \<or> ty = T_DEVICE) then ret (Some ip) else
         seq (iunlockput ip) (ret None))))
     | None \<Rightarrow>
         bind (gets (\<lambda>s. i_dev (itable s dp))) (\<lambda>dev.
         bind (ialloc dev type) (\<lambda>ipo.
         case ipo of None \<Rightarrow> seq (iunlockput dp) (ret None) | Some ip \<Rightarrow>
         seq (ilock (Some ip)) (
         seq (modify (set_inode ip (\<lambda>i. i\<lparr>i_major := major, i_minor := minor, i_nlink := 1\<rparr>))) (
         seq (iupdate ip) (
         bind (gets (\<lambda>s. (i_inum (itable s ip), i_inum (itable s dp)))) (\<lambda>(inum, dinum).
         bind (if type = T_DIR then
                 bind (dirlink ip [46] inum) (\<lambda>r. if r < 0 then ret r else dirlink ip [46, 46] dinum)
               else ret 0) (\<lambda>r.
         if r < 0 then create_fail ip dp else
         bind (dirlink dp name inum) (\<lambda>r.
         if r < 0 then create_fail ip dp else
         seq (whenM (type = T_DIR) (
           seq (modify (set_inode dp (\<lambda>i. i\<lparr>i_nlink := i_nlink i + 1\<rparr>))) (
           iupdate dp))) (
         seq (iunlockput dp) (
         ret (Some ip))))))))))))))"

definition O_RDONLY :: uint where "O_RDONLY = 0"
definition O_WRONLY :: uint where "O_WRONLY = 1"
definition O_RDWR :: uint where "O_RDWR = 2"
definition O_CREATE :: uint where "O_CREATE = 0x200"
definition O_TRUNC :: uint where "O_TRUNC = 0x400"

text \<open>The part of \<open>sys_open\<close> that finds the inode; it returns with the inode locked.\<close>

definition open_inode :: "uchar list \<Rightarrow> uint \<Rightarrow> ('m pmach_scheme, nat option) kern" where
  "open_inode path omode =
     (if omode AND O_CREATE \<noteq> 0 then
        bind (create path T_FILE 0 0) (\<lambda>ipo.
        case ipo of None \<Rightarrow> seq end_op (ret None) | Some ip \<Rightarrow> ret (Some ip))
      else
        bind (namei path) (\<lambda>ipo.
        case ipo of None \<Rightarrow> seq end_op (ret None) | Some ip \<Rightarrow>
        seq (ilock (Some ip)) (
        bind (gets (\<lambda>s. i_type (itable s ip))) (\<lambda>ty.
        if ty = T_DIR \<and> omode \<noteq> O_RDONLY then seq (iunlockput ip) (seq end_op (ret None))
        else ret (Some ip)))))"

definition sys_open :: "('m pmach_scheme, uint64) kern" where
  "sys_open =
     bind (argint 1) (\<lambda>m.
     bind (argstr 0 MAXPATH) (\<lambda>path.
     case path of None \<Rightarrow> ret (-1) | Some path \<Rightarrow>
     let omode = word_of_int m in
     seq begin_op (
     bind (open_inode path omode) (\<lambda>ipo.
     case ipo of None \<Rightarrow> ret (-1) | Some ip \<Rightarrow>
     bind (gets (\<lambda>s. itable s ip)) (\<lambda>i.
     if i_type i = T_DEVICE \<and> (sint (i_major i) < 0 \<or> sint (i_major i) \<ge> int NDEV) then
       seq (iunlockput ip) (seq end_op (ret (-1)))
     else
     bind filealloc (\<lambda>fo.
     bind (case fo of None \<Rightarrow> ret None | Some f \<Rightarrow> fdalloc f) (\<lambda>fdo.
     case (fo, fdo) of
       (Some f, Some fd) \<Rightarrow>
         seq (modify (set_file f (\<lambda>x. if i_type i = T_DEVICE then x\<lparr>f_type := FD_DEVICE, f_major := i_major i\<rparr>
           else x\<lparr>f_type := FD_INODE, f_off := 0\<rparr>))) (
         seq (modify (set_file f (\<lambda>x. x\<lparr>f_ip := ip, f_readable := (omode AND O_WRONLY = 0),
           f_writable := (omode AND O_WRONLY \<noteq> 0 \<or> omode AND O_RDWR \<noteq> 0)\<rparr>))) (
         seq (whenM (omode AND O_TRUNC \<noteq> 0 \<and> i_type i = T_FILE) (itrunc ip)) (
         seq (iunlock (Some ip)) (
         seq end_op (
         ret (of_nat fd))))))
     | _ \<Rightarrow>
         seq (case fo of None \<Rightarrow> ret () | Some f \<Rightarrow> fileclose f) (
         seq (iunlockput ip) (
         seq end_op (
         ret (-1)))))))))))"

definition sys_mkdir :: "('m pmach_scheme, uint64) kern" where
  "sys_mkdir =
     seq begin_op (
     bind (argstr 0 MAXPATH) (\<lambda>path.
     bind (case path of None \<Rightarrow> ret None | Some path \<Rightarrow> create path T_DIR 0 0) (\<lambda>ipo.
     case ipo of
       None \<Rightarrow> seq end_op (ret (-1))
     | Some ip \<Rightarrow> seq (iunlockput ip) (seq end_op (ret 0)))))"

definition sys_mknod :: "('m pmach_scheme, uint64) kern" where
  "sys_mknod =
     seq begin_op (
     bind (argint 1) (\<lambda>major.
     bind (argint 2) (\<lambda>minor.
     bind (argstr 0 MAXPATH) (\<lambda>path.
     bind (case path of None \<Rightarrow> ret None | Some path \<Rightarrow> create path T_DEVICE (word_of_int major) (word_of_int minor)) (\<lambda>ipo.
     case ipo of
       None \<Rightarrow> seq end_op (ret (-1))
     | Some ip \<Rightarrow> seq (iunlockput ip) (seq end_op (ret 0)))))))"

definition sys_chdir :: "('m pmach_scheme, uint64) kern" where
  "sys_chdir =
     bind curproc (\<lambda>p.
     seq begin_op (
     bind (argstr 0 MAXPATH) (\<lambda>path.
     bind (case path of None \<Rightarrow> ret None | Some path \<Rightarrow> namei path) (\<lambda>ipo.
     case ipo of None \<Rightarrow> seq end_op (ret (-1)) | Some ip \<Rightarrow>
     seq (ilock (Some ip)) (
     bind (gets (\<lambda>s. i_type (itable s ip))) (\<lambda>ty.
     if ty \<noteq> T_DIR then seq (iunlockput ip) (seq end_op (ret (-1))) else
     seq (iunlock (Some ip)) (
     bind (gets (\<lambda>s. cwd (procs s p))) (\<lambda>c.
     seq (case c of None \<Rightarrow> panic ''null pointer'' | Some old \<Rightarrow> iput old) (
     seq end_op (
     seq (modify (set_proc p (\<lambda>q. q\<lparr>cwd := Some ip\<rparr>))) (
     ret 0)))))))))))"

text \<open>
  The loop of \<open>sys_exec\<close> that copies the arguments: the pages taken so far, and whether it
  went to \<^verbatim>\<open>bad\<close>.
\<close>

definition exec_fetch :: "uint64 \<Rightarrow> uint64 list \<times> bool option \<Rightarrow> ('m pmach_scheme, uint64 list \<times> bool option) kern" where
  "exec_fetch uargv = (\<lambda>(argv, out).
     if length argv \<ge> MAXARG then ret (argv, Some True) else
     bind (fetchaddr (uargv + 8 * of_nat (length argv))) (\<lambda>uarg.
     case uarg of None \<Rightarrow> ret (argv, Some True) | Some uarg \<Rightarrow>
     if uarg = 0 then ret (argv, Some False) else
     bind kalloc (\<lambda>pg.
     if pg = 0 then ret (argv, Some True) else
     bind curproc (\<lambda>p.
     bind (gets (\<lambda>s. pagetable (procs s p))) (\<lambda>pt.
     bind (copyinstr pt uarg (unat PGSIZE)) (\<lambda>(r, bs).
     seq (modify (\<lambda>s. s\<lparr>mem := write_bytes (mem s) pg bs\<rparr>)) (
     ret (argv @ [pg], if r < 0 then Some True else None))))))))"

definition sys_exec :: "('m pmach_scheme, uint64) kern" where
  "sys_exec =
     bind (argaddr 1) (\<lambda>uargv.
     bind (argstr 0 MAXPATH) (\<lambda>path.
     case path of None \<Rightarrow> ret (-1) | Some path \<Rightarrow>
     bind (whileM (\<lambda>(_, out) _. out = None) (exec_fetch uargv) ([], None)) (\<lambda>(argv, out).
     if out = Some True then seq (for_each argv kfree) (ret (-1)) else
     bind (exec path argv) (\<lambda>r.
     seq (for_each argv kfree) (
     ret (word_of_int r))))))"

definition sys_pipe :: "('m pmach_scheme, uint64) kern" where
  "sys_pipe =
     bind curproc (\<lambda>p.
     bind (argaddr 0) (\<lambda>fdarray.
     bind pipealloc (\<lambda>r.
     case r of None \<Rightarrow> ret (-1) | Some (rf, wf') \<Rightarrow>
     bind (fdalloc rf) (\<lambda>fd0.
     bind (case fd0 of None \<Rightarrow> ret None | Some _ \<Rightarrow> fdalloc wf') (\<lambda>fd1.
     case (fd0, fd1) of
       (Some fd0, Some fd1) \<Rightarrow>
         bind (gets (\<lambda>s. pagetable (procs s p))) (\<lambda>pt.
         bind (copyout pt fdarray (le_bytes 4 (of_nat fd0 :: uint))) (\<lambda>r0.
         bind (if r0 < 0 then ret r0 else copyout pt (fdarray + 4) (le_bytes 4 (of_nat fd1 :: uint))) (\<lambda>r.
         if r < 0 then
           seq (modify (set_proc p (\<lambda>q. q\<lparr>ofile := (ofile q)(fd0 := None, fd1 := None)\<rparr>))) (
           seq (fileclose rf) (
           seq (fileclose wf') (
           ret (-1))))
         else ret 0)))
     | _ \<Rightarrow>
         seq (case fd0 of None \<Rightarrow> ret () | Some fd \<Rightarrow> modify (set_proc p (\<lambda>q. q\<lparr>ofile := (ofile q)(fd := None)\<rparr>))) (
         seq (fileclose rf) (
         seq (fileclose wf') (
         ret (-1)))))))))"

section \<open>Dispatch\<close>

definition syscalls :: "(nat \<times> ('m pmach_scheme, uint64) kern) list" where
  "syscalls = [
     (1, sys_fork),
     (2, sys_exit),
     (3, sys_wait),
     (4, sys_pipe),
     (5, sys_read),
     (6, sys_kill),
     (7, sys_exec),
     (8, sys_fstat),
     (9, sys_chdir),
     (10, sys_dup),
     (11, sys_getpid),
     (12, sys_sbrk),
     (13, sys_sleep),
     (14, sys_uptime),
     (15, sys_open),
     (16, sys_write),
     (17, sys_mknod),
     (18, sys_unlink),
     (19, sys_link),
     (20, sys_mkdir),
     (21, sys_close)]"

definition syscall :: "('m pmach_scheme, unit) kern" where
  "syscall =
     bind curproc (\<lambda>p.
     bind (tf_get p Tf_a7) (\<lambda>a7.
     let num = sint (ucast a7 :: uint) in
     bind (case (if num > 0 then map_of syscalls (nat num) else None) of
             Some f \<Rightarrow> f
           | None \<Rightarrow>
               bind (gets (\<lambda>s. procs s p)) (\<lambda>q.
               seq (printf (''%d %s: unknown sys call %d'' @ [CHR 0x0A])
                 [A_int (word_of_int (pid q)), A_str (Some (pname q)), A_int (word_of_int num)]) (
               ret (-1)))) (\<lambda>r.
     tf_set p Tf_a0 r)))"

end
