(* ===== verification/Trap.thy ===== *)
theory Trap
  imports Syscall
begin

text \<open>
  Traps and interrupts: \<^verbatim>\<open>kernel/trap.c\<close>, \<^verbatim>\<open>kernel/plic.c\<close>, the register functions of
  \<^verbatim>\<open>kernel/riscv.h\<close> they use, \<open>forkret\<close> of \<^verbatim>\<open>kernel/proc.c\<close>, \<^verbatim>\<open>kernel/start.c\<close> and
  \<^verbatim>\<open>kernel/main.c\<close>.  The assembly of \<^verbatim>\<open>trampoline.S\<close> and \<^verbatim>\<open>kernelvec.S\<close> is not modelled:
  \<open>usertrapret\<close> ends with the address it jumps to and the value it passes.
\<close>

section \<open>Registers\<close>

datatype csr = C_mstatus | C_mepc | C_sip | C_sie | C_mie | C_sepc | C_medeleg | C_mideleg | C_stvec | C_mtvec | C_pmpcfg0 | C_pmpaddr0 | C_mscratch | C_scause | C_stval | C_mcounteren | C_time | C_mhartid

record tmach = pmach +
  csrs :: "nat \<Rightarrow> csr \<Rightarrow> uint64"
  plic_regs :: "uint64 \<Rightarrow> uint"
  plic_claims :: "nat \<Rightarrow> uint list"
  clint :: "uint64 \<Rightarrow> uint64"
  timer_scratch :: "nat \<Rightarrow> nat \<Rightarrow> uint64"
  started :: bool

definition read_csr :: "csr \<Rightarrow> ('m tmach_scheme, uint64) kern" where
  "read_csr r = gets (\<lambda>s. csrs s (hart s) r)"

definition write_csr :: "csr \<Rightarrow> uint64 \<Rightarrow> ('m tmach_scheme, unit) kern" where
  "write_csr r x = modify (\<lambda>s. s\<lparr>csrs := (csrs s)(hart s := (csrs s (hart s))(r := x))\<rparr>)"

definition r_mstatus :: "('m tmach_scheme, uint64) kern" where "r_mstatus = read_csr C_mstatus"
definition w_mstatus :: "uint64 \<Rightarrow> ('m tmach_scheme, unit) kern" where "w_mstatus x = write_csr C_mstatus x"
definition w_mepc :: "uint64 \<Rightarrow> ('m tmach_scheme, unit) kern" where "w_mepc x = write_csr C_mepc x"
definition r_sip :: "('m tmach_scheme, uint64) kern" where "r_sip = read_csr C_sip"
definition w_sip :: "uint64 \<Rightarrow> ('m tmach_scheme, unit) kern" where "w_sip x = write_csr C_sip x"
definition r_sie :: "('m tmach_scheme, uint64) kern" where "r_sie = read_csr C_sie"
definition w_sie :: "uint64 \<Rightarrow> ('m tmach_scheme, unit) kern" where "w_sie x = write_csr C_sie x"
definition r_mie :: "('m tmach_scheme, uint64) kern" where "r_mie = read_csr C_mie"
definition w_mie :: "uint64 \<Rightarrow> ('m tmach_scheme, unit) kern" where "w_mie x = write_csr C_mie x"
definition r_sepc :: "('m tmach_scheme, uint64) kern" where "r_sepc = read_csr C_sepc"
definition w_sepc :: "uint64 \<Rightarrow> ('m tmach_scheme, unit) kern" where "w_sepc x = write_csr C_sepc x"
definition r_medeleg :: "('m tmach_scheme, uint64) kern" where "r_medeleg = read_csr C_medeleg"
definition w_medeleg :: "uint64 \<Rightarrow> ('m tmach_scheme, unit) kern" where "w_medeleg x = write_csr C_medeleg x"
definition r_mideleg :: "('m tmach_scheme, uint64) kern" where "r_mideleg = read_csr C_mideleg"
definition w_mideleg :: "uint64 \<Rightarrow> ('m tmach_scheme, unit) kern" where "w_mideleg x = write_csr C_mideleg x"
definition r_stvec :: "('m tmach_scheme, uint64) kern" where "r_stvec = read_csr C_stvec"
definition w_stvec :: "uint64 \<Rightarrow> ('m tmach_scheme, unit) kern" where "w_stvec x = write_csr C_stvec x"
definition w_mtvec :: "uint64 \<Rightarrow> ('m tmach_scheme, unit) kern" where "w_mtvec x = write_csr C_mtvec x"
definition w_pmpcfg0 :: "uint64 \<Rightarrow> ('m tmach_scheme, unit) kern" where "w_pmpcfg0 x = write_csr C_pmpcfg0 x"
definition w_pmpaddr0 :: "uint64 \<Rightarrow> ('m tmach_scheme, unit) kern" where "w_pmpaddr0 x = write_csr C_pmpaddr0 x"
definition w_mscratch :: "uint64 \<Rightarrow> ('m tmach_scheme, unit) kern" where "w_mscratch x = write_csr C_mscratch x"
definition r_scause :: "('m tmach_scheme, uint64) kern" where "r_scause = read_csr C_scause"
definition r_stval :: "('m tmach_scheme, uint64) kern" where "r_stval = read_csr C_stval"
definition r_mcounteren :: "('m tmach_scheme, uint64) kern" where "r_mcounteren = read_csr C_mcounteren"
definition w_mcounteren :: "uint64 \<Rightarrow> ('m tmach_scheme, unit) kern" where "w_mcounteren x = write_csr C_mcounteren x"
definition r_time :: "('m tmach_scheme, uint64) kern" where "r_time = read_csr C_time"
definition r_mhartid :: "('m tmach_scheme, uint64) kern" where "r_mhartid = read_csr C_mhartid"

definition r_sstatus :: "('m mach_scheme, uint64) kern" where
  "r_sstatus = gets (\<lambda>s. sstatus s (hart s))"

definition w_sstatus :: "uint64 \<Rightarrow> ('m mach_scheme, unit) kern" where
  "w_sstatus x = modify (\<lambda>s. s\<lparr>sstatus := (sstatus s)(hart s := x)\<rparr>)"

definition r_satp :: "('m vmach_scheme, uint64) kern" where
  "r_satp = gets (\<lambda>s. satp s (hart s))"

definition w_satp :: "uint64 \<Rightarrow> ('m vmach_scheme, unit) kern" where
  "w_satp x = modify (\<lambda>s. s\<lparr>satp := (satp s)(hart s := x)\<rparr>)"

definition r_tp :: "('m mach_scheme, uint64) kern" where
  "r_tp = gets (\<lambda>s. of_nat (hart s))"

definition w_tp :: "uint64 \<Rightarrow> ('m mach_scheme, unit) kern" where
  "w_tp x = modify (\<lambda>s. s\<lparr>hart := unat x\<rparr>)"

section \<open>The interrupt controller\<close>

definition UART0_IRQ :: nat where "UART0_IRQ = 10"
definition VIRTIO0_IRQ :: nat where "VIRTIO0_IRQ = 1"

definition PLIC_SENABLE :: "uint64 \<Rightarrow> uint64" where "PLIC_SENABLE h = PLIC + 0x2080 + h * 0x100"
definition PLIC_SPRIORITY :: "uint64 \<Rightarrow> uint64" where "PLIC_SPRIORITY h = PLIC + 0x201000 + h * 0x2000"
definition PLIC_SCLAIM :: "uint64 \<Rightarrow> uint64" where "PLIC_SCLAIM h = PLIC + 0x201004 + h * 0x2000"

definition plic_write :: "uint64 \<Rightarrow> uint \<Rightarrow> ('m tmach_scheme, unit) kern" where
  "plic_write a v = modify (\<lambda>s. s\<lparr>plic_regs := (plic_regs s)(a := v)\<rparr>)"

definition plicinit :: "('m tmach_scheme, unit) kern" where
  "plicinit =
     seq (plic_write (PLIC + of_nat UART0_IRQ * 4) 1) (
     plic_write (PLIC + of_nat VIRTIO0_IRQ * 4) 1)"

definition plicinithart :: "('m tmach_scheme, unit) kern" where
  "plicinithart =
     bind (gets cpuid) (\<lambda>h.
     seq (plic_write (PLIC_SENABLE (of_nat h)) (push_bit UART0_IRQ 1 OR push_bit VIRTIO0_IRQ 1)) (
     plic_write (PLIC_SPRIORITY (of_nat h)) 0))"

text \<open>\<open>plic_claims\<close> is what the controller will answer to this hart; it answers 0 when nothing is pending.\<close>

definition plic_claim :: "('m tmach_scheme, int) kern" where
  "plic_claim =
     bind (gets (\<lambda>s. plic_claims s (cpuid s))) (\<lambda>c.
     case c of
       [] \<Rightarrow> ret 0
     | irq # c \<Rightarrow> seq (modify (\<lambda>s. s\<lparr>plic_claims := (plic_claims s)(cpuid s := c)\<rparr>)) (ret (sint irq)))"

definition plic_complete :: "int \<Rightarrow> ('m tmach_scheme, unit) kern" where
  "plic_complete irq = bind (gets cpuid) (\<lambda>h. plic_write (PLIC_SCLAIM (of_nat h)) (word_of_int irq))"

section \<open>Traps\<close>

definition trapinit :: "('m tmach_scheme, unit) kern" where
  "trapinit = initlock L_ticks ''time''"

definition trapinithart :: "('m tmach_scheme, unit) kern" where
  "trapinithart = bind (gets (\<lambda>s. kaddr s K_kernelvec)) w_stvec"

definition clockintr :: "('m tmach_scheme, unit) kern" where
  "clockintr =
     seq (acquire L_ticks) (
     seq (modify (\<lambda>s. s\<lparr>ticks := ticks s + 1\<rparr>)) (
     seq (wakeup Ch_ticks) (
     release L_ticks)))"

definition devintr :: "('m tmach_scheme, int) kern" where
  "devintr =
     bind r_scause (\<lambda>scause.
     if scause AND 0x8000000000000000 \<noteq> 0 \<and> scause AND 0xff = 9 then
       bind plic_claim (\<lambda>irq.
       seq (if irq = int UART0_IRQ then uartintr
            else if irq = int VIRTIO0_IRQ then virtio_disk_intr
            else whenM (irq \<noteq> 0) (printf (''unexpected interrupt irq=%d'' @ [CHR 0x0A]) [A_int (word_of_int irq)])) (
       seq (whenM (irq \<noteq> 0) (plic_complete irq)) (
       ret 1)))
     else if scause = 0x8000000000000001 then
       bind (gets cpuid) (\<lambda>h.
       seq (whenM (h = 0) clockintr) (
       bind r_sip (\<lambda>x.
       seq (w_sip (x AND NOT 2)) (
       ret 2))))
     else ret 0)"

definition usertrapret :: "('m tmach_scheme, uint64 \<times> uint64) kern" where
  "usertrapret =
     bind curproc (\<lambda>p.
     seq intr_off (
     bind (gets (\<lambda>s. TRAMPOLINE + (kaddr s K_uservec - trampoline s))) (\<lambda>trampoline_uservec.
     seq (w_stvec trampoline_uservec) (
     bind r_satp (\<lambda>x.
     seq (tf_set p Tf_kernel_satp x) (
     bind (gets (\<lambda>s. kstack (procs s p))) (\<lambda>k.
     seq (tf_set p Tf_kernel_sp (k + PGSIZE)) (
     bind (gets (\<lambda>s. kaddr s K_usertrap)) (\<lambda>u.
     seq (tf_set p Tf_kernel_trap u) (
     bind r_tp (\<lambda>h.
     seq (tf_set p Tf_kernel_hartid h) (
     bind r_sstatus (\<lambda>x.
     seq (w_sstatus (x AND NOT SSTATUS_SPP OR SSTATUS_SPIE)) (
     bind (tf_get p Tf_epc) (\<lambda>epc.
     seq (w_sepc epc) (
     bind (gets (\<lambda>s. MAKE_SATP (pagetable (procs s p)))) (\<lambda>new_satp.
     gets (\<lambda>s. (TRAMPOLINE + (kaddr s K_userret - trampoline s), new_satp)))))))))))))))))))"

definition usertrap :: "('m tmach_scheme, uint64 \<times> uint64) kern" where
  "usertrap =
     bind r_sstatus (\<lambda>st.
     if st AND SSTATUS_SPP \<noteq> 0 then panic ''usertrap: not from user mode'' else
     bind (gets (\<lambda>s. kaddr s K_kernelvec)) (\<lambda>kv.
     seq (w_stvec kv) (
     bind curproc (\<lambda>p.
     bind r_sepc (\<lambda>epc.
     seq (tf_set p Tf_epc epc) (
     bind r_scause (\<lambda>cause.
     bind (if cause = 8 then
             bind (killed p) (\<lambda>k.
             seq (if k then exit (-1) else ret ()) (
             bind (tf_get p Tf_epc) (\<lambda>epc.
             seq (tf_set p Tf_epc (epc + 4)) (
             seq intr_on (
             seq syscall (
             ret 0))))))
           else
             bind devintr (\<lambda>which_dev.
             if which_dev \<noteq> 0 then ret which_dev else
             bind (gets (\<lambda>s. pid (procs s p))) (\<lambda>n.
             seq (printf (''usertrap(): unexpected scause %p pid=%d'' @ [CHR 0x0A]) [A_ptr cause, A_int (word_of_int n)]) (
             bind r_sepc (\<lambda>x.
             bind r_stval (\<lambda>y.
             seq (printf (''            sepc=%p stval=%p'' @ [CHR 0x0A]) [A_ptr x, A_ptr y]) (
             seq (setkilled p) (
             ret 0)))))))) (\<lambda>which_dev.
     bind (killed p) (\<lambda>k.
     seq (if k then exit (-1) else ret ()) (
     seq (whenM (which_dev = 2) yield) (
     usertrapret)))))))))))"

definition kerneltrap :: "('m tmach_scheme, unit) kern" where
  "kerneltrap =
     bind r_sepc (\<lambda>epc.
     bind r_sstatus (\<lambda>st.
     bind r_scause (\<lambda>cause.
     if st AND SSTATUS_SPP = 0 then panic ''kerneltrap: not from supervisor mode'' else
     bind (gets intr_get) (\<lambda>on.
     if on then panic ''kerneltrap: interrupts enabled'' else
     bind devintr (\<lambda>which_dev.
     if which_dev = 0 then
       seq (printf (''scause %p'' @ [CHR 0x0A]) [A_ptr cause]) (
       bind r_sepc (\<lambda>x.
       bind r_stval (\<lambda>y.
       seq (printf (''sepc=%p stval=%p'' @ [CHR 0x0A]) [A_ptr x, A_ptr y]) (
       panic ''kerneltrap''))))
     else
     bind (if which_dev = 2 then
             bind myproc (\<lambda>po.
             case po of None \<Rightarrow> ret False | Some p \<Rightarrow> gets (\<lambda>s. pstate (procs s p) = RUNNING))
           else ret False) (\<lambda>y.
     seq (whenM y yield) (
     seq (w_sepc epc) (
     w_sstatus st))))))))"

definition forkret :: "('m tmach_scheme, uint64 \<times> uint64) kern" where
  "forkret =
     bind curproc (\<lambda>p.
     seq (release (L_proc p)) (
     bind (gets forkret_first) (\<lambda>first.
     seq (whenM first (
       seq (modify (\<lambda>s. s\<lparr>forkret_first := False\<rparr>)) (
       fsinit ROOTDEV))) (
     usertrapret))))"

section \<open>Starting the machine\<close>

definition MSTATUS_MPP_MASK :: uint64 where "MSTATUS_MPP_MASK = push_bit 11 3"
definition MSTATUS_MPP_S :: uint64 where "MSTATUS_MPP_S = push_bit 11 1"
definition MSTATUS_MIE :: uint64 where "MSTATUS_MIE = push_bit 3 1"
definition SIE_SEIE :: uint64 where "SIE_SEIE = push_bit 9 1"
definition SIE_STIE :: uint64 where "SIE_STIE = push_bit 5 1"
definition SIE_SSIE :: uint64 where "SIE_SSIE = push_bit 1 1"
definition MIE_MTIE :: uint64 where "MIE_MTIE = push_bit 7 1"
definition CLINT_MTIMECMP :: "uint64 \<Rightarrow> uint64" where "CLINT_MTIMECMP h = CLINT + 0x4000 + 8 * h"
definition CLINT_MTIME :: uint64 where "CLINT_MTIME = CLINT + 0xBFF8"

text \<open>\<open>scratch\<close> is the address of \<^verbatim>\<open>timer_scratch[id]\<close>.\<close>

definition timerinit :: "uint64 \<Rightarrow> ('m tmach_scheme, unit) kern" where
  "timerinit scratch =
     bind r_mhartid (\<lambda>h.
     let interval = 1000000 in
     seq (modify (\<lambda>s. s\<lparr>clint := (clint s)(CLINT_MTIMECMP h := clint s CLINT_MTIME + interval)\<rparr>)) (
     seq (modify (\<lambda>s. s\<lparr>timer_scratch := (timer_scratch s)(unat h := (timer_scratch s (unat h))(3 := CLINT_MTIMECMP h, 4 := interval))\<rparr>)) (
     seq (w_mscratch scratch) (
     bind (gets (\<lambda>s. kaddr s K_timervec)) (\<lambda>tv.
     seq (w_mtvec tv) (
     bind r_mstatus (\<lambda>x.
     seq (w_mstatus (x OR MSTATUS_MIE)) (
     bind r_mie (\<lambda>x.
     w_mie (x OR MIE_MTIE))))))))))"

definition start :: "uint64 \<Rightarrow> ('m tmach_scheme, unit) kern" where
  "start scratch =
     bind r_mstatus (\<lambda>x.
     seq (w_mstatus (x AND NOT MSTATUS_MPP_MASK OR MSTATUS_MPP_S)) (
     bind (gets (\<lambda>s. kaddr s K_main)) (\<lambda>m.
     seq (w_mepc m) (
     seq (w_satp 0) (
     seq (w_medeleg 0xffff) (
     seq (w_mideleg 0xffff) (
     bind r_sie (\<lambda>x.
     seq (w_sie (x OR SIE_SEIE OR SIE_STIE OR SIE_SSIE)) (
     seq (w_pmpaddr0 0x3fffffffffffff) (
     seq (w_pmpcfg0 0xf) (
     seq (timerinit scratch) (
     bind r_mhartid (\<lambda>h.
     w_tp h)))))))))))))"

definition main :: "('m tmach_scheme, unit) kern" where
  "main =
     bind (gets cpuid) (\<lambda>h.
     seq (if h = 0 then
       seq consoleinit (
       seq printfinit (
       seq (printf [CHR 0x0A] []) (
       seq (printf (''xv6 kernel is booting'' @ [CHR 0x0A]) []) (
       seq (printf [CHR 0x0A] []) (
       seq kinit (
       seq kvminit (
       seq kvminithart (
       seq procinit (
       seq trapinit (
       seq trapinithart (
       seq plicinit (
       seq plicinithart (
       seq binit (
       seq iinit (
       seq fileinit (
       seq virtio_disk_init (
       seq userinit (
       modify (\<lambda>s. s\<lparr>started := True\<rparr>)))))))))))))))))))
     else
       seq (whileM (\<lambda>_ s. \<not> started s) (\<lambda>_. interfere) ()) (
       seq (printf (''hart %d starting'' @ [CHR 0x0A]) [A_int (of_nat h)]) (
       seq kvminithart (
       seq trapinithart (
       plicinithart))))) (
     scheduler))"

end
