(* ===== verification/Filedata.thy ===== *)
theory Filedata
  imports Path
begin

text \<open>
  What the file system's readers deliver: the bytes of a file through its direct and
  indirect blocks (\<^verbatim>\<open>bmap\<close>, \<^verbatim>\<open>readi\<close>), the inode table (\<^verbatim>\<open>iget\<close>), and the search of a
  directory (\<^verbatim>\<open>dirlookup\<close>).
\<close>

section \<open>The contents of a file\<close>

text \<open>The block of an inode's file with number \<open>bn\<close>, and the bytes of the file.\<close>

definition blk_of :: "(uint \<Rightarrow> uchar list) \<Rightarrow> inode \<Rightarrow> nat \<Rightarrow> uint" where
  "blk_of V i bn = (if bn < NDIRECT then i_addrs i bn else get32 (V (i_addrs i NDIRECT)) (4 * (bn - NDIRECT)))"

definition file_byte :: "(uint \<Rightarrow> uchar list) \<Rightarrow> inode \<Rightarrow> nat \<Rightarrow> uchar" where
  "file_byte V i off = V (blk_of V i (off div BSIZE)) ! (off mod BSIZE)"

definition file_bytes :: "(uint \<Rightarrow> uchar list) \<Rightarrow> inode \<Rightarrow> nat \<Rightarrow> nat \<Rightarrow> uchar list" where
  "file_bytes V i off n = map (file_byte V i) [off..<off + n]"

text \<open>Every block of the file has an address, and the process has none of them locked.\<close>

definition file_ok :: "(uint \<Rightarrow> uchar list) \<Rightarrow> (uint \<Rightarrow> bool) \<Rightarrow> inode \<Rightarrow> bool" where
  "file_ok V L i \<longleftrightarrow> unat (i_size i) \<le> MAXFILE * BSIZE \<and> (\<forall>bn. bn * BSIZE < unat (i_size i) \<longrightarrow>
     blk_of V i bn \<noteq> 0 \<and> unat (blk_of V i bn) < 2 ^ 31 \<and> \<not> L (blk_of V i bn) \<and>
     (NDIRECT \<le> bn \<longrightarrow> i_addrs i NDIRECT \<noteq> 0 \<and> unat (i_addrs i NDIRECT) < 2 ^ 31 \<and> \<not> L (i_addrs i NDIRECT)))"

lemma length_file_bytes [simp]: "length (file_bytes V i off n) = n"
  by (simp add: file_bytes_def)

lemma file_bytes_append: "file_bytes V i off m @ file_bytes V i (off + m) n = file_bytes V i off (m + n)"
  using upt_add_eq_append [of off "off + m" n] by (simp add: file_bytes_def add.assoc flip: map_append)

lemma file_bytes_peek:
  assumes "length (V (blk_of V i (off div BSIZE))) = BSIZE" "off mod BSIZE + m \<le> BSIZE"
  shows "peek (V (blk_of V i (off div BSIZE))) (off mod BSIZE) m = file_bytes V i off m"
proof (rule nth_equalityI)
  show "length (peek (V (blk_of V i (off div BSIZE))) (off mod BSIZE) m) = length (file_bytes V i off m)"
    using assms by (simp add: peek_def)
  fix j assume "j < length (peek (V (blk_of V i (off div BSIZE))) (off mod BSIZE) m)"
  then have j: "j < m" using assms by (simp add: peek_def)
  then have lt: "off mod BSIZE + j < BSIZE" using assms(2) by simp
  have "off + j = off mod BSIZE + j + off div BSIZE * BSIZE" by simp
  then have "(off + j) div BSIZE = off div BSIZE" "(off + j) mod BSIZE = off mod BSIZE + j"
    using lt by (metis add_0_right div_less div_mult_self1 gr_implies_not0, metis mod_less mod_mult_self1)
  then show "peek (V (blk_of V i (off div BSIZE))) (off mod BSIZE) m ! j = file_bytes V i off m ! j"
    using assms j by (simp add: peek_def file_bytes_def file_byte_def)
qed

section \<open>Finding a block\<close>

lemma bmap_run:
  assumes "txn d p s V L D" "virtio_blk dev" "logged s + card {x. L x} < NBUF" "i = itable s ip" "i_dev i = d"
    and "file_ok V L i" "bn * BSIZE < unat (i_size i)"
  shows "disk_run (serve dev p) 1 (bmap ip (of_nat bn)) s (unchanged D) (\<lambda>r t. r = blk_of V i bn \<and> txn d p t V L D \<and> advances 0 s t \<and>
    (\<forall>b' x. held d p s b' x \<longrightarrow> held d p t b' x))"
proof -
  have ok: "unat (i_size i) \<le> MAXFILE * BSIZE" "blk_of V i bn \<noteq> 0"
    "NDIRECT \<le> bn \<Longrightarrow> i_addrs i NDIRECT \<noteq> 0 \<and> unat (i_addrs i NDIRECT) < 2 ^ 31 \<and> \<not> L (i_addrs i NDIRECT)"
    using assms(6,7) unfolding file_ok_def by blast+
  have bn: "bn < MAXFILE" using ok(1) assms(7) by (simp add: BSIZE_def)
  then have un: "unat (of_nat bn :: uint) = bn" by (simp add: unat_of_nat MAXFILE_def NDIRECT_def NINDIRECT_def BSIZE_def)
  show ?thesis
  proof (cases "bn < NDIRECT")
    case True
    then show ?thesis
      using ok(2) assms(1) unfolding bmap_def disk_run_bind_gets assms(4) [symmetric] un by (simp add: blk_of_def)
  next
    case False
    let ?ind = "i_addrs i NDIRECT"
    have nd: "?ind \<noteq> 0" "unat ?ind < 2 ^ 31" "\<not> L ?ind" using ok(3) False by auto
    have lt: "bn - NDIRECT < NINDIRECT" using bn False by (simp add: MAXFILE_def)
    have L: "(L(?ind := True))(?ind := False) = L" using nd(3) by (simp add: fun_upd_idem)
    have blk: "get32 (V ?ind) (4 * (bn - NDIRECT)) = blk_of V i bn" using False by (simp add: blk_of_def)
    show ?thesis
      unfolding bmap_def disk_run_bind_gets assms(4) [symmetric] un if_not_P [OF False] Let_def if_P [OF lt] if_P [OF nd(1)]
        disk_run_after_ret if_not_P [OF nd(1)] assms(5) One_nat_def
    proof (rule txn_bread [OF assms(1,2) nd(3) assms(3) nd(2)], goal_cases)
      case (1 bp t)
      note st = 1
      have "listed (lg_lh (log t)) ?ind \<or> V ?ind = D ?ind"
        using txnD(4) [OF assms(1), of ?ind] nd(3) advancesD(3) [OF st(3), of ?ind] by auto
      then show ?case
        unfolding disk_run_bind_gets txn_value [OF st(2,1)] blk if_P [OF ok(2)] disk_run_after_ret
      proof (rule txn_brelse [OF st(2,1)], goal_cases)
        case (1 u)
        have "held d p u b' x" if "held d p s b' x" for b' x
          using 1(3) st(4) that txn_held [OF assms(1) that] nd(3) by metis
        then show ?case using 1(1) advances_trans [OF st(3) 1(2)] unfolding L by simp
      qed
    qed
  qed
qed

section \<open>Reading\<close>

definition put_local :: "nat \<Rightarrow> uchar list \<Rightarrow> (nat \<Rightarrow> uchar) \<Rightarrow> nat \<Rightarrow> uchar" where
  "put_local a bs k = (\<lambda>j. if a \<le> j \<and> j < a + length bs then bs ! (j - a) else k j)"

lemma put_local_append: "put_local (a + length x) y (put_local a x k) = put_local a (x @ y) k"
  by (auto simp: put_local_def fun_eq_iff nth_append)

lemma put_local_Nil [simp]: "put_local a [] k = k"
  by (auto simp: put_local_def fun_eq_iff)

lemma txn_klocal [simp]: "txn d p (s\<lparr>klocal := k\<rparr>) V L D = txn d p s V L D"
  using cache_cong [of p "s\<lparr>klocal := k\<rparr>" s d] by (simp add: txn_def)

lemma held_klocal [simp]: "held d p (s\<lparr>klocal := k\<rparr>) = held d p s"
  by (rule held_cong) simp_all

lemma advances_klocal:
  assumes "advances j s t"
  shows "advances j (s\<lparr>klocal := k\<rparr>) (t\<lparr>klocal := k\<rparr>)"
proof -
  from assms have "tframe s t" by (simp add: advances_def)
  then obtain a1 a2 a3 a4 a5 a6 where
    t: "t = s\<lparr>sleeplocks := a1, vmmio := a2, vdisk := a3, bufs := a4, sectors := a5, log := a6\<rparr>"
      "lg_start (log t) = lg_start (log s)" "lg_outstanding (log t) = lg_outstanding (log s)"
    by (rule tframeE)
  have "t\<lparr>klocal := k\<rparr> = (s\<lparr>klocal := k\<rparr>)\<lparr>sleeplocks := a1, vmmio := a2, vdisk := a3, bufs := a4, sectors := a5, log := a6\<rparr>"
    unfolding t(1) by simp
  moreover have "log t = a6" unfolding t(1) by simp
  ultimately have "tframe (s\<lparr>klocal := k\<rparr>) (t\<lparr>klocal := k\<rparr>)"
    using t(2,3) by (simp add: tframe_def)
  then show ?thesis using assms by (simp add: advances_def logged_def)
qed

lemma advances_itable:
  assumes "advances j s t"
  shows "advances j (s\<lparr>itable := k\<rparr>) (t\<lparr>itable := k\<rparr>)"
proof -
  from assms have "tframe s t" by (simp add: advances_def)
  then obtain a1 a2 a3 a4 a5 a6 where
    t: "t = s\<lparr>sleeplocks := a1, vmmio := a2, vdisk := a3, bufs := a4, sectors := a5, log := a6\<rparr>"
      "lg_start (log t) = lg_start (log s)" "lg_outstanding (log t) = lg_outstanding (log s)"
    by (rule tframeE)
  have "t\<lparr>itable := k\<rparr> = (s\<lparr>itable := k\<rparr>)\<lparr>sleeplocks := a1, vmmio := a2, vdisk := a3, bufs := a4, sectors := a5, log := a6\<rparr>"
    unfolding t(1) by simp
  moreover have "log t = a6" unfolding t(1) by simp
  ultimately have "tframe (s\<lparr>itable := k\<rparr>) (t\<lparr>itable := k\<rparr>)"
    using t(2,3) by (simp add: tframe_def)
  then show ?thesis using assms by (simp add: advances_def logged_def)
qed

text \<open>One turn of \<open>readi\<close> at offset \<open>off\<close>, with \<open>m\<close> bytes to the end of the block or of the request.\<close>

lemma readi_turn:
  assumes "txn d p s V L D" "virtio_blk dev" "Suc (logged s + card {x. L x}) < NBUF" "i = itable s ip" "i_dev i = d" "file_ok V L i"
    and off: "unat off < unat (i_size i)" "unat m = min (unat (n - tot)) (BSIZE - unat off mod BSIZE)"
      "m = min (n - tot) (of_nat BSIZE - off mod of_nat BSIZE)"
  shows "disk_run (serve dev p) 2 (readi_step ip n (tot, off, Local a, False)) s (unchanged D) (\<lambda>r t.
    r = (tot + m, off + m, Local (a + unat m), False) \<and> txn d p t V L D \<and>
    klocal t = put_local a (file_bytes V i (unat off) (unat m)) (klocal s) \<and> advances 0 (s\<lparr>klocal := klocal t\<rparr>) t)"
proof -
  let ?bn = "unat off div BSIZE" and ?blk = "blk_of V i (unat off div BSIZE)"
  have le: "?bn * BSIZE < unat (i_size i)" using off(1) div_times_less_eq_dividend [of "unat off" BSIZE] by linarith
  have blk: "?blk \<noteq> 0" "unat ?blk < 2 ^ 31" "\<not> L ?blk" using assms(6) le unfolding file_ok_def by blast+
  have B: "unat (of_nat BSIZE :: uint) = BSIZE" by (simp add: BSIZE_def unat_of_nat)
  have div: "off div of_nat BSIZE = of_nat ?bn" by (simp add: word_arith_nat_div B)
  have mod: "unat (off mod of_nat BSIZE) = unat off mod BSIZE" by (simp add: unat_mod B)
  have bytes: "peek (V ?blk) (unat off mod BSIZE) (unat m) = file_bytes V i (unat off) (unat m)"
    using txn_length [OF assms(1) blk(2)] off(2) mod_less_divisor [of BSIZE "unat off"]
    by (intro file_bytes_peek) (auto simp: BSIZE_def)
  have L: "(L(?blk := True))(?blk := False) = L" using blk(3) by (simp add: fun_upd_idem)
  let ?post = "\<lambda>r t. r = (tot + m, off + m, Local (a + unat m), False) \<and> txn d p t V L D \<and>
    klocal t = put_local a (file_bytes V i (unat off) (unat m)) (klocal s) \<and> advances 0 (s\<lparr>klocal := klocal t\<rparr>) t"
  have "disk_run (serve dev p) (1 + 1) (readi_step ip n (tot, off, Local a, False)) s (unchanged D) ?post"
    unfolding readi_step_def prod.case div
  proof (rule disk_run_bind, rule disk_run_conseq [OF bmap_run [OF assms(1,2) _ assms(4-6) le]], goal_cases)
    case (2 r t)
    then have t: "r = ?blk" "txn d p t V L D" "advances 0 s t" by auto
    have it: "i_dev (itable t ip) = d" using tframe_imach(2) [OF advancesD(1) [OF t(3)]] assms(4,5) by simp
    show ?case
      unfolding t(1) if_not_P [OF blk(1)] disk_run_bind_gets it One_nat_def Let_def off(3) [symmetric] mod
    proof (rule txn_bread [OF t(2) assms(2) blk(3) _ blk(2)], goal_cases)
      case (2 bp u)
      note tu = 2
      define k where "k = put_local a (file_bytes V i (unat off) (unat m)) (klocal u)"
      have tt: "touched (u\<lparr>klocal := x\<rparr>) = u\<lparr>klocal := x\<rparr>" for x
        using txnD(5) [OF tu(2)] by (intro calm_touched [of p]) simp
      have cp: "either_copyout (Local a) (file_bytes V i (unat off) (unat m)) u e = Ok 0 (u\<lparr>klocal := k\<rparr>) e" for e
        using calmD(2,4) [OF txnD(5) [OF tu(2)]] by (simp add: either_copyout_def k_def put_local_def tt calm_touched [OF txnD(5) [OF tu(2)]])
      have z: "\<not> (0 :: int) = - 1" by simp
      have su: "advances 0 s u" using advances_trans [OF t(3) tu(3)] by simp
      have ls: "listed (lg_lh (log u)) ?blk \<or> V ?blk = D ?blk"
        using txnD(4) [OF assms(1), of ?blk] blk(3) advancesD(3) [OF su, of ?blk] by auto
      have "disk_run (serve dev p) 0 (seq (brelse bp) (ret (tot + m, off + m, addr_add (Local a) (unat m), False))) (u\<lparr>klocal := k\<rparr>) (unchanged D) ?post"
      proof (rule txn_brelse [where s = "u\<lparr>klocal := k\<rparr>" and b = bp and bno = ?blk and V = V and L = "L(?blk := True)" and D = D and d = d and p = p], goal_cases)
        case (4 v)
        have "klocal v = k" using tframeD(4) [OF advancesD(1) [OF 4(2)]] by simp
        moreover have "k = put_local a (file_bytes V i (unat off) (unat m)) (klocal s)"
          using tframeD(4) [OF advancesD(1) [OF su]] by (simp add: k_def)
        ultimately show ?case
          using 4(1) advances_trans [OF advances_klocal [OF su, of k] 4(2)] unfolding L by simp
      qed (use tu ls in simp_all)
      then show ?case
        unfolding disk_run_bind_gets txn_value [OF tu(2,1)] bytes
        by (intro disk_run_bind_eq [where x = 0 and t = "u\<lparr>klocal := k\<rparr>"] cp) (simp only: if_not_P [OF z])
    qed (use assms(3) advancesD(2) [OF t(3)] in simp)
  qed (use assms(3) in simp)
  then show ?thesis by (simp add: numeral_2_eq_2)
qed

lemma unat_min: "unat (min x y) = min (unat x) (unat y)"
  by (simp add: min_def word_le_nat_alt)

lemma chunk_unat: "unat (min (n - tot) (of_nat BSIZE - off mod of_nat BSIZE) :: uint) = min (unat (n - tot)) (BSIZE - unat off mod BSIZE)"
proof -
  have B: "unat (of_nat BSIZE :: uint) = BSIZE" by (simp add: BSIZE_def unat_of_nat)
  then have mod: "unat (off mod of_nat BSIZE) = unat off mod BSIZE" by (simp add: unat_mod)
  moreover have "unat off mod BSIZE \<le> BSIZE" by (simp add: BSIZE_def)
  ultimately have "unat (of_nat BSIZE - off mod of_nat BSIZE) = BSIZE - unat off mod BSIZE"
    using B by (simp add: unat_sub word_le_nat_alt)
  then show ?thesis by (simp add: unat_min)
qed

lemma readi_loop:
  assumes "txn d p s V L D" "virtio_blk dev" "Suc (logged s + card {x. L x}) < NBUF" "i = itable s ip" "i_dev i = d" "file_ok V L i"
    and n: "unat off + unat n \<le> unat (i_size i)"
  shows "disk_run (serve dev p) (unat n * 2) (whileM (\<lambda>(tot, off, dst, stop) _. \<not> stop \<and> tot < n) (readi_step ip n) (0, off, Local a, False)) s (unchanged D)
    (\<lambda>(tot, _) t. tot = n \<and> txn d p t V L D \<and> klocal t = put_local a (file_bytes V i (unat off) (unat n)) (klocal s) \<and>
      advances 0 (s\<lparr>klocal := klocal t\<rparr>) t)"
proof -
  define I where "I = (\<lambda>(tot :: uint, off', dst, stop) t. \<not> stop \<and> unat tot \<le> unat n \<and> off' = off + tot \<and> dst = Local (a + unat tot) \<and>
    txn d p t V L D \<and> klocal t = put_local a (file_bytes V i (unat off) (unat tot)) (klocal s) \<and> advances 0 (s\<lparr>klocal := klocal t\<rparr>) t)"
  let ?m = "\<lambda>(tot :: uint, off' :: uint, dst :: addr, stop :: bool) (t :: 'a imach_scheme). unat n - unat tot"
  have "disk_run (serve dev p) (?m (0, off, Local a, False) s * 2) (whileM (\<lambda>(tot, off, dst, stop) _. \<not> stop \<and> tot < n) (readi_step ip n) (0, off, Local a, False)) s (unchanged D)
    (\<lambda>(tot, _) t. tot = n \<and> txn d p t V L D \<and> klocal t = put_local a (file_bytes V i (unat off) (unat n)) (klocal s) \<and>
      advances 0 (s\<lparr>klocal := klocal t\<rparr>) t)"
  proof (rule disk_run_while [where I = I and m = ?m], goal_cases)
    case 1
    show ?case using assms(1) by (simp add: I_def file_bytes_def)
  next
    case (2 x t)
    obtain tot off' dst stop where x: "x = (tot, off', dst, stop)" by (cases x)
    have t: "stop = False" "unat tot < unat n" "off' = off + tot" "dst = Local (a + unat tot)" "txn d p t V L D"
      "klocal t = put_local a (file_bytes V i (unat off) (unat tot)) (klocal s)" "advances 0 (s\<lparr>klocal := klocal t\<rparr>) t"
      using 2 unfolding I_def x prod.case word_less_nat_alt by blast+
    have it: "i = itable t ip" using tframe_imach(2) [OF advancesD(1) [OF t(7)]] assms(4) by simp
    have lg: "logged t \<le> logged s" using advancesD(2) [OF t(7)] by (simp add: logged_def)
    have "unat (i_size i) < 2 ^ LENGTH(32)" by (rule unsigned_less)
    then have off': "unat off' = unat off + unat tot"
      using t(2) n unfolding t(3) by (subst unat_plus_if') simp
    define m where "m = min (n - tot) (of_nat BSIZE - off' mod of_nat BSIZE)"
    have nt: "unat (n - tot) = unat n - unat tot" using t(2) by (simp add: unat_sub word_le_nat_alt)
    have um: "unat m = min (unat n - unat tot) (BSIZE - unat off' mod BSIZE)" unfolding m_def chunk_unat nt ..
    moreover have "unat off' mod BSIZE < BSIZE" by (simp add: BSIZE_def)
    ultimately have m: "0 < unat m" "unat tot + unat m \<le> unat n" using t(2) by auto
    have tm: "unat (tot + m) = unat tot + unat m"
    proof -
      have "unat n < 2 ^ LENGTH(32)" by (rule unsigned_less)
      then show ?thesis using m(2) by (subst unat_plus_if') simp
    qed
    have "disk_run (serve dev p) 2 (readi_step ip n (tot, off', Local (a + unat tot), False)) t (unchanged D) (\<lambda>r u.
      r = (tot + m, off' + m, Local (a + unat tot + unat m), False) \<and> txn d p u V L D \<and>
      klocal u = put_local (a + unat tot) (file_bytes V i (unat off') (unat m)) (klocal t) \<and> advances 0 (t\<lparr>klocal := klocal u\<rparr>) u)"
      using assms(3) lg t(2) n off' um nt
      by (intro readi_turn [OF t(5) assms(2) _ it assms(5,6) _ _ m_def]) simp_all
    then show ?case
      unfolding x t(1,4)
    proof (rule disk_run_conseq, elim conjE)
      fix r u assume u: "r = (tot + m, off' + m, Local (a + unat tot + unat m), False)" "txn d p u V L D"
        "klocal u = put_local (a + unat tot) (file_bytes V i (unat off') (unat m)) (klocal t)" "advances 0 (t\<lparr>klocal := klocal u\<rparr>) u"
      have "klocal u = put_local a (file_bytes V i (unat off) (unat tot + unat m)) (klocal s)"
        using put_local_append [of a "file_bytes V i (unat off) (unat tot)" "file_bytes V i (unat off') (unat m)" "klocal s"] u(3) t(6)
        by (simp add: off' file_bytes_append)
      moreover have "advances 0 (s\<lparr>klocal := klocal u\<rparr>) u"
        using advances_trans [OF advances_klocal [OF t(7), of "klocal u"] u(4)] by simp
      ultimately show "I r u \<and> ?m r u < ?m (tot, off', Local (a + unat tot), False) t"
        using u(1,2) m tm t(3) by (simp add: I_def add.assoc)
    qed
  next
    case (3 x t)
    then show ?case by (auto simp: I_def word_less_nat_alt word_unat_eq_iff)
  qed
  then show ?thesis by simp
qed

text \<open>How many bytes \<open>readi\<close> delivers: none past the end of the file, and none if the range wraps around.\<close>

definition read_count :: "inode \<Rightarrow> uint \<Rightarrow> uint \<Rightarrow> nat" where
  "read_count i off n = (if unat (i_size i) < unat off \<or> 2 ^ 32 \<le> unat off + unat n then 0 else min (unat n) (unat (i_size i) - unat off))"

lemma sint_small:
  fixes x :: uint
  assumes "unat x < 2 ^ 31"
  shows "sint x = int (unat x)"
proof -
  have u: "uint x = int (unat x)" by (rule uint_nat)
  have "int (unat x) < int (2 ^ 31)" using assms by (simp only: of_nat_less_iff)
  then have "uint x < 2 ^ 31" unfolding u by (simp only: of_nat_power of_nat_numeral)
  moreover have "- (2 ^ 31) \<le> uint x" by (rule order_trans [of _ 0]) simp_all
  ultimately have "signed_take_bit 31 (uint x) = uint x" by (intro signed_take_bit_int_eq_self)
  moreover have "sint x = signed_take_bit (LENGTH(32) - Suc 0) (uint x)" by (rule sint_uint)
  ultimately show ?thesis unfolding u by simp
qed

lemma readi_run:
  assumes "txn d p s V L D" "virtio_blk dev" "Suc (logged s + card {x. L x}) < NBUF" "i = itable s ip" "i_dev i = d" "file_ok V L i"
    and m: "m = read_count i off n"
  shows "disk_run (serve dev p) (m * 2) (readi ip (Local a) off n) s (unchanged D) (\<lambda>r t. r = int m \<and> txn d p t V L D \<and>
    klocal t = put_local a (file_bytes V i (unat off) m) (klocal s) \<and> advances 0 (s\<lparr>klocal := klocal t\<rparr>) t)"
proof -
  have sz: "unat (i_size i) < 2 ^ 31"
    using assms(6) by (simp add: file_ok_def MAXFILE_def NDIRECT_def NINDIRECT_def BSIZE_def)
  have wrap: "off + n < off \<longleftrightarrow> 2 ^ 32 \<le> unat off + unat n"
  proof -
    have "unat n < 2 ^ LENGTH(32)" by (rule unsigned_less)
    then show ?thesis by (cases "unat off + unat n < 2 ^ 32") (simp_all add: word_less_nat_alt unat_plus_if')
  qed
  show ?thesis
  proof (cases "off > i_size i \<or> off + n < off")
    case True
    then have "m = 0" using m wrap by (simp add: read_count_def word_less_nat_alt)
    then show ?thesis
      using True assms(1,4) unfolding readi_def disk_run_bind_gets by (simp add: file_bytes_def)
  next
    case False
    define n' where "n' = (if off + n > i_size i then i_size i - off else n)"
    have un: "unat n' = m" "unat off + m \<le> unat (i_size i)"
    proof -
      have "unat off \<le> unat (i_size i)" "unat off + unat n < 2 ^ 32" using False wrap by (auto simp: word_less_nat_alt)
      moreover from this have "unat (off + n) = unat off + unat n" by (simp add: unat_plus_if')
      ultimately show "unat n' = m" "unat off + m \<le> unat (i_size i)"
        unfolding m n'_def read_count_def by (auto simp: word_less_nat_alt word_le_nat_alt unat_sub min_def)
    qed
    have "disk_run (serve dev p) (unat n' * 2 + 0) (bind (whileM (\<lambda>(tot, off, dst, stop) _. \<not> stop \<and> tot < n') (readi_step ip n')
        (0, off, Local a, False)) (\<lambda>(tot, _). ret (sint tot))) s (unchanged D) (\<lambda>r t. r = int m \<and> txn d p t V L D \<and>
      klocal t = put_local a (file_bytes V i (unat off) m) (klocal s) \<and> advances 0 (s\<lparr>klocal := klocal t\<rparr>) t)"
      using readi_loop [OF assms(1-6), of off n' a] un sint_small [of n'] sz
      by (intro disk_run_bind) (auto elim!: disk_run_conseq)
    then show ?thesis
      unfolding readi_def disk_run_bind_gets assms(4) [symmetric] if_not_P [OF False] Let_def n'_def [symmetric] un(1) by simp
  qed
qed

section \<open>The inode table\<close>

definition itable_find :: "(nat \<Rightarrow> inode) \<Rightarrow> uint \<Rightarrow> uint \<Rightarrow> nat option" where
  "itable_find T dev inum = find (\<lambda>i. i_ref (T i) > 0 \<and> i_dev (T i) = dev \<and> i_inum (T i) = inum) [0..<NINODE]"

text \<open>No two entries in use are the same inode, and no count is negative.\<close>

definition itable_ok :: "(nat \<Rightarrow> inode) \<Rightarrow> bool" where
  "itable_ok T \<longleftrightarrow> (\<forall>i < NINODE. 0 \<le> i_ref (T i)) \<and> (\<forall>i < NINODE. \<forall>j < NINODE. i_ref (T i) > 0 \<longrightarrow> i_ref (T j) > 0 \<longrightarrow>
     i_dev (T i) = i_dev (T j) \<longrightarrow> i_inum (T i) = i_inum (T j) \<longrightarrow> i = j)"

text \<open>What \<open>iget\<close> does to the table: the entry it returns, and the new table.\<close>

definition iget_spec :: "uint \<Rightarrow> uint \<Rightarrow> (nat \<Rightarrow> inode) \<Rightarrow> nat \<Rightarrow> (nat \<Rightarrow> inode) \<Rightarrow> bool" where
  "iget_spec dev inum T ip T' \<longleftrightarrow> ip < NINODE \<and> i_dev (T' ip) = dev \<and> i_inum (T' ip) = inum \<and>
     (\<forall>j. j \<noteq> ip \<longrightarrow> T' j = T j) \<and>
     (if \<exists>i < NINODE. i_ref (T i) > 0 \<and> i_dev (T i) = dev \<and> i_inum (T i) = inum
      then i_ref (T ip) > 0 \<and> T' ip = (T ip)\<lparr>i_ref := i_ref (T ip) + 1\<rparr>
      else i_ref (T ip) = 0 \<and> i_ref (T' ip) = 1 \<and> \<not> i_valid (T' ip))"

lemma iget_run:
  assumes "calm p s" "itable_find (itable s) dev inum = None \<Longrightarrow> \<exists>i < NINODE. i_ref (itable s i) = 0"
  shows "\<exists>ip T. (\<forall>e. iget dev inum s e = Ok ip (s\<lparr>itable := T\<rparr>) e) \<and> iget_spec dev inum (itable s) ip T"
proof (cases "itable_find (itable s) dev inum")
  case (Some ip)
  let ?T = "(itable s)(ip := (itable s ip)\<lparr>i_ref := i_ref (itable s ip) + 1\<rparr>)"
  have ip: "ip < NINODE" "i_ref (itable s ip) > 0" "i_dev (itable s ip) = dev" "i_inum (itable s ip) = inum"
    using Some by (auto simp: itable_find_def find_Some_iff)
  have "iget dev inum s e = Ok ip (s\<lparr>itable := ?T\<rparr>) e" for e
  proof -
    have t: "touched (s\<lparr>itable := ?T\<rparr>) = s\<lparr>itable := ?T\<rparr>" using assms(1) by (intro calm_touched [of p]) simp
    show ?thesis
      using calmD(2,3) [OF assms(1)]
      by (simp add: iget_def acquire_run Some [unfolded itable_find_def] set_inode_def t)
  qed
  moreover have "iget_spec dev inum (itable s) ip ?T" using ip by (auto simp: iget_spec_def)
  ultimately show ?thesis by blast
next
  case None
  obtain ip where f: "find (\<lambda>i. i_ref (itable s i) = 0) [0..<NINODE] = Some ip"
    using assms(2) [OF None] by (cases "find (\<lambda>i. i_ref (itable s i) = 0) [0..<NINODE]") (auto simp: find_None_iff)
  then have ip: "ip < NINODE" "i_ref (itable s ip) = 0" by (auto simp: find_Some_iff)
  let ?T = "(itable s)(ip := (itable s ip)\<lparr>i_dev := dev, i_inum := inum, i_ref := 1, i_valid := False\<rparr>)"
  have "iget dev inum s e = Ok ip (s\<lparr>itable := ?T\<rparr>) e" for e
  proof -
    have t: "touched (s\<lparr>itable := ?T\<rparr>) = s\<lparr>itable := ?T\<rparr>" using assms(1) by (intro calm_touched [of p]) simp
    show ?thesis
      using calmD(2,3) [OF assms(1)]
      by (simp add: iget_def acquire_run None [unfolded itable_find_def] f set_inode_def t)
  qed
  moreover have "iget_spec dev inum (itable s) ip ?T"
    using ip None by (auto simp: iget_spec_def itable_find_def find_None_iff)
  ultimately show ?thesis by blast
qed

lemma iget_spec_ok:
  assumes "itable_ok T" "iget_spec dev inum T ip T'"
  shows "itable_ok T'"
proof -
  have sp: "ip < NINODE" "i_dev (T' ip) = dev" "i_inum (T' ip) = inum" "\<And>j. j \<noteq> ip \<Longrightarrow> T' j = T j" "0 < i_ref (T' ip)"
    using assms(2) by (auto simp: iget_spec_def split: if_splits)
  have other: "j = ip" if "j < NINODE" "i_ref (T j) > 0" "i_dev (T j) = dev" "i_inum (T j) = inum" for j
  proof -
    have "\<exists>i < NINODE. i_ref (T i) > 0 \<and> i_dev (T i) = dev \<and> i_inum (T i) = inum" using that by blast
    then have "i_ref (T ip) > 0" "T' ip = (T ip)\<lparr>i_ref := i_ref (T ip) + 1\<rparr>" using assms(2) by (auto simp: iget_spec_def)
    then have "i_dev (T ip) = dev" "i_inum (T ip) = inum" using sp(2,3) by auto
    then show ?thesis using assms(1) that sp(1) \<open>i_ref (T ip) > 0\<close> unfolding itable_ok_def by blast
  qed
  show ?thesis
    unfolding itable_ok_def
  proof (intro conjI allI impI)
    fix i assume "i < NINODE"
    then show "0 \<le> i_ref (T' i)" using assms(1) sp(4) [of i] sp(5) unfolding itable_ok_def by (cases "i = ip") auto
  next
    fix i j assume a: "i < NINODE" "j < NINODE" "0 < i_ref (T' i)" "0 < i_ref (T' j)" "i_dev (T' i) = i_dev (T' j)" "i_inum (T' i) = i_inum (T' j)"
    show "i = j"
    proof (cases "i = ip \<or> j = ip")
      case True
      then show ?thesis using a sp other [of i] other [of j] by metis
    next
      case False
      then show ?thesis using a sp(4) [of i] sp(4) [of j] assms(1) unfolding itable_ok_def by auto
    qed
  qed
qed

lemma iget_full:
  assumes "calm p s" "itable_find (itable s) dev inum = None" "\<forall>i < NINODE. i_ref (itable s i) \<noteq> 0"
  shows "iget dev inum s e = Panic ''iget: no inodes''"
proof -
  have f: "find (\<lambda>i. i_ref (itable s i) = 0) [0..<NINODE] = None" using assms(3) by (auto simp: find_None_iff)
  show ?thesis
    using calmD(2,3) [OF assms(1)] by (simp add: iget_def acquire_run assms(2) [unfolded itable_find_def] f)
qed


section \<open>Looking up a name\<close>

definition dir_entry :: "(uint \<Rightarrow> uchar list) \<Rightarrow> inode \<Rightarrow> nat \<Rightarrow> dirent" where
  "dir_entry V i k = get_dirent (file_bytes V i (16 * k) 16)"

text \<open>The first entry of a directory with a name.\<close>

definition dir_find :: "(uint \<Rightarrow> uchar list) \<Rightarrow> inode \<Rightarrow> uchar list \<Rightarrow> nat option" where
  "dir_find V i name = find (\<lambda>k. de_inum (dir_entry V i k) \<noteq> 0 \<and> cname (de_name (dir_entry V i k)) = cname name) [0..<unat (i_size i) div 16]"

lemma txn_itable [simp]: "txn d p (s\<lparr>itable := T\<rparr>) V L D = txn d p s V L D"
  using cache_cong [of p "s\<lparr>itable := T\<rparr>" s d] by (simp add: txn_def)

lemma local_put_local: "length bs = n \<Longrightarrow> klocal t = put_local 0 bs k \<Longrightarrow> local_bytes 0 n t = bs"
  by (intro nth_equalityI) (simp_all add: local_bytes_def put_local_def)

lemma dirlookup_turn:
  assumes "txn d p s V L D" "virtio_blk dev" "Suc (logged s + card {x. L x}) < NBUF" "i = itable s dp" "i_dev i = d" "file_ok V L i"
    and "off = of_nat (16 * k)" "16 * Suc k \<le> unat (i_size i)" "\<exists>j < NINODE. i_ref (itable s j) = 0"
  shows "disk_run (serve dev p) 32 (dirlookup_step dp name (off, None)) s (unchanged D) (\<lambda>r t. txn d p t V L D \<and>
    (if de_inum (dir_entry V i k) \<noteq> 0 \<and> cname (de_name (dir_entry V i k)) = cname name
     then \<exists>ip. r = (off, Some ip) \<and> iget_spec d (ucast (de_inum (dir_entry V i k))) (itable s) ip (itable t) \<and>
       advances 0 (s\<lparr>klocal := klocal t, itable := itable t\<rparr>) t
     else r = (off + 16, None) \<and> advances 0 (s\<lparr>klocal := klocal t\<rparr>) t))"
proof -
  let ?de = "dir_entry V i k"
  have "unat (i_size i) < 2 ^ 31"
    using assms(6) by (simp add: file_ok_def MAXFILE_def NDIRECT_def NINDIRECT_def BSIZE_def)
  then have off: "unat off = 16 * k" using assms(7,8) by (simp add: unat_of_nat del: of_nat_mult)
  then have m: "16 = read_count i off 16" using assms(8) \<open>unat (i_size i) < 2 ^ 31\<close> by (simp add: read_count_def)
  have "disk_run (serve dev p) (16 * 2 + 0) (dirlookup_step dp name (off, None)) s (unchanged D) (\<lambda>r t. txn d p t V L D \<and>
    (if de_inum ?de \<noteq> 0 \<and> cname (de_name ?de) = cname name
     then \<exists>ip. r = (off, Some ip) \<and> iget_spec d (ucast (de_inum ?de)) (itable s) ip (itable t) \<and>
       advances 0 (s\<lparr>klocal := klocal t, itable := itable t\<rparr>) t
     else r = (off + 16, None) \<and> advances 0 (s\<lparr>klocal := klocal t\<rparr>) t))"
    unfolding dirlookup_step_def prod.case
  proof (rule disk_run_bind, rule disk_run_conseq [OF readi_run [OF assms(1-6) m]], elim conjE, goal_cases)
    case (1 r t)
    have de: "get_dirent (local_bytes 0 16 t) = ?de"
      unfolding dir_entry_def off [symmetric] using 1(3) by (subst local_put_local) simp_all
    have it: "itable t = itable s" using tframe_imach(2) [OF advancesD(1) [OF 1(4)]] by simp
    have cmp: "de_inum ?de = 0 \<or> namecmp name (de_name ?de) \<noteq> 0 \<longleftrightarrow> \<not> (de_inum ?de \<noteq> 0 \<and> cname (de_name ?de) = cname name)"
      by (auto simp: namecmp_iff)
    show ?case
    proof (cases "de_inum ?de \<noteq> 0 \<and> cname (de_name ?de) = cname name")
      case False
      then show ?thesis using 1 by (simp add: de cmp)
    next
      case True
      have d: "i_dev (itable t dp) = d" using it assms(4,5) by simp
      obtain ip T where ig: "\<And>e. iget d (ucast (de_inum ?de)) t e = Ok ip (t\<lparr>itable := T\<rparr>) e"
        "iget_spec d (ucast (de_inum ?de)) (itable s) ip T"
        using iget_run [OF txnD(5) [OF 1(2)]] assms(9) unfolding it by blast
      have "advances 0 (s\<lparr>klocal := klocal t, itable := T\<rparr>) (t\<lparr>itable := T\<rparr>)"
        by (rule advances_itable [OF 1(4)])
      then have "disk_run (serve dev p) 0 (bind (iget d (ucast (de_inum ?de))) (\<lambda>ip. ret (off, Some ip))) t (unchanged D)
        (\<lambda>r t. txn d p t V L D \<and> (\<exists>ip. r = (off, Some ip) \<and> iget_spec d (ucast (de_inum ?de)) (itable s) ip (itable t) \<and>
          advances 0 (s\<lparr>klocal := klocal t, itable := itable t\<rparr>) t))"
        using 1(2) ig(2) by (intro disk_run_bind_eq [where x = ip and t = "t\<lparr>itable := T\<rparr>"] ig(1)) simp
      then show ?thesis using 1(1) True by (simp add: de namecmp_iff d)
    qed
  qed
  then show ?thesis by simp
qed

lemma dirlookup_run:
  assumes "txn d p s V L D" "virtio_blk dev" "Suc (logged s + card {x. L x}) < NBUF" "i = itable s dp" "i_dev i = d" "file_ok V L i"
    and "i_type i = T_DIR" "16 dvd unat (i_size i)" "\<exists>j < NINODE. i_ref (itable s j) = 0"
  shows "disk_run (serve dev p) (unat (i_size i) * 2) (dirlookup dp name) s (unchanged D) (\<lambda>r t. txn d p t V L D \<and>
    (case dir_find V i name of
       None \<Rightarrow> r = None \<and> itable t = itable s
     | Some k \<Rightarrow> \<exists>ip. r = Some (ip, of_nat (16 * k)) \<and> iget_spec d (ucast (de_inum (dir_entry V i k))) (itable s) ip (itable t)) \<and>
    advances 0 (s\<lparr>klocal := klocal t, itable := itable t\<rparr>) t)"
proof -
  let ?hit = "\<lambda>k. de_inum (dir_entry V i k) \<noteq> 0 \<and> cname (de_name (dir_entry V i k)) = cname name"
  let ?n = "unat (i_size i) div 16"
  have n: "unat (i_size i) = 16 * ?n" using assms(8) by simp
  define I where "I = (\<lambda>(off :: uint, found) t. txn d p t V L D \<and> (\<exists>k. off = of_nat (16 * k) \<and> k \<le> ?n \<and> (\<forall>j < k. \<not> ?hit j) \<and>
    (case found of
       None \<Rightarrow> advances 0 (s\<lparr>klocal := klocal t\<rparr>) t
     | Some ip \<Rightarrow> k < ?n \<and> ?hit k \<and> iget_spec d (ucast (de_inum (dir_entry V i k))) (itable s) ip (itable t) \<and>
        advances 0 (s\<lparr>klocal := klocal t, itable := itable t\<rparr>) t)))"
  let ?m = "\<lambda>(off :: uint, found :: nat option) (t :: 'a imach_scheme). if found = None then ?n - unat off div 16 else 0"
  have sz: "unat (i_size i) < 2 ^ 31"
    using assms(6) by (simp add: file_ok_def MAXFILE_def NDIRECT_def NINDIRECT_def BSIZE_def)
  have un: "unat (of_nat (16 * k) :: uint) = 16 * k" if "k \<le> ?n" for k using that n sz by (simp add: unat_of_nat del: of_nat_mult)
  let ?post = "\<lambda>(off :: uint, found) t. txn d p t V L D \<and>
    (case dir_find V i name of
       None \<Rightarrow> found = None \<and> itable t = itable s
     | Some k \<Rightarrow> \<exists>ip. off = of_nat (16 * k) \<and> found = Some ip \<and> iget_spec d (ucast (de_inum (dir_entry V i k))) (itable s) ip (itable t)) \<and>
    advances 0 (s\<lparr>klocal := klocal t, itable := itable t\<rparr>) t"
  have "disk_run (serve dev p) (?m (0, None) s * 32) (whileM (\<lambda>(off, found) s. found = None \<and> off < i_size (itable s dp)) (dirlookup_step dp name) (0, None))
    s (unchanged D) ?post"
  proof (rule disk_run_while [where I = I and m = ?m], goal_cases)
    case 1
    show ?case using assms(1) by (auto simp: I_def intro!: exI [of _ 0])
  next
    case (2 x t)
    obtain off where x: "x = (off, None)" using 2(2) by (cases x) auto
    obtain k where k: "txn d p t V L D" "off = of_nat (16 * k)" "k \<le> ?n" "\<forall>j < k. \<not> ?hit j" "advances 0 (s\<lparr>klocal := klocal t\<rparr>) t"
      using 2(1) unfolding I_def x by auto
    have it: "itable t = itable s" using tframe_imach(2) [OF advancesD(1) [OF k(5)]] by simp
    have lt: "k < ?n" using 2(2) un [OF k(3)] n k(2) it assms(4) by (simp add: x word_less_nat_alt)
    have lg: "logged t \<le> logged s" using advancesD(2) [OF k(5)] by (simp add: logged_def)
    have off: "unat off div 16 = k" "unat (off + 16) div 16 = Suc k" "off + 16 = of_nat (16 * Suc k)"
      using un [OF k(3)] un [of "Suc k"] lt k(2) by (simp_all add: algebra_simps)
    show ?case
      unfolding x
    proof (rule disk_run_conseq [OF dirlookup_turn [OF k(1) assms(2) _ _ assms(5,6) k(2)]], goal_cases)
      case (5 r u)
      show ?case
      proof (cases "?hit k")
        case True
        then obtain ip where r: "r = (off, Some ip)" "iget_spec d (ucast (de_inum (dir_entry V i k))) (itable t) ip (itable u)"
          "advances 0 (t\<lparr>klocal := klocal u, itable := itable u\<rparr>) u" "txn d p u V L D" using 5 by auto
        have "advances 0 (s\<lparr>klocal := klocal u, itable := itable u\<rparr>) u"
          using advances_trans [OF advances_itable [OF advances_klocal [OF k(5), of "klocal u"], of "itable u"] r(3)] by simp
        then show ?thesis using r k True lt it off(1) by (auto simp: I_def)
      next
        case False
        then have r: "r = (off + 16, None)" "advances 0 (t\<lparr>klocal := klocal u\<rparr>) u" "txn d p u V L D" using 5 by auto
        have "advances 0 (s\<lparr>klocal := klocal u\<rparr>) u"
          using advances_trans [OF advances_klocal [OF k(5), of "klocal u"] r(2)] by simp
        then have "I r u" using r(1,3) k(4) False lt off(3) unfolding I_def r(1) by (auto simp: less_Suc_eq intro!: exI [of _ "Suc k"])
        then show ?thesis using r(1) lt off by simp
      qed
    qed (use assms(3,4,9) lg it lt n in auto)
  next
    case (3 x t)
    obtain off found where x: "x = (off, found)" by (cases x)
    obtain k where k: "txn d p t V L D" "off = of_nat (16 * k)" "k \<le> ?n" "\<forall>j < k. \<not> ?hit j"
      "case found of
         None \<Rightarrow> advances 0 (s\<lparr>klocal := klocal t\<rparr>) t
       | Some ip \<Rightarrow> k < ?n \<and> ?hit k \<and> iget_spec d (ucast (de_inum (dir_entry V i k))) (itable s) ip (itable t) \<and>
          advances 0 (s\<lparr>klocal := klocal t, itable := itable t\<rparr>) t"
      using 3(1) unfolding I_def x by blast
    show ?case
    proof (cases found)
      case None
      then have a: "advances 0 (s\<lparr>klocal := klocal t\<rparr>) t" using k(5) by simp
      have it: "itable t = itable s" using tframe_imach(2) [OF advancesD(1) [OF a]] by simp
      have "k = ?n" using 3(2) None un [OF k(3)] k(2,3) it assms(4) n by (simp add: x word_less_nat_alt)
      then have "dir_find V i name = None" using k(4) by (auto simp: dir_find_def find_None_iff)
      then show ?thesis using None it a k(1) by (simp add: x)
    next
      case (Some ip)
      then have "dir_find V i name = Some k"
        using k(4,5) unfolding dir_find_def find_Some_iff by (intro exI [of _ k]) auto
      then show ?thesis using Some k by (simp add: x)
    qed
  qed
  then have "disk_run (serve dev p) (?m (0, None) s * 32 + 0) (bind (whileM (\<lambda>(off, found) s. found = None \<and> off < i_size (itable s dp))
      (dirlookup_step dp name) (0, None)) (\<lambda>(off, found). ret (map_option (\<lambda>ip. (ip, off)) found))) s (unchanged D) (\<lambda>r t. txn d p t V L D \<and>
    (case dir_find V i name of
       None \<Rightarrow> r = None \<and> itable t = itable s
     | Some k \<Rightarrow> \<exists>ip. r = Some (ip, of_nat (16 * k)) \<and> iget_spec d (ucast (de_inum (dir_entry V i k))) (itable s) ip (itable t)) \<and>
    advances 0 (s\<lparr>klocal := klocal t, itable := itable t\<rparr>) t)"
    by (intro disk_run_bind) (elim disk_run_conseq, auto split: option.splits)
  moreover have "?m (0, None) s * 32 + 0 = unat (i_size i) * 2" using n by simp
  moreover have "\<not> i_type (itable s dp) \<noteq> T_DIR" using assms(4,7) by simp
  ultimately show ?thesis
    unfolding dirlookup_def disk_run_bind_gets by (simp only: if_False)
qed

text \<open>
  C6: \<^verbatim>\<open>dirlookup\<close> searches a directory.  It returns the offset of the first entry with
  the name and the table entry of the inode the directory names there, with one more
  reference; if there is none it returns 0 and the inode table is as before.  It never
  writes: the blocks, the log and the disk stay as they are.
\<close>

theorem dirlookup_finds_first:
  assumes "txn d p s V L D" "virtio_blk dev" "Suc (logged s + card {x. L x}) < NBUF" "i_dev (itable s dp) = d" "file_ok V L (itable s dp)"
    and "i_type (itable s dp) = T_DIR" "16 dvd unat (i_size (itable s dp))" "\<exists>j < NINODE. i_ref (itable s j) = 0"
  shows "disk_run (serve dev p) (unat (i_size (itable s dp)) * 2) (dirlookup dp name) s (unchanged D) (\<lambda>r t. txn d p t V L D \<and>
    (case dir_find V (itable s dp) name of
       None \<Rightarrow> r = None \<and> itable t = itable s
     | Some k \<Rightarrow> \<exists>ip. r = Some (ip, of_nat (16 * k)) \<and>
         iget_spec d (ucast (de_inum (dir_entry V (itable s dp) k))) (itable s) ip (itable t)))"
  by (rule disk_run_conseq [OF dirlookup_run [OF assms(1-3) refl assms(4-8)]]) simp

text \<open>
  C5: \<^verbatim>\<open>readi\<close> delivers the bytes of the file: those at the offset, through the direct
  and the indirect blocks, as many as were asked for or as the file has, none past
  its end, and none if offset and length wrap around.
\<close>

theorem readi_delivers:
  assumes "txn d p s V L D" "virtio_blk dev" "Suc (logged s + card {x. L x}) < NBUF" "i_dev (itable s ip) = d" "file_ok V L (itable s ip)"
    and "m = read_count (itable s ip) off n"
  shows "disk_run (serve dev p) (m * 2) (readi ip (Local a) off n) s (unchanged D) (\<lambda>r t. r = int m \<and> txn d p t V L D \<and>
    local_bytes a m t = file_bytes V (itable s ip) (unat off) m \<and> (\<forall>j. j < a \<or> a + m \<le> j \<longrightarrow> klocal t j = klocal s j))"
proof (rule disk_run_conseq [OF readi_run [OF assms(1-3) refl assms(4-6)]], elim conjE, intro conjI)
  fix r and t :: "'a imach_scheme" assume t: "klocal t = put_local a (file_bytes V (itable s ip) (unat off) m) (klocal s)"
  show "local_bytes a m t = file_bytes V (itable s ip) (unat off) m"
    unfolding t local_bytes_def by (rule nth_equalityI) (simp_all add: put_local_def)
  show "\<forall>j. j < a \<or> a + m \<le> j \<longrightarrow> klocal t j = klocal s j" unfolding t by (simp add: put_local_def)
qed

section \<open>An example directory\<close>

text \<open>Block 50 holds a directory with one entry, inode 7 under the name \<open>a\<close>; table entry 3 is the directory.\<close>

definition dboot_sectors :: "nat \<Rightarrow> uchar list" where
  "dboot_sectors = iboot_sectors(100 := [7, 0, 97] @ replicate 509 0)"

definition dboot_inode :: inode where
  "dboot_inode = \<lparr>i_dev = 1, i_inum = 1, i_ref = 1, i_valid = True, i_type = T_DIR, i_major = 0, i_minor = 0, i_nlink = 1, i_size = 32,
     i_addrs = (\<lambda>_. 0)(0 := 50)\<rparr>"

definition dboot_sector :: "uchar list" where
  "dboot_sector = [7, 0, 97] @ replicate 509 0"

lemma dboot_block: "disk_view dboot_sectors 50 = dboot_sector @ replicate 512 0"
  by (simp add: disk_view_def get_block_def sector_of_def dboot_sectors_def iboot_sectors_def dboot_sector_def)

lemma dboot_bytes: "n \<le> 512 \<Longrightarrow> file_bytes (disk_view dboot_sectors) dboot_inode 0 n = take n dboot_sector"
proof (rule nth_equalityI)
  have len: "length dboot_sector = 512" by (simp add: dboot_sector_def)
  assume n: "n \<le> 512"
  then show "length (file_bytes (disk_view dboot_sectors) dboot_inode 0 n) = length (take n dboot_sector)" by (simp add: len)
  fix j assume "j < length (file_bytes (disk_view dboot_sectors) dboot_inode 0 n)"
  then show "file_bytes (disk_view dboot_sectors) dboot_inode 0 n ! j = take n dboot_sector ! j"
    using n by (simp add: file_bytes_def file_byte_def blk_of_def dboot_inode_def NDIRECT_def BSIZE_def dboot_block nth_append len)
qed

lemma dboot_ok: "file_ok (disk_view dboot_sectors) (\<lambda>_. False) dboot_inode"
  by (auto simp: file_ok_def blk_of_def dboot_inode_def NDIRECT_def NINDIRECT_def MAXFILE_def BSIZE_def)

lemma dboot_find: "dir_find (disk_view dboot_sectors) dboot_inode [97] = Some 0"
proof -
  have "dir_entry (disk_view dboot_sectors) dboot_inode 0 = \<lparr>de_inum = 7, de_name = 97 # replicate 13 0\<rparr>"
    by (simp add: dir_entry_def dboot_bytes dboot_sector_def get_dirent_def get16_def peek_def le_word_def DIRSIZ_def)
  then show ?thesis
    by (simp add: dir_find_def dboot_inode_def cname_def DIRSIZ_def upt_rec)
qed

lemma dboot_txn:
  "\<exists>s :: imach. txn 1 0 s (disk_view dboot_sectors) (\<lambda>_. False) (disk_view dboot_sectors) \<and> itable s 3 = dboot_inode \<and>
     i_ref (itable s 0) = 0 \<and> logged s = 0"
  using iboot_txn [of dboot_sectors "(itable iboot)(3 := dboot_inode)"]
  by (fastforce simp: dboot_sectors_def iboot_sectors_def iboot_def lmach.defs imach.defs)

theorem readi_delivers_witness:
  "\<exists>(s :: imach) t e. readi 3 (Local 0) 0 4 s (replicate 8 (serve blk_device 0)) = Ok 4 t e \<and> local_bytes 0 4 t = [7, 0, 97, 0]"
proof -
  obtain s :: imach where s: "txn 1 0 s (disk_view dboot_sectors) (\<lambda>_. False) (disk_view dboot_sectors)" "itable s 3 = dboot_inode"
    "logged s = 0" using dboot_txn by blast
  have m: "4 = read_count (itable s 3) 0 4" by (simp add: s(2) read_count_def dboot_inode_def)
  have "disk_run (serve blk_device 0) (4 * 2) (readi 3 (Local 0) 0 4) s (unchanged (disk_view dboot_sectors)) (\<lambda>r t. r = int 4 \<and>
    txn 1 0 t (disk_view dboot_sectors) (\<lambda>_. False) (disk_view dboot_sectors) \<and>
    local_bytes 0 4 t = file_bytes (disk_view dboot_sectors) (itable s 3) (unat (0 :: uint)) 4 \<and>
    (\<forall>j. j < 0 \<or> 0 + 4 \<le> j \<longrightarrow> klocal t j = klocal s j))"
    by (rule readi_delivers [OF s(1) virtio_blk_device _ _ _ m]) (use s dboot_ok in \<open>simp_all add: dboot_inode_def NBUF_def MAXOPBLOCKS_def\<close>)
  from disk_run_returns [OF this, of 8] show ?thesis
    unfolding s(2) by (auto simp: dboot_bytes dboot_sector_def)
qed

theorem dirlookup_finds_first_witness:
  "\<exists>(s :: imach) t e ip. dirlookup 3 [97] s (replicate 64 (serve blk_device 0)) = Ok (Some (ip, 0)) t e"
proof -
  obtain s :: imach where s: "txn 1 0 s (disk_view dboot_sectors) (\<lambda>_. False) (disk_view dboot_sectors)" "itable s 3 = dboot_inode"
    "logged s = 0" "i_ref (itable s 0) = 0" using dboot_txn by blast
  have free: "\<exists>j < NINODE. i_ref (itable s j) = 0" using s(4) by (intro exI [of _ 0]) (simp add: NINODE_def)
  have "disk_run (serve blk_device 0) (unat (i_size (itable s 3)) * 2) (dirlookup 3 [97]) s (unchanged (disk_view dboot_sectors)) (\<lambda>r t.
    txn 1 0 t (disk_view dboot_sectors) (\<lambda>_. False) (disk_view dboot_sectors) \<and>
    (case dir_find (disk_view dboot_sectors) (itable s 3) [97] of
       None \<Rightarrow> r = None \<and> itable t = itable s
     | Some k \<Rightarrow> \<exists>ip. r = Some (ip, of_nat (16 * k)) \<and>
         iget_spec 1 (ucast (de_inum (dir_entry (disk_view dboot_sectors) (itable s 3) k))) (itable s) ip (itable t)))"
    by (rule dirlookup_finds_first [OF s(1) virtio_blk_device _ _ _ _ _ free])
      (use s dboot_ok in \<open>simp_all add: dboot_inode_def NBUF_def MAXOPBLOCKS_def\<close>)
  moreover have "unat (i_size (itable s 3)) * 2 \<le> 64" by (simp add: s(2) dboot_inode_def)
  ultimately show ?thesis using disk_run_returns [of "serve blk_device 0" "unat (i_size (itable s 3)) * 2" "dirlookup 3 [97]" s _ _ 64]
    unfolding s(2) dboot_find option.case by fastforce
qed


end
