(* ===== verification/Grep.thy ===== *)
theory Grep
  imports Prelude
begin

text \<open>
  \<^verbatim>\<open>user/grep.c\<close>: the line loop of \<^verbatim>\<open>grep\<close> and the matcher for patterns with
  \<^verbatim>\<open>^ . * $\<close>.  A C string is a list of its characters, so \<^verbatim>\<open>*p == 0\<close> is \<open>p = []\<close> and
  \<^verbatim>\<open>p+1\<close> is the tail.  The bytes that \<^verbatim>\<open>read\<close> delivers are a list of pieces of any
  sizes; a call with room for \<open>n\<close> bytes takes at most \<open>n\<close> of the next piece.
\<close>

section \<open>The matcher\<close>

text \<open>
  \<open>matchhere\<close> and \<open>matchstar\<close> call each other: the first with a shorter pattern
  or text, the second first with the same text, then with its tail.
\<close>

function matchhere :: "string \<Rightarrow> string \<Rightarrow> bool"
  and matchstar :: "char \<Rightarrow> string \<Rightarrow> string \<Rightarrow> bool" where
  "matchhere [] tx = True"
| "matchhere (c # re) tx =
     (if re \<noteq> [] \<and> hd re = CHR ''*'' then matchstar c (tl re) tx
      else if c = CHR ''$'' \<and> re = [] then tx = []
      else if tx \<noteq> [] \<and> (c = CHR ''.'' \<or> c = hd tx) then matchhere re (tl tx)
      else False)"
| "matchstar c re tx =
     (if matchhere re tx then True
      else if tx \<noteq> [] \<and> (hd tx = c \<or> c = CHR ''.'') then matchstar c re (tl tx)
      else False)"
  by pat_completeness auto
termination
  by (relation "measures [\<lambda>x. case x of Inl (re, t) \<Rightarrow> length re | Inr (c, re, t) \<Rightarrow> length re,
        \<lambda>x. case x of Inl (re, t) \<Rightarrow> length t | Inr (c, re, t) \<Rightarrow> length t,
        \<lambda>x. case x of Inl _ \<Rightarrow> 0 | Inr _ \<Rightarrow> 1]") auto

fun match_from :: "string \<Rightarrow> string \<Rightarrow> bool" where
  "match_from re tx =
     (if matchhere re tx then True else if tx \<noteq> [] then match_from re (tl tx) else False)"

definition match :: "string \<Rightarrow> string \<Rightarrow> bool" where
  "match re tx =
     (if re \<noteq> [] \<and> hd re = CHR ''^'' then matchhere (tl re) tx else match_from re tx)"

declare match_from.simps [simp del]

section \<open>The line loop\<close>

definition NL :: char where "NL = CHR 0x0A"
definition NUL :: char where "NUL = CHR 0x00"

text \<open>
  The inner loop: while \<^verbatim>\<open>strchr(p, '\n')\<close> finds a newline (before any NUL), the
  line is matched, written with its newline if it matches, and skipped.
\<close>

fun grep_lines :: "string \<Rightarrow> string \<Rightarrow> string \<Rightarrow> string \<times> string" where
  "grep_lines pattern p out =
     (let line = takeWhile (\<lambda>c. c \<noteq> NL \<and> c \<noteq> NUL) p; q = drop (length line) p in
      if q \<noteq> [] \<and> hd q = NL
      then grep_lines pattern (tl q) (if match pattern line then out @ line @ [NL] else out)
      else (out, p))"

declare grep_lines.simps [simp del]

text \<open>
  The outer loop, with the \<open>m\<close> buffered bytes as \<open>buf\<close>: \<^verbatim>\<open>read\<close> is asked for
  \<^verbatim>\<open>sizeof(buf)-m-1\<close> bytes, and the loop ends when it gives none.
\<close>

function grep :: "string \<Rightarrow> string \<Rightarrow> string \<Rightarrow> string list \<Rightarrow> string" where
  "grep pattern buf out [] = out"
| "grep pattern buf out (c # cs) =
     (let space = 1024 - length buf - 1; got = take space c; rest = drop space c in
      if got = [] then out
      else let (out', p) = grep_lines pattern (buf @ got) out
           in grep pattern p out' (if rest = [] then cs else rest # cs))"
  by pat_completeness auto
termination
  by (relation "measure (\<lambda>(pattern, buf, out, cs). length (concat cs) + length cs)") auto

section \<open>The language of a pattern\<close>

text \<open>
  A pattern is a list of items, a character that matches itself (\<^verbatim>\<open>.\<close> matches
  any) or a starred one, and a flag for a final \<^verbatim>\<open>$\<close>.  \<open>lang\<close> is the set of the
  strings the items match, by concatenation.
\<close>

datatype item = One char | Star char

definition accepts :: "char \<Rightarrow> char \<Rightarrow> bool" where
  "accepts c x \<longleftrightarrow> c = CHR ''.'' \<or> c = x"

fun items :: "string \<Rightarrow> item list \<times> bool" where
  "items [] = ([], False)"
| "items [c] = (if c = CHR ''$'' then ([], True) else ([One c], False))"
| "items (c # d # re) =
     (if d = CHR ''*'' then apfst (Cons (Star c)) (items re) else apfst (Cons (One c)) (items (d # re)))"

fun lang :: "item list \<Rightarrow> string set" where
  "lang [] = {[]}"
| "lang (One c # is) = {x # w |x w. accepts c x \<and> w \<in> lang is}"
| "lang (Star c # is) = {v @ w |v w. (\<forall>x \<in> set v. accepts c x) \<and> w \<in> lang is}"

text \<open>\<open>text\<close> starts with a word of the pattern, which is all of it when the pattern ends in \<^verbatim>\<open>$\<close>.\<close>

definition matches_at :: "string \<Rightarrow> string \<Rightarrow> bool" where
  "matches_at re tx \<longleftrightarrow> (\<exists>w rest. tx = w @ rest \<and> w \<in> lang (fst (items re)) \<and> (snd (items re) \<longrightarrow> rest = []))"

lemma matches_at_Nil: "matches_at [] tx"
  by (simp add: matches_at_def)

lemma matches_at_end: "matches_at [CHR ''$''] tx \<longleftrightarrow> tx = []"
  by (auto simp: matches_at_def)

lemma matches_at_one:
  assumes "re = [] \<Longrightarrow> c \<noteq> CHR ''$''" "re \<noteq> [] \<Longrightarrow> hd re \<noteq> CHR ''*''"
  shows "matches_at (c # re) tx \<longleftrightarrow> (\<exists>x t. tx = x # t \<and> accepts c x \<and> matches_at re t)"
proof -
  have "items (c # re) = apfst (Cons (One c)) (items re)"
    using assms by (cases re) auto
  then have L: "fst (items (c # re)) = One c # fst (items re)" "snd (items (c # re)) = snd (items re)"
    by simp_all
  show ?thesis
  proof
    assume "matches_at (c # re) tx"
    then obtain w rest where "tx = w @ rest" "w \<in> lang (One c # fst (items re))"
      "snd (items re) \<longrightarrow> rest = []"
      unfolding matches_at_def L by blast
    moreover then obtain x v where "w = x # v" "accepts c x" "v \<in> lang (fst (items re))" by auto
    ultimately have "tx = x # (v @ rest) \<and> accepts c x \<and> matches_at re (v @ rest)"
      unfolding matches_at_def by auto
    then show "\<exists>x t. tx = x # t \<and> accepts c x \<and> matches_at re t" by blast
  next
    assume "\<exists>x t. tx = x # t \<and> accepts c x \<and> matches_at re t"
    then obtain x w rest where "tx = (x # w) @ rest" "x # w \<in> lang (One c # fst (items re))"
      "snd (items re) \<longrightarrow> rest = []"
      unfolding matches_at_def by auto
    then show "matches_at (c # re) tx" unfolding matches_at_def L by blast
  qed
qed

lemma matches_at_star:
  "matches_at (c # CHR ''*'' # re) tx \<longleftrightarrow>
     (\<exists>v t. tx = v @ t \<and> (\<forall>x \<in> set v. accepts c x) \<and> matches_at re t)"
proof -
  have L: "fst (items (c # CHR ''*'' # re)) = Star c # fst (items re)"
    "snd (items (c # CHR ''*'' # re)) = snd (items re)"
    by simp_all
  show ?thesis
  proof
    assume "matches_at (c # CHR ''*'' # re) tx"
    then obtain w rest where "tx = w @ rest" "w \<in> lang (Star c # fst (items re))"
      "snd (items re) \<longrightarrow> rest = []"
      unfolding matches_at_def L by blast
    moreover then obtain v u where "w = v @ u" "\<forall>x \<in> set v. accepts c x" "u \<in> lang (fst (items re))"
      by auto
    ultimately have "tx = v @ (u @ rest) \<and> (\<forall>x \<in> set v. accepts c x) \<and> matches_at re (u @ rest)"
      unfolding matches_at_def by auto
    then show "\<exists>v t. tx = v @ t \<and> (\<forall>x \<in> set v. accepts c x) \<and> matches_at re t" by blast
  next
    assume "\<exists>v t. tx = v @ t \<and> (\<forall>x \<in> set v. accepts c x) \<and> matches_at re t"
    then obtain v w rest where *: "tx = v @ w @ rest" "\<forall>x \<in> set v. accepts c x"
      "w \<in> lang (fst (items re))" "snd (items re) \<longrightarrow> rest = []"
      unfolding matches_at_def by blast
    then have "tx = (v @ w) @ rest" "v @ w \<in> lang (Star c # fst (items re))" by auto
    with *(4) show "matches_at (c # CHR ''*'' # re) tx" unfolding matches_at_def L by blast
  qed
qed

lemma star_unfold:
  "(\<exists>v t. tx = v @ t \<and> (\<forall>x \<in> set v. accepts c x) \<and> P t) \<longleftrightarrow>
     P tx \<or> (\<exists>x t. tx = x # t \<and> accepts c x \<and> (\<exists>v u. t = v @ u \<and> (\<forall>x \<in> set v. accepts c x) \<and> P u))"
  (is "?L \<longleftrightarrow> ?R")
proof
  assume ?L
  then obtain v t where v: "tx = v @ t" "\<forall>x \<in> set v. accepts c x" "P t" by blast
  then show ?R by (cases v) auto
next
  assume ?R
  then show ?L
  proof
    assume "P tx"
    then have "tx = [] @ tx \<and> (\<forall>x \<in> set []. accepts c x) \<and> P tx" by simp
    then show ?L by blast
  next
    assume "\<exists>x t. tx = x # t \<and> accepts c x \<and> (\<exists>v u. t = v @ u \<and> (\<forall>x \<in> set v. accepts c x) \<and> P u)"
    then obtain x v u where "tx = (x # v) @ u" "\<forall>y \<in> set (x # v). accepts c y" "P u" by auto
    then show ?L by blast
  qed
qed

declare matchhere.simps [simp del] matchstar.simps [simp del]

lemma matchhere_matchstar_lang:
  "matchhere re tx \<longleftrightarrow> matches_at re tx"
  "matchstar c re' tx' \<longleftrightarrow> (\<exists>v t. tx' = v @ t \<and> (\<forall>x \<in> set v. accepts c x) \<and> matches_at re' t)"
proof (induction re tx and c re' tx' rule: matchhere_matchstar.induct)
  case (1 tx)
  then show ?case by (simp add: matches_at_Nil matchhere.simps)
next
  case (2 c re tx)
  show ?case
  proof (cases "re \<noteq> [] \<and> hd re = CHR ''*''")
    case True
    then obtain re' where "re = CHR ''*'' # re'" by (cases re) auto
    with 2(1) True show ?thesis by (simp add: matches_at_star matchhere.simps(2))
  next
    case not_star: False
    show ?thesis
    proof (cases "c = CHR ''$'' \<and> re = []")
      case True
      then show ?thesis using not_star by (simp add: matches_at_end matchhere.simps(2))
    next
      case False
      have one: "matches_at (c # re) tx \<longleftrightarrow> (\<exists>x t. tx = x # t \<and> accepts c x \<and> matches_at re t)"
        by (rule matches_at_one) (use False not_star in auto)
      show ?thesis
        unfolding one using False not_star 2(2) [OF not_star False]
        by (cases tx) (auto simp: accepts_def matchhere.simps(2))
    qed
  qed
next
  case (3 c re tx)
  have step: "matchstar c re tx \<longleftrightarrow> matchhere re tx \<or> (\<exists>x t. tx = x # t \<and> accepts c x \<and> matchstar c re t)"
    by (subst matchstar.simps) (cases tx; auto simp: accepts_def)
  show ?case
  proof (cases "matchhere re tx")
    case True
    then show ?thesis using 3(1) step by (subst star_unfold) blast
  next
    case False
    have "(\<exists>x t. tx = x # t \<and> accepts c x \<and> matchstar c re t) \<longleftrightarrow> (\<exists>x t. tx = x # t \<and> accepts c x \<and>
       (\<exists>v u. t = v @ u \<and> (\<forall>x \<in> set v. accepts c x) \<and> matches_at re u))"
      using 3(2) [OF False] by (cases tx) (auto simp: accepts_def)
    then show ?thesis using False 3(1) step by (subst star_unfold) blast
  qed
qed

lemma match_from_iff: "match_from re tx \<longleftrightarrow> (\<exists>pre t. tx = pre @ t \<and> matchhere re t)"
proof (induction re tx rule: match_from.induct)
  case (1 re tx)
  show ?case
  proof (cases "matchhere re tx \<or> tx = []")
    case True
    then show ?thesis by (subst match_from.simps) (auto simp: append_eq_Cons_conv)
  next
    case False
    then obtain x t where t: "tx = x # t" by (cases tx) auto
    have "match_from re tx \<longleftrightarrow> match_from re t"
      using False t by (subst match_from.simps) simp
    also have "\<dots> \<longleftrightarrow> (\<exists>pre u. t = pre @ u \<and> matchhere re u)"
      using 1 False t by simp
    also have "\<dots> \<longleftrightarrow> (\<exists>pre u. tx = pre @ u \<and> matchhere re u)"
      using False t by (auto simp: Cons_eq_append_conv)
    finally show ?thesis .
  qed
qed

text \<open>
  C29: \<^verbatim>\<open>match\<close> decides the language of the pattern: without \<^verbatim>\<open>^\<close> it is true exactly
  if some stretch of the text is a word of the pattern, a stretch that starts
  the text if the pattern starts with \<^verbatim>\<open>^\<close>, and one that ends it if the pattern
  ends with \<^verbatim>\<open>$\<close>.
\<close>

theorem match_correct:
  "match re tx \<longleftrightarrow>
     (if re \<noteq> [] \<and> hd re = CHR ''^'' then matches_at (tl re) tx
      else (\<exists>pre t. tx = pre @ t \<and> matches_at re t))"
  by (simp add: match_def match_from_iff matchhere_matchstar_lang)

end
