(* ===== verification/User.thy ===== *)
theory User
  imports Syscall Grep
begin

text \<open>
  A user process as its system calls: the prototypes of \<^verbatim>\<open>user/user.h\<close>, and the
  functions of \<^verbatim>\<open>user/ulib.c\<close> and \<^verbatim>\<open>user/printf.c\<close> that make them.

  The process runs in the same monad as the kernel.  A system call appends itself
  to \<open>calls\<close> and lets the kernel run, one entry of the interference list, which
  leaves its answer in \<open>answer\<close>.  \<^verbatim>\<open>fork\<close> is a call with two possible answers: a run
  in which it is 0 is a run of the child.  After \<^verbatim>\<open>exit\<close>, and after an \<^verbatim>\<open>exec\<close> that
  succeeds, the program does not go on: the outcome is \<open>Blocked\<close> and the call is the
  last of \<open>calls\<close>.  Strings and buffers are lists of characters.
\<close>

section \<open>System calls\<close>

datatype usys =
    U_fork
  | U_exit int
  | U_wait
  | U_pipe
  | U_write int string
  | U_read int nat
  | U_close int
  | U_kill int
  | U_exec string "string list"
  | U_open string uint
  | U_mknod string int int
  | U_unlink string
  | U_fstat int
  | U_link string string
  | U_mkdir string
  | U_chdir string
  | U_dup int
  | U_getpid
  | U_sbrk int
  | U_sleep int
  | U_uptime

text \<open>
  What a call gives back: its value, the bytes \<^verbatim>\<open>read\<close> has stored, the descriptors
  of \<^verbatim>\<open>pipe\<close>, the \<^verbatim>\<open>struct stat\<close>.
\<close>

record answer =
  a_ret :: int
  a_data :: string
  a_fds :: "int \<times> int"
  a_stat :: fstat

record uproc =
  calls :: "usys list"
  answer :: answer

definition u_call :: "usys \<Rightarrow> ('u uproc_scheme, answer) kern" where
  "u_call c =
     seq (modify (\<lambda>s. s\<lparr>calls := calls s @ [c]\<rparr>))
    (seq interfere
    (gets answer))"

definition u_int :: "usys \<Rightarrow> ('u uproc_scheme, int) kern" where
  "u_int c = bind (u_call c) (\<lambda>a. ret (a_ret a))"

definition u_stop :: "('u uproc_scheme, 'a) kern" where
  "u_stop = (\<lambda>s e. Blocked s)"

definition u_exit :: "int \<Rightarrow> ('u uproc_scheme, 'a) kern" where
  "u_exit n = seq (modify (\<lambda>s. s\<lparr>calls := calls s @ [U_exit n]\<rparr>)) u_stop"

definition u_exec :: "string \<Rightarrow> string list \<Rightarrow> ('u uproc_scheme, int) kern" where
  "u_exec path argv =
     bind (u_int (U_exec path argv)) (\<lambda>r. if r < 0 then ret r else u_stop)"

text \<open>\<open>u_read fd n buf\<close> is \<^verbatim>\<open>read(fd, buf, n)\<close>; it also gives the buffer as the call leaves it.\<close>

definition fill :: "string \<Rightarrow> string \<Rightarrow> string" where
  "fill buf data = data @ drop (length data) buf"

definition u_read :: "int \<Rightarrow> nat \<Rightarrow> string \<Rightarrow> ('u uproc_scheme, int \<times> string) kern" where
  "u_read fd n buf = bind (u_call (U_read fd n)) (\<lambda>a. ret (a_ret a, fill buf (a_data a)))"

definition u_fstat :: "int \<Rightarrow> ('u uproc_scheme, int \<times> fstat) kern" where
  "u_fstat fd = bind (u_call (U_fstat fd)) (\<lambda>a. ret (a_ret a, a_stat a))"

definition u_pipe :: "('u uproc_scheme, int \<times> int \<times> int) kern" where
  "u_pipe = bind (u_call U_pipe) (\<lambda>a. ret (a_ret a, a_fds a))"

text \<open>A call whose value the program ignores.\<close>

definition u_do :: "usys \<Rightarrow> ('u uproc_scheme, unit) kern" where
  "u_do c = bind (u_call c) (\<lambda>_. ret ())"

section \<open>The library\<close>

text \<open>\<^verbatim>\<open>putc\<close> of \<^verbatim>\<open>printf.c\<close> writes one character at a time.\<close>

definition u_putc :: "int \<Rightarrow> char \<Rightarrow> ('u uproc_scheme, unit) kern" where
  "u_putc fd c = u_do (U_write fd [c])"

definition u_fprintf :: "int \<Rightarrow> string \<Rightarrow> parg list \<Rightarrow> ('u uproc_scheme, unit) kern" where
  "u_fprintf fd fmt args =
     (case fprintf_text fmt args of Some t \<Rightarrow> for_each t (u_putc fd) | None \<Rightarrow> panic ''va_arg'')"

definition u_printf :: "string \<Rightarrow> parg list \<Rightarrow> ('u uproc_scheme, unit) kern" where
  "u_printf fmt args = u_fprintf 1 fmt args"

definition CR :: char where "CR = CHR 0x0D"

text \<open>The loop variables are \<^verbatim>\<open>i\<close>, the buffer and whether the loop has been left.\<close>

definition u_gets :: "string \<Rightarrow> nat \<Rightarrow> ('u uproc_scheme, string) kern" where
  "u_gets buf mx =
     bind (whileM (\<lambda>(i, buf, done) s. i + 1 < mx \<and> \<not> done)
       (\<lambda>(i, buf, done).
          bind (u_read 0 1 [NUL]) (\<lambda>(cc, c).
          if cc < 1 then ret (i, buf, True)
          else ret (i + 1, buf[i := hd c], hd c = NL \<or> hd c = CR)))
       (0, buf, False))
     (\<lambda>(i, buf, done). ret (buf[i := NUL]))"

definition u_stat :: "string \<Rightarrow> ('u uproc_scheme, int \<times> fstat option) kern" where
  "u_stat n =
     bind (u_int (U_open n O_RDONLY)) (\<lambda>fd.
     if fd < 0 then ret (- 1, None)
     else
       bind (u_fstat fd) (\<lambda>(r, st).
       seq (u_do (U_close fd))
      (ret (r, Some st))))"

text \<open>The C string at an offset of a buffer.\<close>

definition cstr :: "string \<Rightarrow> nat \<Rightarrow> string" where
  "cstr buf i = takeWhile (\<lambda>c. c \<noteq> NUL) (drop i buf)"

section \<open>Running the calls\<close>

definition called :: "usys \<Rightarrow> 'u uproc_scheme \<Rightarrow> 'u uproc_scheme" where
  "called c s = s\<lparr>calls := calls s @ [c]\<rparr>"

lemma u_call_run [simp]:
  "u_call c s [] = Blocked (called c s)"
  "u_call c s (f # e) = Ok (answer (f (called c s))) (f (called c s)) e"
  by (simp_all add: u_call_def called_def)

lemma u_do_run [simp]:
  "u_do c s [] = Blocked (called c s)"
  "u_do c s (f # e) = Ok () (f (called c s)) e"
  by (simp_all add: u_do_def)

lemma u_int_run [simp]:
  "u_int c s [] = Blocked (called c s)"
  "u_int c s (f # e) = Ok (a_ret (answer (f (called c s)))) (f (called c s)) e"
  by (simp_all add: u_int_def)

lemma u_read_run [simp]:
  "u_read fd n buf s [] = Blocked (called (U_read fd n) s)"
  "u_read fd n buf s (f # e) =
     (let t = f (called (U_read fd n) s) in Ok (a_ret (answer t), fill buf (a_data (answer t))) t e)"
  by (simp_all add: u_read_def Let_def)

lemma u_pipe_run [simp]:
  "u_pipe s [] = Blocked (called U_pipe s)"
  "u_pipe s (f # e) = (let t = f (called U_pipe s) in Ok (a_ret (answer t), a_fds (answer t)) t e)"
  by (simp_all add: u_pipe_def Let_def)

lemma u_stop_run [simp]: "u_stop s e = Blocked s"
  by (simp add: u_stop_def)

lemma u_exit_run [simp]: "u_exit n s e = Blocked (called (U_exit n) s)"
  by (simp add: u_exit_def called_def)

lemma called_sel [simp]:
  "calls (called c s) = calls s @ [c]"
  "answer (called c s) = answer s"
  by (simp_all add: called_def)

end
