(* ===== verification/Sh.thy ===== *)
theory Sh
  imports User
begin

text \<open>
  \<^verbatim>\<open>user/sh.c\<close>.  The line is the C string in \<^verbatim>\<open>buf\<close>, without its NUL; the pointers
  into it are offsets, and \<^verbatim>\<open>es\<close> is its length.  A command is a tree whose strings are
  pairs of offsets \<^verbatim>\<open>(q, eq)\<close> until \<^verbatim>\<open>nulterminate\<close> has put a NUL at every \<^verbatim>\<open>eq\<close>.  The
  constructors of the tree stand for \<^verbatim>\<open>execcmd\<close>, \<^verbatim>\<open>redircmd\<close>, \<^verbatim>\<open>pipecmd\<close>, \<^verbatim>\<open>listcmd\<close> and
  \<^verbatim>\<open>backcmd\<close>, whose \<^verbatim>\<open>malloc\<close> is taken to succeed, as the code takes it to.
\<close>

section \<open>Commands\<close>

definition MAXARGS :: nat where "MAXARGS = 10"

datatype cmd =
    EXEC "(nat \<times> nat) list"
  | REDIR cmd nat nat uint int
  | PIPE cmd cmd
  | LIST cmd cmd
  | BACK cmd

definition execcmd :: cmd where "execcmd = EXEC []"

definition redircmd :: "cmd \<Rightarrow> nat \<Rightarrow> nat \<Rightarrow> uint \<Rightarrow> int \<Rightarrow> cmd" where
  "redircmd subcmd file efile mode fd = REDIR subcmd file efile mode fd"

definition pipecmd :: "cmd \<Rightarrow> cmd \<Rightarrow> cmd" where "pipecmd left right = PIPE left right"

definition listcmd :: "cmd \<Rightarrow> cmd \<Rightarrow> cmd" where "listcmd left right = LIST left right"

definition backcmd :: "cmd \<Rightarrow> cmd" where "backcmd subcmd = BACK subcmd"

lemmas constructor_defs = execcmd_def redircmd_def pipecmd_def listcmd_def backcmd_def

section \<open>Tokens\<close>

definition whitespace :: string where
  "whitespace = [CHR '' '', CHR 0x09, CHR 0x0D, CHR 0x0A, CHR 0x0B]"

definition symbols :: string where
  "symbols = ''<|>&;()''"

definition char_at :: "string \<Rightarrow> nat \<Rightarrow> char" where
  "char_at line s = (if s < length line then line ! s else NUL)"

function skip_ws :: "string \<Rightarrow> nat \<Rightarrow> nat" where
  "skip_ws line s =
     (if s < length line \<and> line ! s \<in> set whitespace then skip_ws line (s + 1) else s)"
  by pat_completeness auto
termination
  by (relation "measure (\<lambda>(line, s). length line - s)") auto

function skip_word :: "string \<Rightarrow> nat \<Rightarrow> nat" where
  "skip_word line s =
     (if s < length line \<and> line ! s \<notin> set whitespace \<and> line ! s \<notin> set symbols
      then skip_word line (s + 1) else s)"
  by pat_completeness auto
termination
  by (relation "measure (\<lambda>(line, s). length line - s)") auto

declare skip_ws.simps [simp del] skip_word.simps [simp del]

text \<open>The switch of \<^verbatim>\<open>gettoken\<close>: the token that starts at \<open>q\<close>, and its end.\<close>

definition token_at :: "string \<Rightarrow> nat \<Rightarrow> char \<times> nat" where
  "token_at line q =
     (let c = char_at line q in
      if c = NUL then (NUL, q)
      else if c \<in> set ''|();&<'' then (c, q + 1)
      else if c = CHR ''>''
      then (if char_at line (q + 1) = CHR ''>'' then (CHR ''+'', q + 2) else (CHR ''>'', q + 1))
      else (CHR ''a'', skip_word line q))"

text \<open>The token, \<^verbatim>\<open>*q\<close>, \<^verbatim>\<open>*eq\<close> and \<^verbatim>\<open>*ps\<close>.\<close>

definition gettoken :: "string \<Rightarrow> nat \<Rightarrow> char \<times> nat \<times> nat \<times> nat" where
  "gettoken line s =
     (let q = skip_ws line s; (tok, eq) = token_at line q in (tok, q, eq, skip_ws line eq))"

definition sh_peek :: "string \<Rightarrow> nat \<Rightarrow> string \<Rightarrow> bool \<times> nat" where
  "sh_peek line s toks =
     (let s = skip_ws line s; c = char_at line s in (c \<noteq> NUL \<and> c \<in> set toks, s))"

text \<open>How the positions move.\<close>

lemma skip_ws_ge: "s \<le> skip_ws line s"
  by (induction line s rule: skip_ws.induct) (subst skip_ws.simps, auto)

lemma skip_ws_le: "s \<le> length line \<Longrightarrow> skip_ws line s \<le> length line"
  by (induction line s rule: skip_ws.induct) (subst skip_ws.simps, auto)

lemma skip_word_ge: "s \<le> skip_word line s"
  by (induction line s rule: skip_word.induct) (subst skip_word.simps, auto)

lemma skip_word_le: "s \<le> length line \<Longrightarrow> skip_word line s \<le> length line"
  by (induction line s rule: skip_word.induct) (subst skip_word.simps, auto)

lemma skip_ws_stop: "char_at line (skip_ws line s) \<notin> set whitespace"
  by (induction line s rule: skip_ws.induct)
     (subst skip_ws.simps, auto simp: char_at_def whitespace_def NUL_def)

lemma char_at_NUL: "NUL \<notin> set line \<Longrightarrow> s \<le> length line \<Longrightarrow> char_at line s = NUL \<longleftrightarrow> s = length line"
  by (auto simp: char_at_def dest: nth_mem)

lemma char_at_length: "char_at line s \<noteq> NUL \<Longrightarrow> s < length line"
  by (auto simp: char_at_def split: if_splits)

definition word_char :: "char \<Rightarrow> bool" where
  "word_char c \<longleftrightarrow> c \<notin> set whitespace \<and> c \<notin> set symbols \<and> c \<noteq> NUL"

lemma skip_word_chars:
  assumes "NUL \<notin> set line" "q \<le> i" "i < skip_word line q"
  shows "word_char (line ! i)"
  using assms
proof (induction line q rule: skip_word.induct)
  case (1 line q)
  show ?case
  proof (cases "q < length line \<and> line ! q \<notin> set whitespace \<and> line ! q \<notin> set symbols")
    case True
    then have "skip_word line q = skip_word line (q + 1)" by (subst skip_word.simps) simp
    with 1 True show ?thesis by (cases "i = q") (auto simp: word_char_def dest: nth_mem)
  next
    case False
    then have "skip_word line q = q" by (subst skip_word.simps) auto
    with 1 show ?thesis by simp
  qed
qed

lemma skip_word_stop: "\<not> word_char (char_at line (skip_word line q))"
  by (induction line q rule: skip_word.induct)
     (subst skip_word.simps, auto simp: char_at_def word_char_def)

lemma skip_word_first:
  assumes "q < length line" "line ! q \<notin> set whitespace" "line ! q \<notin> set symbols"
  shows "q < skip_word line q"
  using assms skip_word_ge [of "q + 1" line] by (subst skip_word.simps) auto

lemma symbols_set: "c \<in> set symbols \<longleftrightarrow> c \<in> set ''|();&<'' \<or> c = CHR ''>''"
  by (auto simp: symbols_def)

lemma gettoken_cases:
  assumes "gettoken line s = (tok, q, eq, s')"
  obtains (none) "q = skip_ws line s" "s' = skip_ws line eq" "char_at line q = NUL" "tok = NUL" "eq = q"
  | (sym) "q = skip_ws line s" "s' = skip_ws line eq" "char_at line q \<noteq> NUL"
      "char_at line q \<in> set symbols" "tok \<noteq> NUL" "tok \<noteq> CHR ''a''" "eq = q + 1"
  | (two) "q = skip_ws line s" "s' = skip_ws line eq" "char_at line q = CHR ''>''"
      "char_at line (q + 1) = CHR ''>''" "tok = CHR ''+''" "eq = q + 2"
  | (arg) "q = skip_ws line s" "s' = skip_ws line eq" "char_at line q \<noteq> NUL"
      "char_at line q \<notin> set symbols" "tok = CHR ''a''" "eq = skip_word line q"
proof -
  have eqs: "q = skip_ws line s" "s' = skip_ws line eq" and G: "token_at line q = (tok, eq)"
    using assms by (auto simp: gettoken_def Let_def split: prod.splits)
  have neq: "CHR ''>'' \<noteq> NUL" "CHR ''>'' \<noteq> CHR ''a''" "CHR ''>'' \<notin> set ''|();&<''" "CHR ''a'' \<notin> set ''|();&<''"
    by (simp_all add: NUL_def)
  define c where "c = char_at line q"
  define K where "K = set ''|();&<''"
  note G = G [unfolded token_at_def Let_def, folded c_def K_def]
  note neq = neq [folded K_def]
  have sy: "c \<in> set symbols \<longleftrightarrow> c \<in> K \<or> c = CHR ''>''" unfolding K_def by (rule symbols_set)
  consider "c = NUL" | "c \<noteq> NUL" "c \<in> K"
    | "c = CHR ''>''" "char_at line (q + 1) = CHR ''>''"
    | "c = CHR ''>''" "char_at line (q + 1) \<noteq> CHR ''>''"
    | "c \<noteq> NUL" "c \<notin> K" "c \<noteq> CHR ''>''"
    by blast
  then show thesis
  proof cases
    case 1
    with G have "tok = NUL" "eq = q" by simp_all
    with none [OF eqs] 1 show thesis unfolding c_def by blast
  next
    case 2
    with G have "tok = c" "eq = q + 1" by simp_all
    moreover have "c \<noteq> CHR ''a''" using 2 neq by metis
    ultimately show thesis using sym [OF eqs] 2 sy unfolding c_def by blast
  next
    case 3
    with G neq have "tok = CHR ''+''" "eq = q + 2" by simp_all
    with two [OF eqs] 3 show thesis unfolding c_def by blast
  next
    case 4
    with G neq have "tok = CHR ''>''" "eq = q + 1" by simp_all
    with sym [OF eqs] 4 sy neq show thesis unfolding c_def by metis
  next
    case 5
    with G have "tok = CHR ''a''" "eq = skip_word line q" by simp_all
    with arg [OF eqs] 5 sy show thesis unfolding c_def by blast
  qed
qed

lemma gettoken_pos:
  assumes "gettoken line s = (tok, q, eq, s')"
  shows "s \<le> q" "q \<le> eq" "eq \<le> s'"
    "tok \<noteq> NUL \<Longrightarrow> q < length line \<and> q < eq"
    "s \<le> length line \<Longrightarrow> s' \<le> length line"
    "tok = CHR ''a'' \<Longrightarrow> NUL \<notin> set line \<Longrightarrow>
       (\<forall>i. q \<le> i \<and> i < eq \<longrightarrow> word_char (line ! i)) \<and> \<not> word_char (char_at line eq)"
proof -
  have nul: "CHR ''>'' \<noteq> NUL" "CHR ''a'' \<noteq> NUL" "CHR ''+'' \<noteq> CHR ''a''" by (simp_all add: NUL_def)
  have word: "q < skip_word line q" if "char_at line q \<noteq> NUL" "char_at line q \<notin> set symbols" "q = skip_ws line s"
    using that char_at_length [OF that(1)] skip_ws_stop [of line s]
    by (intro skip_word_first) (auto simp: char_at_def)
  have "s \<le> q \<and> q \<le> eq \<and> eq \<le> s' \<and> (tok \<noteq> NUL \<longrightarrow> q < length line \<and> q < eq)"
    using assms
  proof (cases rule: gettoken_cases)
    case none
    then show ?thesis using skip_ws_ge by simp
  next
    case sym
    then show ?thesis using skip_ws_ge [of s line] skip_ws_ge [of eq line] char_at_length [of line q] by simp
  next
    case two
    then show ?thesis using skip_ws_ge [of s line] skip_ws_ge [of eq line] char_at_length [of line q] nul by simp
  next
    case arg
    then show ?thesis
      using skip_ws_ge [of s line] skip_ws_ge [of eq line] char_at_length [of line q] word by simp
  qed
  then show "s \<le> q" "q \<le> eq" "eq \<le> s'" "tok \<noteq> NUL \<Longrightarrow> q < length line \<and> q < eq" by auto
  show "s' \<le> length line" if "s \<le> length line"
  proof -
    have "skip_ws line s \<le> length line" using that by (rule skip_ws_le)
    with assms have "eq \<le> length line"
      by (cases rule: gettoken_cases)
         (use char_at_length [of line q] char_at_length [of line "q + 1"] skip_word_le [of q line] nul in auto)
    moreover have "s' = skip_ws line eq" using assms by (cases rule: gettoken_cases) auto
    ultimately show ?thesis using skip_ws_le by simp
  qed
  assume tok: "tok = CHR ''a''" and "NUL \<notin> set line"
  moreover have "eq = skip_word line q" using assms tok nul by (cases rule: gettoken_cases) simp_all
  ultimately show "(\<forall>i. q \<le> i \<and> i < eq \<longrightarrow> word_char (line ! i)) \<and> \<not> word_char (char_at line eq)"
    using skip_word_chars skip_word_stop by auto
qed

lemma sh_peek_pos:
  assumes "sh_peek line s toks = (b, s')"
  shows "s \<le> s'" "s \<le> length line \<Longrightarrow> s' \<le> length line" "b \<Longrightarrow> s' < length line"
    "b \<longleftrightarrow> char_at line s' \<noteq> NUL \<and> char_at line s' \<in> set toks"
  using assms skip_ws_ge [of s line] skip_ws_le [of s line] char_at_length [of line "skip_ws line s"]
  by (auto simp: sh_peek_def Let_def)

text \<open>A token that \<^verbatim>\<open>peek\<close> has seen is consumed by \<^verbatim>\<open>gettoken\<close>.\<close>

lemma gettoken_moves:
  assumes "sh_peek line s toks = (b, s1)" "b" "gettoken line s1 = (tok, q, eq, s2)"
  shows "s1 < s2"
proof -
  have "char_at line s1 \<noteq> NUL" "s1 = skip_ws line s" "s1 < length line"
    using assms sh_peek_pos(3,4) [OF assms(1)] by (auto simp: sh_peek_def Let_def)
  moreover have "skip_ws line s1 = s1"
    using skip_ws_stop [of line s] calculation by (subst skip_ws.simps) (simp add: char_at_def)
  ultimately have q: "char_at line q \<noteq> NUL" "q = s1"
    using assms(3) by (auto simp: gettoken_def Let_def split: prod.splits)
  have "tok \<noteq> NUL"
    using assms(3)
  proof (cases rule: gettoken_cases)
    case none
    with q show ?thesis by simp
  qed (simp_all add: NUL_def)
  then show ?thesis using gettoken_pos(2,3,4) [OF assms(3)] q by auto
qed

lemma token_progress:
  assumes "(True, s1) = sh_peek line s toks" "(tok, q, eq, s2) = gettoken line s1"
  shows "length line - s2 < length line - s"
proof -
  have p: "sh_peek line s toks = (True, s1)" using assms(1) by simp
  have "s1 < s2" using gettoken_moves [OF p _ assms(2) [symmetric]] by simp
  moreover have "s1 < length line" using sh_peek_pos(3) [OF p] by simp
  ultimately show ?thesis using sh_peek_pos(1) [OF p] by linarith
qed

lemma redir_progress:
  assumes "(True, s1) = sh_peek line s toks" "(tok, q0, eq0, s2) = gettoken line s1"
    "(t, q, eq, s3) = gettoken line s2"
  shows "length line - s3 < length line - s"
  using token_progress [OF assms(1,2)] gettoken_pos(1,2,3) [OF assms(3) [symmetric]] by linarith

section \<open>The parser\<close>

text \<open>
  A parser gives the tree and the new \<^verbatim>\<open>*ps\<close>, or the message of its \<^verbatim>\<open>panic\<close>.  The
  functions that call each other take a fuel.
\<close>

datatype 'a parsed = Parsed 'a nat | Syntax string | Leftovers string | No_fuel

definition pbind :: "'a parsed \<Rightarrow> ('a \<Rightarrow> nat \<Rightarrow> 'b parsed) \<Rightarrow> 'b parsed" where
  "pbind p k = (case p of Parsed x s \<Rightarrow> k x s | Syntax m \<Rightarrow> Syntax m | Leftovers r \<Rightarrow> Leftovers r | No_fuel \<Rightarrow> No_fuel)"

lemma pbind_simps [simp]:
  "pbind (Parsed x s) k = k x s"
  "pbind (Syntax m) k = Syntax m"
  "pbind (Leftovers r) k = Leftovers r"
  "pbind No_fuel k = No_fuel"
  by (simp_all add: pbind_def)

lemma pbind_Parsed: "pbind p k = Parsed y t \<longleftrightarrow> (\<exists>x s. p = Parsed x s \<and> k x s = Parsed y t)"
  by (cases p) auto

function parseredirs :: "cmd \<Rightarrow> string \<Rightarrow> nat \<Rightarrow> cmd parsed" where
  "parseredirs cmd line s =
     (case sh_peek line s ''<>'' of (b, s) \<Rightarrow>
      if \<not> b then Parsed cmd s
      else case gettoken line s of (tok, _, _, s) \<Rightarrow>
           case gettoken line s of (t, q, eq, s) \<Rightarrow>
           if t \<noteq> CHR ''a'' then Syntax ''missing file for redirection''
           else parseredirs
             (if tok = CHR ''<'' then redircmd cmd q eq O_RDONLY 0
              else if tok = CHR ''>'' then redircmd cmd q eq (O_WRONLY OR O_CREATE OR O_TRUNC) 1
              else if tok = CHR ''+'' then redircmd cmd q eq (O_WRONLY OR O_CREATE) 1
              else cmd) line s)"
  by pat_completeness auto
termination
  by (relation "measure (\<lambda>(cmd, line, s). length line - s)")
     (simp, clarsimp, metis redir_progress)

declare parseredirs.simps [simp del]

text \<open>
  \<^verbatim>\<open>cmd->argv[argc] = q\<close> where \<^verbatim>\<open>cmd\<close> is the \<^verbatim>\<open>execcmd\<close> at the bottom of the redirections in
  \<^verbatim>\<open>ret\<close>; \<open>argc\<close> is the number of its arguments.
\<close>

primrec add_arg :: "cmd \<Rightarrow> nat \<times> nat \<Rightarrow> cmd" where
  "add_arg (EXEC argv) a = EXEC (argv @ [a])"
| "add_arg (REDIR c q eq mode fd) a = REDIR (add_arg c a) q eq mode fd"
| "add_arg (PIPE l r) a = PIPE l r"
| "add_arg (LIST l r) a = LIST l r"
| "add_arg (BACK c) a = BACK c"

function parseargs :: "nat \<Rightarrow> cmd \<Rightarrow> string \<Rightarrow> nat \<Rightarrow> cmd parsed" where
  "parseargs argc cmd line s =
     (case sh_peek line s ''|)&;'' of (b, s) \<Rightarrow>
      if b then Parsed cmd s
      else case gettoken line s of (tok, q, eq, s) \<Rightarrow>
           if tok = NUL then Parsed cmd s
           else if tok \<noteq> CHR ''a'' then Syntax ''syntax''
           else if argc + 1 \<ge> MAXARGS then Syntax ''too many args''
           else pbind (parseredirs (add_arg cmd (q, eq)) line s)
                  (\<lambda>cmd s. parseargs (argc + 1) cmd line s))"
  by pat_completeness auto
termination
  by (relation "measure (\<lambda>(argc, cmd, line, s). MAXARGS - argc)") auto

declare parseargs.simps [simp del]

text \<open>The loop of \<^verbatim>\<open>parseline\<close> over \<^verbatim>\<open>&\<close>.\<close>

function parsebacks :: "cmd \<Rightarrow> string \<Rightarrow> nat \<Rightarrow> cmd parsed" where
  "parsebacks cmd line s =
     (case sh_peek line s ''&'' of (b, s) \<Rightarrow>
      if b then case gettoken line s of (_, _, _, s) \<Rightarrow> parsebacks (backcmd cmd) line s
      else Parsed cmd s)"
  by pat_completeness auto
termination
  by (relation "measure (\<lambda>(cmd, line, s). length line - s)")
     (simp, clarsimp, metis token_progress)

declare parsebacks.simps [simp del]

fun parseline :: "nat \<Rightarrow> string \<Rightarrow> nat \<Rightarrow> cmd parsed"
  and parsepipe :: "nat \<Rightarrow> string \<Rightarrow> nat \<Rightarrow> cmd parsed"
  and parseexec :: "nat \<Rightarrow> string \<Rightarrow> nat \<Rightarrow> cmd parsed"
  and parseblock :: "nat \<Rightarrow> string \<Rightarrow> nat \<Rightarrow> cmd parsed" where
  "parseline 0 line s = No_fuel"
| "parseline (Suc n) line s =
     pbind (parsepipe n line s) (\<lambda>cmd s.
     pbind (parsebacks cmd line s) (\<lambda>cmd s.
     case sh_peek line s '';'' of (b, s) \<Rightarrow>
     if b then
       case gettoken line s of (_, _, _, s) \<Rightarrow>
       pbind (parseline n line s) (\<lambda>right s. Parsed (listcmd cmd right) s)
     else Parsed cmd s))"
| "parsepipe 0 line s = No_fuel"
| "parsepipe (Suc n) line s =
     pbind (parseexec n line s) (\<lambda>cmd s.
     case sh_peek line s ''|'' of (b, s) \<Rightarrow>
     if b then
       case gettoken line s of (_, _, _, s) \<Rightarrow>
       pbind (parsepipe n line s) (\<lambda>right s. Parsed (pipecmd cmd right) s)
     else Parsed cmd s)"
| "parseexec 0 line s = No_fuel"
| "parseexec (Suc n) line s =
     (case sh_peek line s ''('' of (b, s) \<Rightarrow>
      if b then parseblock n line s
      else pbind (parseredirs execcmd line s) (\<lambda>cmd s. parseargs 0 cmd line s))"
| "parseblock 0 line s = No_fuel"
| "parseblock (Suc n) line s =
     (case sh_peek line s ''('' of (b, s) \<Rightarrow>
      if \<not> b then Syntax ''parseblock''
      else case gettoken line s of (_, _, _, s) \<Rightarrow>
        pbind (parseline n line s) (\<lambda>cmd s.
        case sh_peek line s '')'' of (b, s) \<Rightarrow>
        if \<not> b then Syntax ''syntax - missing )''
        else case gettoken line s of (_, _, _, s) \<Rightarrow> parseredirs cmd line s))"

text \<open>\<^verbatim>\<open>nulterminate\<close> stores into the buffer that holds the line.\<close>

primrec nulterminate :: "cmd \<Rightarrow> string \<Rightarrow> string" where
  "nulterminate (EXEC argv) buf = fold (\<lambda>(q, eq) buf. buf[eq := NUL]) argv buf"
| "nulterminate (REDIR c file efile mode fd) buf = (nulterminate c buf)[efile := NUL]"
| "nulterminate (PIPE l r) buf = nulterminate r (nulterminate l buf)"
| "nulterminate (LIST l r) buf = nulterminate r (nulterminate l buf)"
| "nulterminate (BACK c) buf = nulterminate c buf"

text \<open>
  The fuel is four calls for every character of the line and for its end: every turn
  through the four functions takes a parenthesis or a separator.
\<close>

definition parsecmd :: "string \<Rightarrow> (cmd \<times> string) parsed" where
  "parsecmd buf =
     (let line = cstr buf 0 in
      pbind (parseline (4 * length line + 4) line 0) (\<lambda>cmd s.
      case sh_peek line s [] of (_, s) \<Rightarrow>
      if s \<noteq> length line then Leftovers (drop s line)
      else Parsed (cmd, nulterminate cmd buf) s))"

section \<open>Running a command\<close>

text \<open>\<^verbatim>\<open>panic\<close> of the shell.\<close>

definition sh_panic :: "string \<Rightarrow> ('u uproc_scheme, 'a) kern" where
  "sh_panic m = seq (u_fprintf 2 (''%s'' @ [NL]) [A_str (Some m)]) (u_exit 1)"

definition fork1 :: "('u uproc_scheme, int) kern" where
  "fork1 = bind (u_int U_fork) (\<lambda>pid. if pid = - 1 then sh_panic ''fork'' else ret pid)"

text \<open>The strings of the command are in \<open>buf\<close>, as \<^verbatim>\<open>nulterminate\<close> has left it.\<close>

primrec runcmd :: "string \<Rightarrow> cmd \<Rightarrow> ('u uproc_scheme, 'a) kern" where
  "runcmd buf (EXEC argv) =
     (if argv = [] then u_exit 1
      else
        bind (u_exec (cstr buf (fst (hd argv))) (map (\<lambda>(q, eq). cstr buf q) argv)) (\<lambda>_.
        seq (u_fprintf 2 (''exec %s failed'' @ [NL]) [A_str (Some (cstr buf (fst (hd argv))))])
       (u_exit 0)))"
| "runcmd buf (REDIR c file efile mode fd) =
     seq (u_do (U_close fd))
    (bind (u_int (U_open (cstr buf file) mode)) (\<lambda>r.
     if r < 0 then
       seq (u_fprintf 2 (''open %s failed'' @ [NL]) [A_str (Some (cstr buf file))])
      (u_exit 1)
     else runcmd buf c))"
| "runcmd buf (LIST l r) =
     bind fork1 (\<lambda>pid.
     if pid = 0 then runcmd buf l
     else seq (u_do U_wait) (runcmd buf r))"
| "runcmd buf (PIPE l r) =
     bind u_pipe (\<lambda>(ok, p0, p1).
     if ok < 0 then sh_panic ''pipe''
     else
       bind fork1 (\<lambda>pid.
       if pid = 0 then
         seq (u_do (U_close 1))
        (seq (u_do (U_dup p1))
        (seq (u_do (U_close p0))
        (seq (u_do (U_close p1))
        (runcmd buf l))))
       else
         bind fork1 (\<lambda>pid.
         if pid = 0 then
           seq (u_do (U_close 0))
          (seq (u_do (U_dup p0))
          (seq (u_do (U_close p0))
          (seq (u_do (U_close p1))
          (runcmd buf r))))
         else
           seq (u_do (U_close p0))
          (seq (u_do (U_close p1))
          (seq (u_do U_wait)
          (seq (u_do U_wait)
          (u_exit 0)))))))"
| "runcmd buf (BACK c) =
     bind fork1 (\<lambda>pid. if pid = 0 then runcmd buf c else u_exit 0)"

section \<open>The main loop\<close>

text \<open>\<^verbatim>\<open>getcmd\<close> also gives the buffer.\<close>

definition getcmd :: "string \<Rightarrow> ('u uproc_scheme, int \<times> string) kern" where
  "getcmd buf =
     seq (u_do (U_write 2 ''$ ''))
    (bind (u_gets (replicate (length buf) NUL) (length buf)) (\<lambda>buf.
     ret (if buf ! 0 = NUL then - 1 else 0, buf)))"

text \<open>\<^verbatim>\<open>runcmd(parsecmd(buf))\<close>, with the messages of the parser.\<close>

definition run_line :: "string \<Rightarrow> ('u uproc_scheme, 'a) kern" where
  "run_line buf =
     (case parsecmd buf of
        Parsed (cmd, buf) _ \<Rightarrow> runcmd buf cmd
      | Syntax m \<Rightarrow> sh_panic m
      | Leftovers r \<Rightarrow>
          seq (u_fprintf 2 (''leftovers: %s'' @ [NL]) [A_str (Some r)]) (sh_panic ''syntax'')
      | No_fuel \<Rightarrow> panic ''parsecmd'')"

definition sh_step :: "string \<Rightarrow> ('u uproc_scheme, unit) kern" where
  "sh_step buf =
     (if buf ! 0 = CHR ''c'' \<and> buf ! 1 = CHR ''d'' \<and> buf ! 2 = CHR '' '' then
        let buf = buf[length (cstr buf 0) - 1 := NUL] in
        bind (u_int (U_chdir (cstr buf 3))) (\<lambda>r.
        whenM (r < 0) (u_fprintf 2 (''cannot cd %s'' @ [NL]) [A_str (Some (cstr buf 3))]))
      else
        bind fork1 (\<lambda>pid.
        if pid = 0 then run_line buf else u_do U_wait))"

definition sh_open :: "('u uproc_scheme, int) kern" where
  "sh_open =
     whileM (\<lambda>fd s. 0 \<le> fd \<and> fd < 3) (\<lambda>_.
       bind (u_int (U_open ''console'' O_RDWR)) (\<lambda>fd.
       seq (whenM (fd \<ge> 3) (u_do (U_close fd)))
      (ret fd))) 0"

definition sh_main :: "('u uproc_scheme, 'a) kern" where
  "sh_main =
     bind sh_open (\<lambda>_.
     bind (bind (getcmd (replicate 100 NUL))
       (whileM (\<lambda>(r, buf) s. r \<ge> 0) (\<lambda>(r, buf). seq (sh_step buf) (getcmd buf)))) (\<lambda>_.
     u_exit 0))"

end
