(* ===== verification/Spec2Isabelle.thy ===== *)
theory Spec2Isabelle
  imports Trap Filedata Sh
begin

text \<open>
  A model of the xv6 port under \<^verbatim>\<open>src/lasoft/xv6-la\<close>: the kernel and parts of the user
  programs.

  \<^bold>\<open>How code is modelled.\<close>  A C function is a state transformer \<open>('s, 'a) kern\<close>
  (\<open>Prelude\<close>).  The state is a record that every layer extends with its own variables
  (\<open>mach\<close>, \<open>kmach\<close>, \<open>vmach\<close>, \<open>umach\<close>, \<open>cmach\<close>, \<open>bmach\<close>, \<open>lmach\<close>, \<open>imach\<close>, \<open>fmach\<close>, \<open>pmach\<close>, \<open>tmach\<close>).  Its
  outcome is \<open>Ok\<close> with a value, \<open>Panic\<close> with the message of the C \<^verbatim>\<open>panic\<close>, \<open>Blocked\<close> where the
  process gives up the hart and nothing gives it back, or \<open>Diverges\<close> for a loop without
  end.  What other harts, other processes and the devices do while a function
  waits is its second argument, a list of arbitrary state changes; no theorem
  fixes it beyond what its hypotheses say.  Loops are \<open>whileM\<close>, \<open>for_each\<close> and
  \<open>for_ret\<close>; \<open>returns\<close> is total correctness.  Machine integers are words of the width
  that \<^verbatim>\<open>kernel/types.h\<close> names, with 64 bits for \<^verbatim>\<open>uint64\<close>.

  \<^bold>\<open>The theories.\<close>

  \<^item> \<open>Prelude\<close>: the machine integers, outcomes, statements, loops and \<open>returns\<close>.
  \<^item> \<open>Machine\<close>, \<open>Spinlock\<close>, \<open>Sched\<close>, \<open>Sleeplock\<close>: \<^verbatim>\<open>param.h\<close>, \<^verbatim>\<open>proc.h\<close>, \<^verbatim>\<open>spinlock.c\<close>, the scheduling part
    of \<^verbatim>\<open>proc.c\<close>, \<^verbatim>\<open>sleeplock.c\<close>.  The races (several harts for one lock, a sleeper and its
    waker) are inductive step relations: at most one hart is inside a lock, and a wakeup
    is never lost.
  \<^item> \<open>Kstring\<close>, \<open>Memory\<close>, \<open>Layout\<close>: \<^verbatim>\<open>string.c\<close> and the string functions of \<^verbatim>\<open>ulib.c\<close>, words and
    structure fields in bytes.  Copies are right for every overlap.
  \<^item> \<open>Allocator\<close>, \<open>Kalloc\<close>: the contract of an allocator as a locale, and \<^verbatim>\<open>kalloc.c\<close>, which
    keeps it: no page is lost or handed out twice.
  \<^item> \<open>Vm\<close>, \<open>Pagetable\<close>, \<open>Usermem\<close>: \<^verbatim>\<open>vm.c\<close>.  A page table is a finite map, \<^verbatim>\<open>mappages\<close> and
    \<^verbatim>\<open>walkaddr\<close> are its update and lookup, and what \<^verbatim>\<open>copyout\<close> writes \<^verbatim>\<open>copyin\<close> reads back.
  \<^item> \<open>Ring\<close>, \<open>Uart\<close>, \<open>Printf\<close>, \<open>Console\<close>: a bounded queue as a locale, \<^verbatim>\<open>uart.c\<close>, both \<^verbatim>\<open>printf.c\<close>,
    \<^verbatim>\<open>console.c\<close>.  The console handler refines a line editor.
  \<^item> \<open>Runs\<close>, \<open>Virtio\<close>, \<open>Bio\<close>, \<open>Cache\<close>: runs that wait for the disk and may be cut off by a crash,
    \<^verbatim>\<open>virtio_disk.c\<close>, \<^verbatim>\<open>bio.c\<close>, and the contract of the cache as rules for its clients.
  \<^item> \<open>Log\<close>, \<open>Trans\<close>: \<^verbatim>\<open>log.c\<close>.  A crash during a commit leaves all of a transaction or
    nothing; \<open>Trans\<close> is the contract of \<^verbatim>\<open>log_write\<close> towards the file system.
  \<^item> \<open>Inode\<close>, \<open>Blocks\<close>, \<open>Path\<close>, \<open>Filedata\<close>: \<^verbatim>\<open>fs.c\<close>.  \<^verbatim>\<open>balloc\<close> and \<^verbatim>\<open>bfree\<close> work on the set of used
    blocks, \<^verbatim>\<open>readi\<close> delivers the bytes of a file, \<^verbatim>\<open>iget\<close> keeps one table entry per inode,
    \<^verbatim>\<open>dirlookup\<close> finds the first entry with a name; structures on disk are read back as
    they were written.
  \<^item> \<open>Pipe\<close>, \<open>File\<close>: \<^verbatim>\<open>pipe.c\<close>, \<^verbatim>\<open>file.c\<close>.  A pipe delivers its bytes in order.
  \<^item> \<open>Proc\<close>, \<open>Exec\<close>, \<open>Syscall\<close>, \<open>Trap\<close>: the rest of \<^verbatim>\<open>proc.c\<close>, \<^verbatim>\<open>exec.c\<close>, \<^verbatim>\<open>syscall.c\<close>, \<^verbatim>\<open>sysproc.c\<close>,
    \<^verbatim>\<open>sysfile.c\<close>, \<^verbatim>\<open>trap.c\<close>, \<^verbatim>\<open>plic.c\<close>, \<^verbatim>\<open>start.c\<close>, \<^verbatim>\<open>main.c\<close>.  These are definitions that compose
    the layers below; no theorem about them is stated here.
  \<^item> \<open>User\<close>, \<open>Grep\<close>: a user process as the trace of its system calls, and \<^verbatim>\<open>user/grep.c\<close>, whose
    matcher decides the language of its pattern.

  \<^bold>\<open>Interfaces.\<close>  The locale \<open>allocator\<close> is interpreted on the page allocator and on the
  descriptors of the disk driver, \<open>fifo\<close> on the output buffer of the UART, the input
  buffer of the console and the pipes.

  \<^bold>\<open>Assumptions.\<close>  The disk is a parameter: \<open>virtio_blk\<close> states what the device does with a
  request.  The theorems on the file system are about one process that runs while the
  others leave its data alone (\<open>calm\<close>); the locks are what makes this so.

  \<^bold>\<open>Bounds.\<close>  No definition of the kernel uses fuel.  The loops over strings in
  \<open>Kstring\<close> are \<open>partial_function\<close>s, whose value is \<open>None\<close> where C would not return.

  \<^bold>\<open>Not modelled.\<close>  The assembly (\<^verbatim>\<open>.S\<close> files and the output of \<^verbatim>\<open>usys.pl\<close>), of which the model
  only has the boundary; the TLB and \<^verbatim>\<open>sfence_vma\<close>; \<^verbatim>\<open>ramdisk.c\<close>, which does not
  compile; the test programs \<^verbatim>\<open>usertests\<close>, \<^verbatim>\<open>grind\<close>, \<^verbatim>\<open>forktest\<close>, \<^verbatim>\<open>stressfs\<close> and \<^verbatim>\<open>zombie\<close>; the
  shell, the small user programs, \<^verbatim>\<open>umalloc.c\<close> and \<^verbatim>\<open>mkfs\<close>, which are not yet part of the
  development; the processor core under \<^verbatim>\<open>src/lacpu\<close>, which is Verilog.
\<close>

end
